(* ===== verification/Prelude.thy ===== *)
theory Prelude
  imports Main "HOL-Library.Word"
begin

unbundle bit_operations_syntax

text \<open>
  Shared vocabulary of the development: the machine integers of the C++ sources, memory blocks
  with explicit bounds, the faults an out-of-contract memory access produces, the
  \<open>fault + 'a\<close> result type and the combinator for the \<open>while (true)\<close> loops of the sources.
\<close>

section \<open>Machine integers\<close>

type_synonym u8 = "8 word"
type_synonym u32 = "32 word"
type_synonym u64 = "64 word"

named_theorems word_nat \<open>comparisons and arithmetic of words read as natural numbers\<close>

declare word_le_nat_alt [word_nat] word_less_nat_alt [word_nat]

lemma unat_sub_le [word_nat]: "b \<le> a \<Longrightarrow> unat (a - b) = unat a - unat (b :: 'a::len word)"
  by (simp add: unat_sub)

lemma unat_add_less:
  "unat a + unat b < 2 ^ LENGTH('a) \<Longrightarrow> unat (a + b) = unat a + unat (b :: 'a::len word)"
  by (simp add: unat_word_ariths)

lemma unat_u32_less [simp]: "unat (w :: u32) < 4294967296"
  using unsigned_less [of w] by simp

lemma unat_add_u32 [word_nat]:
  "unat a + unat b < 4294967296 \<Longrightarrow> unat (a + b) = unat a + unat (b :: u32)"
  by (rule unat_add_less) simp

lemma unat_of_nat_u32 [simp]: "n < 4294967296 \<Longrightarrow> unat (word_of_nat n :: u32) = n"
  by (simp add: unat_of_nat take_bit_nat_eq_self)

lemma unat_and_low_bits:
  "unat (w AND 3) = unat (w :: 'a::len word) mod 4"
proof -
  have "w AND 3 = take_bit 2 w"
    by (simp add: take_bit_eq_mask mask_numeral)
  then have "unat (w AND 3) = take_bit 2 (unat w)"
    by (simp only: unsigned_take_bit_eq)
  then show ?thesis
    by (simp add: take_bit_eq_mod)
qed

section \<open>Memory blocks, pointers and faults\<close>

text \<open>
  A block is one allocation: its address, its size in bytes and its bytes. Cells outside
  \<open>[0, blk_size)\<close> do not belong to the program, and every access the model makes through
  \<open>blk_read\<close>, \<open>blk_write\<close>, \<open>memcpy\<close> or \<open>memcpy_within\<close> checks the bounds.
  A null pointer is the block of size 0. A pointer is a block and an offset in it.
\<close>

type_synonym mem = "nat \<Rightarrow> u8"

record block =
  blk_addr :: u64
  blk_size :: nat
  blk_mem :: mem

type_synonym ptr = "block \<times> nat"

text \<open>
  The faults: an access outside an allocation, a \<open>memcpy\<close> whose source and destination
  overlap (undefined behaviour in C and C++), and an access through a null pointer or to an
  object that has been deleted.
\<close>

datatype fault = OutOfBounds | OverlappingCopy | NullDeref | UseAfterFree

type_synonym 'a result = "fault + 'a"

text \<open>What \<open>malloc\<close> hands out: for a requested size, the address and the stale bytes.\<close>

type_synonym allocator = "nat \<Rightarrow> u64 \<times> mem"

definition malloc :: "allocator \<Rightarrow> nat \<Rightarrow> block" where
  "malloc h n = \<lparr>blk_addr = fst (h n), blk_size = n, blk_mem = snd (h n)\<rparr>"

definition null_block :: block where
  "null_block = \<lparr>blk_addr = 0, blk_size = 0, blk_mem = (\<lambda>_. 0)\<rparr>"

definition mslice :: "mem \<Rightarrow> nat \<Rightarrow> nat \<Rightarrow> u8 list" where
  "mslice m p n = map m [p..<p + n]"

definition put :: "mem \<Rightarrow> nat \<Rightarrow> u8 list \<Rightarrow> mem" where
  "put m p xs = (\<lambda>a. if p \<le> a \<and> a < p + length xs then xs ! (a - p) else m a)"

definition blk_read :: "ptr \<Rightarrow> nat \<Rightarrow> u8 list result" where
  "blk_read p n =
     (if snd p + n \<le> blk_size (fst p) then Inr (mslice (blk_mem (fst p)) (snd p) n)
      else Inl OutOfBounds)"

definition blk_write :: "ptr \<Rightarrow> u8 list \<Rightarrow> block result" where
  "blk_write p xs =
     (if snd p + length xs \<le> blk_size (fst p)
      then Inr ((fst p)\<lparr>blk_mem := put (blk_mem (fst p)) (snd p) xs\<rparr>)
      else Inl OutOfBounds)"

definition bytes_ptr :: "u8 list \<Rightarrow> ptr" where
  "bytes_ptr xs =
     (\<lparr>blk_addr = 0, blk_size = length xs, blk_mem = put (\<lambda>_. 0) 0 xs\<rparr>, 0)"

fun ebind :: "'a result \<Rightarrow> ('a \<Rightarrow> 'b result) \<Rightarrow> 'b result" where
  "ebind (Inl e) f = Inl e"
| "ebind (Inr x) f = f x"

definition memcpy :: "ptr \<Rightarrow> ptr \<Rightarrow> nat \<Rightarrow> block result" where
  "memcpy dst src n = ebind (blk_read src n) (\<lambda>xs. blk_write dst xs)"

definition memcpy_within :: "block \<Rightarrow> nat \<Rightarrow> nat \<Rightarrow> nat \<Rightarrow> block result" where
  "memcpy_within b dst src n =
     (if dst < src + n \<and> src < dst + n then Inl OverlappingCopy
      else memcpy (b, dst) (b, src) n)"

lemma ebind_Inr_iff: "ebind m f = Inr y \<longleftrightarrow> (\<exists>x. m = Inr x \<and> f x = Inr y)"
  by (cases m) auto

lemma ebind_Inl_iff: "ebind m f = Inl e \<longleftrightarrow> m = Inl e \<or> (\<exists>x. m = Inr x \<and> f x = Inl e)"
  by (cases m) auto

lemma ebind_assoc: "ebind (ebind m f) g = ebind m (\<lambda>x. ebind (f x) g)"
  by (cases m) auto

lemma ebind_split:
  "P (ebind m f) \<longleftrightarrow> (\<forall>e. m = Inl e \<longrightarrow> P (Inl e)) \<and> (\<forall>x. m = Inr x \<longrightarrow> P (f x))"
  by (cases m) auto

subsection \<open>Slices\<close>

named_theorems mem_simps \<open>slices of memory and writes into it\<close>

lemma length_slice [simp, mem_simps]: "length (mslice m p n) = n"
  by (simp add: mslice_def)

lemma slice_0 [simp, mem_simps]: "mslice m p 0 = []"
  by (simp add: mslice_def)

lemma nth_slice [simp, mem_simps]: "i < n \<Longrightarrow> mslice m p n ! i = m (p + i)"
  by (simp add: mslice_def)

lemma slice_add: "mslice m p (a + b) = mslice m p a @ mslice m (p + a) b"
  by (rule nth_equalityI) (auto simp: nth_append)

lemma take_slice [mem_simps]: "take k (mslice m p n) = mslice m p (min k n)"
  by (rule nth_equalityI) auto

lemma drop_slice [mem_simps]: "drop k (mslice m p n) = mslice m (p + k) (n - k)"
  by (rule nth_equalityI) (auto simp: add.assoc)

lemma slice_eqI: "(\<And>i. i < n \<Longrightarrow> m (p + i) = m' (q + i)) \<Longrightarrow> mslice m p n = mslice m' q n"
  by (rule nth_equalityI) auto

lemma slice_eq_iff: "mslice m p n = xs \<longleftrightarrow> length xs = n \<and> (\<forall>i<n. m (p + i) = xs ! i)"
  by (auto simp: list_eq_iff_nth_eq)

lemma slice_put_same [simp, mem_simps]: "n = length xs \<Longrightarrow> mslice (put m p xs) p n = xs"
  by (simp add: slice_eq_iff put_def)

lemma slice_put_disjoint [mem_simps]:
  "q + n \<le> p \<or> p + length xs \<le> q \<Longrightarrow> mslice (put m p xs) q n = mslice m q n"
  by (auto intro!: slice_eqI simp: put_def)

lemma put_Nil [simp, mem_simps]: "put m p [] = m"
  by (auto simp: put_def fun_eq_iff)

lemma slice_put_append:
  "q + n = p \<Longrightarrow> mslice (put m p xs) q (n + length xs) = mslice m q n @ xs"
  by (simp add: slice_add mem_simps)

lemma slice_put_end:
  "q \<le> p \<Longrightarrow> mslice (put m p xs) q (p + length xs - q) = mslice m q (p - q) @ xs"
  using slice_put_append [of q "p - q" p m xs] by simp

lemma memcpy_Inr:
  "sp + n \<le> blk_size s \<Longrightarrow> dp + n \<le> blk_size d \<Longrightarrow>
   memcpy (d, dp) (s, sp) n = Inr (d\<lparr>blk_mem := put (blk_mem d) dp (mslice (blk_mem s) sp n)\<rparr>)"
  by (simp add: memcpy_def blk_read_def blk_write_def)

lemma memcpy_OutOfBounds:
  "blk_size s < sp + n \<or> blk_size d < dp + n \<Longrightarrow> memcpy (d, dp) (s, sp) n = Inl OutOfBounds"
  by (auto simp: memcpy_def blk_read_def blk_write_def)

lemma memcpy_0:
  "sp \<le> blk_size s \<Longrightarrow> dp \<le> blk_size d \<Longrightarrow> memcpy (d, dp) (s, sp) 0 = Inr d"
  by (simp add: memcpy_def blk_read_def blk_write_def)

lemma bytes_ptr_simps [simp]:
  "snd (bytes_ptr xs) = 0" "blk_size (fst (bytes_ptr xs)) = length xs"
  "n \<le> length xs \<Longrightarrow> mslice (blk_mem (fst (bytes_ptr xs))) 0 n = take n xs"
  by (auto simp: bytes_ptr_def list_eq_iff_nth_eq put_def)

lemma blk_read_bytes_ptr [simp]: "n \<le> length xs \<Longrightarrow> blk_read (bytes_ptr xs) n = Inr (take n xs)"
  by (simp add: blk_read_def)

section \<open>The loops \<open>while (true) { ... break; ... }\<close>\<close>

text \<open>
  One pass through a loop body either goes on with a new state or leaves the loop with a
  result. \<open>run_loop\<close> is \<open>None\<close> when the loop never leaves.
\<close>

datatype ('s, 'r) control = Continue 's | Break 'r

partial_function (option) run_loop :: "('s \<Rightarrow> ('s, 'r) control) \<Rightarrow> 's \<Rightarrow> 'r option" where
  "run_loop body s =
     (case body s of Continue s' \<Rightarrow> run_loop body s' | Break r \<Rightarrow> Some r)"

lemma run_loop_Break: "body s = Break r \<Longrightarrow> run_loop body s = Some r"
  by (simp add: run_loop.simps)

lemma run_loop_Continue: "body s = Continue s' \<Longrightarrow> run_loop body s = run_loop body s'"
  by (subst run_loop.simps) simp

text \<open>Total correctness: an invariant, a decreasing measure, and what a break establishes.\<close>

lemma run_loop_total:
  assumes "I s"
    and "\<And>s s'. I s \<Longrightarrow> body s = Continue s' \<Longrightarrow> I s' \<and> f s' < (f s :: nat)"
    and "\<And>s r. I s \<Longrightarrow> body s = Break r \<Longrightarrow> Q r"
  shows "\<exists>r. run_loop body s = Some r \<and> Q r"
  using assms(1)
proof (induction s rule: measure_induct_rule [where f = f])
  case (less s)
  show ?case
  proof (cases "body s")
    case (Continue s')
    with less assms(2) show ?thesis by (metis run_loop_Continue)
  next
    case (Break r)
    with less.prems assms(3) show ?thesis by (metis run_loop_Break)
  qed
qed

text \<open>Partial correctness, by induction on the iterations made.\<close>

lemma run_loop_partial:
  assumes ret: "run_loop body s = Some r"
    and init: "I s"
    and cont: "\<And>s s'. I s \<Longrightarrow> body s = Continue s' \<Longrightarrow> I s'"
    and brk: "\<And>s r. I s \<Longrightarrow> body s = Break r \<Longrightarrow> Q r"
  shows "Q r"
proof -
  have "I s \<longrightarrow> Q r"
  proof (rule run_loop.raw_induct [where P = "\<lambda>b s r. b = body \<longrightarrow> I s \<longrightarrow> Q r",
           OF _ ret, THEN mp, OF _ refl])
    fix f b s r
    assume IH: "\<And>b s r. f b s = Some r \<Longrightarrow> b = body \<longrightarrow> I s \<longrightarrow> Q r"
      and eq: "(case b s of Continue s' \<Rightarrow> f b s' | Break r \<Rightarrow> Some r) = Some r"
    show "b = body \<longrightarrow> I s \<longrightarrow> Q r"
      using eq IH cont brk by (fastforce split: control.splits)
  qed
  with init show ?thesis by blast
qed

text \<open>Divergence: a set of states the body never leaves.\<close>

lemma run_loop_diverges:
  assumes "I s" and "\<And>s. I s \<Longrightarrow> \<exists>s'. body s = Continue s' \<and> I s'"
  shows "run_loop body s = None"
proof (rule ccontr)
  assume "run_loop body s \<noteq> None"
  then obtain r where "run_loop body s = Some r" by blast
  then show False
    by (rule run_loop_partial [where I = I and Q = "\<lambda>_. False"])
      (use assms in \<open>force+\<close>)
qed

text \<open>Sequencing computations that may not return and may fault.\<close>

fun lbind :: "'a result option \<Rightarrow> ('a \<Rightarrow> 'b result option) \<Rightarrow> 'b result option" where
  "lbind None f = None"
| "lbind (Some (Inl e)) f = Some (Inl e)"
| "lbind (Some (Inr x)) f = f x"

lemma lbind_Some_Inr_iff:
  "lbind m f = Some (Inr y) \<longleftrightarrow> (\<exists>x. m = Some (Inr x) \<and> f x = Some (Inr y))"
  by (cases "(m, f)" rule: lbind.cases) auto

end
