(* ===== verification/ByteFifo.thy ===== *)
theory ByteFifo
  imports Prelude
begin

text \<open>
  The contract shared by the byte queues of the program, \<open>SimpleBuffer\<close> and \<open>SPSC\<close>: a
  push appends some prefix of the given bytes and reports its length, a pop removes bytes from
  the front. The locale proves once what a client relies on: over any sequence of operations
  the bytes that come out are the bytes that went in, in order.
\<close>

datatype fifo_op = Push "u8 list" | Pop nat

text \<open>A client's run: the bytes the queue accepted, the bytes it delivered, the final queue.\<close>

fun fifo_run ::
  "('q \<Rightarrow> u8 list \<Rightarrow> (nat \<times> 'q) result) \<Rightarrow> ('q \<Rightarrow> nat \<Rightarrow> (u8 list \<times> 'q) result) \<Rightarrow>
   'q \<Rightarrow> fifo_op list \<Rightarrow> (u8 list \<times> u8 list \<times> 'q) result" where
  "fifo_run push pop q [] = Inr ([], [], q)"
| "fifo_run push pop q (Push xs # ops) =
     ebind (push q xs) (\<lambda>(k, q).
     ebind (fifo_run push pop q ops) (\<lambda>(inn, out, q). Inr (take k xs @ inn, out, q)))"
| "fifo_run push pop q (Pop n # ops) =
     ebind (pop q n) (\<lambda>(ys, q).
     ebind (fifo_run push pop q ops) (\<lambda>(inn, out, q). Inr (inn, ys @ out, q)))"

fun op_size :: "fifo_op \<Rightarrow> nat" where
  "op_size (Push xs) = length xs"
| "op_size (Pop n) = n"

definition ops_below :: "nat \<Rightarrow> fifo_op list \<Rightarrow> bool" where
  "ops_below lim ops \<longleftrightarrow> (\<forall>x \<in> set ops. op_size x < lim)"

lemma ops_below_simps [simp]:
  "ops_below lim []"
  "ops_below lim (x # ops) \<longleftrightarrow> op_size x < lim \<and> ops_below lim ops"
  by (auto simp: ops_below_def)

locale byte_fifo =
  fixes inv :: "'q \<Rightarrow> bool"
    and abs :: "'q \<Rightarrow> u8 list"
    and push :: "'q \<Rightarrow> u8 list \<Rightarrow> (nat \<times> 'q) result"
    and pop :: "'q \<Rightarrow> nat \<Rightarrow> (u8 list \<times> 'q) result"
    and lim :: nat
  assumes push_law: "inv q \<Longrightarrow> length xs < lim \<Longrightarrow> push q xs = Inr (k, q') \<Longrightarrow>
      inv q' \<and> k \<le> length xs \<and> abs q' = abs q @ take k xs"
    and pop_law: "inv q \<Longrightarrow> n < lim \<Longrightarrow> pop q n = Inr (ys, q') \<Longrightarrow>
      inv q' \<and> ys = take n (abs q) \<and> abs q' = drop n (abs q)"
begin

lemma run_stream:
  "inv q \<Longrightarrow> ops_below lim ops \<Longrightarrow> fifo_run push pop q ops = Inr (inn, out, q') \<Longrightarrow>
   inv q' \<and> abs q @ inn = out @ abs q'"
proof (induction ops arbitrary: q inn out)
  case Nil
  then show ?case by simp
next
  case (Cons x ops)
  show ?case
  proof (cases x)
    case (Push xs)
    with Cons.prems(3) obtain k q1 inn' where
      p: "push q xs = Inr (k, q1)" and r: "fifo_run push pop q1 ops = Inr (inn', out, q')"
      and inn: "inn = take k xs @ inn'"
      by (auto simp: ebind_Inr_iff)
    from Cons.prems(1,2) Push push_law [OF _ _ p] have "inv q1" "abs q1 = abs q @ take k xs"
      by auto
    with Cons.IH [OF _ _ r] Cons.prems(2) inn show ?thesis by simp
  next
    case (Pop n)
    with Cons.prems(3) obtain ys q1 out' where
      p: "pop q n = Inr (ys, q1)" and r: "fifo_run push pop q1 ops = Inr (inn, out', q')"
      and out: "out = ys @ out'"
      by (auto simp: ebind_Inr_iff)
    from Cons.prems(1,2) Pop pop_law [OF _ _ p] have
      q1: "inv q1" "ys = take n (abs q)" "abs q1 = drop n (abs q)" by auto
    with Cons.IH [OF _ _ r] Cons.prems(2) have "inv q'" "drop n (abs q) @ inn = out' @ abs q'"
      by auto
    then show ?thesis using out q1(2) by (metis append.assoc append_take_drop_id)
  qed
qed

end

text \<open>A queue that never faults runs every sequence of operations.\<close>

locale total_byte_fifo = byte_fifo +
  assumes push_total: "inv q \<Longrightarrow> length xs < lim \<Longrightarrow> \<exists>k q'. push q xs = Inr (k, q')"
    and pop_total: "inv q \<Longrightarrow> n < lim \<Longrightarrow> \<exists>ys q'. pop q n = Inr (ys, q')"
begin

lemma run_total:
  "inv q \<Longrightarrow> ops_below lim ops \<Longrightarrow> \<exists>inn out q'. fifo_run push pop q ops = Inr (inn, out, q')"
proof (induction ops arbitrary: q)
  case Nil
  then show ?case by simp
next
  case (Cons x ops)
  show ?case
  proof (cases x)
    case (Push xs)
    with Cons.prems push_total obtain k q' where "push q xs = Inr (k, q')" by fastforce
    moreover from this Push Cons.prems push_law have "inv q'" by auto
    moreover from this Cons.prems(2) obtain inn out q'' where
      "fifo_run push pop q' ops = Inr (inn, out, q'')" using Cons.IH [of q'] by auto
    ultimately show ?thesis using Push by simp
  next
    case (Pop n)
    with Cons.prems pop_total obtain ys q' where "pop q n = Inr (ys, q')" by fastforce
    moreover from this Pop Cons.prems pop_law have "inv q'" by auto
    moreover from this Cons.prems(2) obtain inn out q'' where
      "fifo_run push pop q' ops = Inr (inn, out, q'')" using Cons.IH [of q'] by auto
    ultimately show ?thesis using Pop by simp
  qed
qed

lemma run_total_stream:
  "inv q \<Longrightarrow> ops_below lim ops \<Longrightarrow>
   \<exists>inn out q'. fifo_run push pop q ops = Inr (inn, out, q') \<and> inv q' \<and> abs q @ inn = out @ abs q'"
  using run_total run_stream by meson

end

end
