(* ===== verification/SPSC.thy ===== *)
theory SPSC
  imports ByteFifo
begin

text \<open>
  \<open>ext/easywsclient/SPSC.h\<close>: the single-producer single-consumer ring buffer in shared memory.
  \<open>shared_header\<close> is the header at the front of the shared file together with the ring behind
  it, \<open>spsc\<close> the object each process attaches to it. This theory is the sequential behaviour
  of each method; \<open>SPSC_Concurrent\<close> interleaves their atomic accesses. A method called on an
  object that is not attached dereferences the null \<open>mHeader\<close>.
\<close>

section \<open>The code\<close>

definition cSharedMemoryVersion :: u32 where
  "cSharedMemoryVersion = 100"

definition sizeof_header :: u32 where
  "sizeof_header = 32"

record shared_header =
  mVersionNumber :: u32
  mBufferSize :: u32
  mReadIndex :: u32
  mWriteIndex :: u32
  mSequenceNumber :: u32
  mBaseMemory :: block

record spsc =
  mAttached :: bool
  mCapacity :: u32
  mIsWriter :: bool

definition spsc_new :: spsc where
  "spsc_new = \<lparr>mAttached = False, mCapacity = 0, mIsWriter = True\<rparr>"

definition spsc_init ::
  "spsc \<Rightarrow> shared_header \<Rightarrow> u32 \<Rightarrow> bool \<Rightarrow> bool \<Rightarrow> bool \<times> spsc \<times> shared_header" where
  "spsc_init q sh maxLen isWriter isServer =
     (let q = q\<lparr>mIsWriter := isWriter\<rparr>
      in if maxLen > sizeof_header then
           let q = q\<lparr>mAttached := True, mCapacity := maxLen - sizeof_header\<rparr>
           in if isServer then
                (True, q, sh\<lparr>mVersionNumber := cSharedMemoryVersion, mBufferSize := maxLen,
                            mWriteIndex := 0, mReadIndex := 0, mSequenceNumber := 0\<rparr>)
              else if mVersionNumber sh \<noteq> cSharedMemoryVersion \<or> mBufferSize sh \<noteq> maxLen then
                (False, q\<lparr>mAttached := False\<rparr>, sh)
              else (True, q, sh)
         else (False, q, sh))"

definition calcSize :: "spsc \<Rightarrow> u32 \<Rightarrow> u32 \<Rightarrow> u32" where
  "calcSize q readIndex writeIndex =
     (if writeIndex \<ge> readIndex then writeIndex - readIndex
      else writeIndex + mCapacity q - readIndex)"

definition spsc_size :: "spsc \<Rightarrow> shared_header \<Rightarrow> u32 result" where
  "spsc_size q sh =
     (if mAttached q then Inr (calcSize q (mReadIndex sh) (mWriteIndex sh)) else Inl NullDeref)"

definition spsc_capacity :: "spsc \<Rightarrow> shared_header \<Rightarrow> u32 result" where
  "spsc_capacity q sh =
     ebind (spsc_size q sh) (\<lambda>sz.
       let avail = mCapacity q - sz
       in Inr (if avail \<le> 1 then 0 else avail - 1))"

text \<open>
  The second half of \<open>read\<close>, for the \<open>len\<close> bytes that will be delivered: copy them, in one
  piece or in two around the end of the ring, and store the new read index.
\<close>

definition spsc_read_copy :: "spsc \<Rightarrow> shared_header \<Rightarrow> u32 \<Rightarrow> (u8 list \<times> shared_header) result" where
  "spsc_read_copy q sh len =
     (let readIndex = mReadIndex sh;
          availTop = mCapacity q - readIndex
      in if availTop \<ge> len then
           ebind (blk_read (mBaseMemory sh, unat readIndex) (unat len)) (\<lambda>xs.
             Inr (xs, sh\<lparr>mReadIndex := readIndex + len\<rparr>))
         else
           let remainder = len - availTop
           in ebind (if availTop \<noteq> 0
                     then blk_read (mBaseMemory sh, unat readIndex) (unat availTop)
                     else Inr []) (\<lambda>xs.
              ebind (if remainder \<noteq> 0 then blk_read (mBaseMemory sh, 0) (unat remainder)
                     else Inr []) (\<lambda>ys.
                Inr (xs @ ys, sh\<lparr>mReadIndex := remainder\<rparr>))))"

text \<open>\<open>read\<close>: the bytes copied to \<open>dest\<close>; the return value is their number.\<close>

definition spsc_read :: "spsc \<Rightarrow> shared_header \<Rightarrow> u32 \<Rightarrow> (u8 list \<times> shared_header) result" where
  "spsc_read q sh maxLen =
     (if mIsWriter q then Inr ([], sh)
      else ebind (spsc_size q sh) (\<lambda>len.
        let len = (if len > maxLen then maxLen else len)
        in if len = 0 then Inr ([], sh) else spsc_read_copy q sh len))"

text \<open>The second half of \<open>write\<close>, for the \<open>dataLen\<close> bytes that fit.\<close>

definition spsc_write_copy ::
  "spsc \<Rightarrow> shared_header \<Rightarrow> ptr \<Rightarrow> u32 \<Rightarrow> (u32 \<times> shared_header) result" where
  "spsc_write_copy q sh data dataLen =
     (let writeIndex = mWriteIndex sh;
          availTop = mCapacity q - writeIndex
      in if dataLen \<le> availTop then
           ebind (memcpy (mBaseMemory sh, unat writeIndex) data (unat dataLen)) (\<lambda>blk.
             Inr (dataLen, sh\<lparr>mBaseMemory := blk, mWriteIndex := writeIndex + dataLen\<rparr>))
         else
           let remainder = dataLen - availTop
           in ebind (if availTop \<noteq> 0
                     then memcpy (mBaseMemory sh, unat writeIndex) data (unat availTop)
                     else Inr (mBaseMemory sh)) (\<lambda>blk.
              ebind (if remainder \<noteq> 0
                     then memcpy (blk, 0) (fst data, snd data + unat availTop) (unat remainder)
                     else Inr blk) (\<lambda>blk.
                Inr (dataLen, sh\<lparr>mBaseMemory := blk, mWriteIndex := remainder\<rparr>))))"

text \<open>\<open>write\<close>: the return value is the number of bytes taken from \<open>data\<close>.\<close>

definition spsc_write ::
  "spsc \<Rightarrow> shared_header \<Rightarrow> ptr \<Rightarrow> u32 \<Rightarrow> (u32 \<times> shared_header) result" where
  "spsc_write q sh data dataLen =
     (if \<not> mIsWriter q then Inr (0, sh)
      else ebind (spsc_capacity q sh) (\<lambda>avail.
        if avail = 0 then Inr (0, sh)
        else
          let avail = avail - 1;
              dataLen = (if avail < dataLen then avail else dataLen)
          in spsc_write_copy q sh data dataLen))"

definition incrementSequenceNumber :: "spsc \<Rightarrow> shared_header \<Rightarrow> u32 \<times> shared_header" where
  "incrementSequenceNumber q sh =
     (if mAttached q
      then (mSequenceNumber sh, sh\<lparr>mSequenceNumber := mSequenceNumber sh + 1\<rparr>)
      else (0, sh))"

definition getSequenceNumber :: "spsc \<Rightarrow> shared_header \<Rightarrow> u32" where
  "getSequenceNumber q sh = (if mAttached q then mSequenceNumber sh else 0)"

section \<open>The ring as a bounded queue of bytes\<close>

text \<open>The same index arithmetic on natural numbers, for a ring of \<open>c\<close> bytes.\<close>

definition ring_used :: "nat \<Rightarrow> nat \<Rightarrow> nat \<Rightarrow> nat" where
  "ring_used c r w = (if r \<le> w then w - r else w + c - r)"

definition ring_slice :: "mem \<Rightarrow> nat \<Rightarrow> nat \<Rightarrow> nat \<Rightarrow> u8 list" where
  "ring_slice m c r n = map (\<lambda>i. m ((r + i) mod c)) [0..<n]"

definition ring_contents :: "spsc \<Rightarrow> shared_header \<Rightarrow> u8 list" where
  "ring_contents q sh =
     ring_slice (blk_mem (mBaseMemory sh)) (unat (mCapacity q)) (unat (mReadIndex sh))
       (ring_used (unat (mCapacity q)) (unat (mReadIndex sh)) (unat (mWriteIndex sh)))"

text \<open>
  The invariant of an attached object: indices at most the capacity (an index may rest at the
  capacity itself, one past the last cell), and at least two free bytes unless the ring is empty.
\<close>

definition ring_inv :: "spsc \<Rightarrow> shared_header \<Rightarrow> bool" where
  "ring_inv q sh \<longleftrightarrow>
     (let c = unat (mCapacity q); r = unat (mReadIndex sh); w = unat (mWriteIndex sh)
      in mAttached q \<and> 0 < c \<and> blk_size (mBaseMemory sh) = c \<and> r \<le> c \<and> w \<le> c
         \<and> (ring_used c r w + 2 \<le> c \<or> r = w))"

lemma length_ring_slice [simp]: "length (ring_slice m c r n) = n"
  by (simp add: ring_slice_def)

lemma ring_slice_0 [simp]: "ring_slice m c r 0 = []"
  by (simp add: ring_slice_def)

lemma nth_ring_slice [simp]: "i < n \<Longrightarrow> ring_slice m c r n ! i = m ((r + i) mod c)"
  by (simp add: ring_slice_def)

lemma take_ring_slice: "take k (ring_slice m c r n) = ring_slice m c r (min k n)"
  by (rule nth_equalityI) auto

lemma drop_ring_slice: "drop k (ring_slice m c r n) = ring_slice m c (r + k) (n - k)"
  by (rule nth_equalityI) (auto simp: add.assoc)

lemma ring_slice_mod: "ring_slice m c (r mod c) n = ring_slice m c r n"
  by (rule nth_equalityI) (auto simp: mod_add_left_eq)

lemma ring_slice_linear: "r + n \<le> c \<Longrightarrow> ring_slice m c r n = mslice m r n"
  by (rule nth_equalityI) auto

lemma ring_slice_wrap:
  "r \<le> c \<Longrightarrow> c \<le> r + n \<Longrightarrow> n \<le> c \<Longrightarrow>
   ring_slice m c r n = mslice m r (c - r) @ mslice m 0 (r + n - c)"
proof (rule nth_equalityI)
  fix i
  assume *: "r \<le> c" "c \<le> r + n" "n \<le> c" "i < length (ring_slice m c r n)"
  then have "(r + i) mod c = r + i - c" if "c \<le> r + i"
    using that by (cases "r + i < 2 * c") (auto simp: le_mod_geq mod_if)
  with * show "ring_slice m c r n ! i = (mslice m r (c - r) @ mslice m 0 (r + n - c)) ! i"
    by (auto simp: nth_append not_less add.commute)
qed auto

lemma mod_add_cancel_less:
  fixes r i j c :: nat
  assumes "(r + i) mod c = (r + j) mod c" and "i < c" and "j < c"
  shows "i = j"
proof -
  have *: "j \<le> i" if "(r + i) mod c = (r + j) mod c" "i < c" "j < c" for i j :: nat
  proof (rule ccontr)
    assume "\<not> j \<le> i"
    then have "c dvd (r + j) - (r + i)"
      using that(1) by (subst mod_eq_dvd_iff_nat [symmetric]) auto
    with \<open>\<not> j \<le> i\<close> \<open>j < c\<close> show False by (auto dest: dvd_imp_le)
  qed
  from *[of i j] *[of j i] assms show ?thesis by simp
qed

text \<open>
  What the two forms of the copy in \<open>write\<close> do to the cells: byte \<open>i\<close> lands in cell
  \<open>(w + i) mod c\<close>, and no other cell changes.
\<close>

definition ring_written :: "mem \<Rightarrow> mem \<Rightarrow> nat \<Rightarrow> nat \<Rightarrow> u8 list \<Rightarrow> bool" where
  "ring_written m m' c w xs \<longleftrightarrow>
     (\<forall>i<length xs. m' ((w + i) mod c) = xs ! i) \<and>
     (\<forall>a<c. (\<forall>i<length xs. a \<noteq> (w + i) mod c) \<longrightarrow> m' a = m a)"

lemma ring_written_linear:
  "w + length xs \<le> c \<Longrightarrow> ring_written m (put m w xs) c w xs"
proof -
  assume le: "w + length xs \<le> c"
  have "put m w xs a = m a" if "\<forall>i<length xs. a \<noteq> (w + i) mod c" for a
  proof (rule ccontr)
    assume "put m w xs a \<noteq> m a"
    then have "w \<le> a" "a < w + length xs" by (auto simp: put_def split: if_splits)
    then have "a - w < length xs" "(w + (a - w)) mod c = a" using le by simp_all
    with that show False by metis
  qed
  with le show ?thesis by (auto simp: ring_written_def put_def)
qed

lemma ring_written_wrap:
  assumes "w \<le> c" and "c - w \<le> length xs" and "length xs \<le> c"
  shows "ring_written m (put (put m w (take (c - w) xs)) 0 (drop (c - w) xs)) c w xs"
    (is "ring_written m ?m c w xs")
proof -
  have in_ring: "(w + i) mod c = (if i < c - w then w + i else i - (c - w))"
    if "i < length xs" for i
    using that assms by (auto simp: mod_if)
  have "?m a = m a" if a: "a < c" "\<forall>i<length xs. a \<noteq> (w + i) mod c" for a
  proof (rule ccontr)
    assume ne: "?m a \<noteq> m a"
    show False
    proof (cases "a < length xs - (c - w)")
      case True
      then have lt: "a + (c - w) < length xs" by simp
      with in_ring [OF lt] have "(w + (a + (c - w))) mod c = a" by simp
      with a(2) lt show False by metis
    next
      case False
      with ne have "w \<le> a" "a < w + min (length xs) (c - w)"
        by (auto simp: put_def split: if_splits)
      then have "a - w < length xs" "a - w < c - w" using assms(1) by auto
      with in_ring [of "a - w"] \<open>w \<le> a\<close> have "(w + (a - w)) mod c = a" by simp
      with a(2) \<open>a - w < length xs\<close> show False by metis
    qed
  qed
  moreover have "?m ((w + i) mod c) = xs ! i" if "i < length xs" for i
    using that assms by (auto simp: in_ring put_def nth_drop)
  ultimately show ?thesis by (simp add: ring_written_def)
qed

lemma ring_slice_append:
  assumes "ring_written m m' c w xs" and "w mod c = (r + n) mod c" and "n + length xs \<le> c" and "0 < c"
  shows "ring_slice m' c r (n + length xs) = ring_slice m c r n @ xs"
proof (rule nth_equalityI)
  fix i assume i: "i < length (ring_slice m' c r (n + length xs))"
  have cell: "(w + j) mod c = (r + (n + j)) mod c" for j
    using assms(2) by (metis add.assoc mod_add_left_eq)
  show "ring_slice m' c r (n + length xs) ! i = (ring_slice m c r n @ xs) ! i"
  proof (cases "i < n")
    case True
    have "(r + i) mod c \<noteq> (w + j) mod c" if "j < length xs" for j
      using mod_add_cancel_less [of r i c "n + j"] True that assms(3) by (auto simp: cell)
    with True assms i show ?thesis by (auto simp: ring_written_def nth_append)
  next
    case False
    with i have "i - n < length xs" by auto
    with assms(1) have "m' ((w + (i - n)) mod c) = xs ! (i - n)"
      unfolding ring_written_def by blast
    with False i cell [of "i - n"] show ?thesis by (simp add: nth_append)
  qed
qed simp

section \<open>The methods against the queue\<close>

lemma ring_used_le:
  "r \<le> c \<Longrightarrow> w \<le> c \<Longrightarrow> ring_used c r w \<le> c"
  by (auto simp: ring_used_def)

lemma ring_used_mod:
  "r \<le> c \<Longrightarrow> w \<le> c \<Longrightarrow> w mod c = (r + ring_used c r w) mod c"
  by (auto simp: ring_used_def)

lemma ring_used_0_iff: "r \<le> c \<Longrightarrow> w \<le> c \<Longrightarrow> ring_used c r w = 0 \<longleftrightarrow> r = w \<or> (r = c \<and> w = 0)"
  by (auto simp: ring_used_def)

text \<open>Advancing the write index by \<open>k\<close> and the read index by \<open>k\<close>.\<close>

definition advance :: "nat \<Rightarrow> nat \<Rightarrow> nat \<Rightarrow> nat" where
  "advance c i k = (if k \<le> c - i then i + k else k - (c - i))"

lemma advance_le: "i \<le> c \<Longrightarrow> k \<le> c \<Longrightarrow> advance c i k \<le> c"
  by (auto simp: advance_def)

lemma advance_mod: "i \<le> c \<Longrightarrow> advance c i k mod c = (i + k) mod c"
  using le_mod_geq [of c "i + k"] by (auto simp: advance_def add.commute)

lemma ring_used_advance_write:
  "r \<le> c \<Longrightarrow> w \<le> c \<Longrightarrow> ring_used c r w + k + 2 \<le> c \<Longrightarrow>
   ring_used c r (advance c w k) = ring_used c r w + k"
  by (auto simp: advance_def ring_used_def split: if_splits)

lemma ring_used_advance_read:
  "r \<le> c \<Longrightarrow> w \<le> c \<Longrightarrow> k \<le> ring_used c r w \<Longrightarrow> ring_used c r w < c \<Longrightarrow>
   ring_used c (advance c r k) w = ring_used c r w - k"
  by (auto simp: advance_def ring_used_def split: if_splits)

lemma unat_calcSize:
  assumes "unat r \<le> unat (mCapacity q)" and "unat w \<le> unat (mCapacity q)"
  shows "unat (calcSize q r w) = ring_used (unat (mCapacity q)) (unat r) (unat w)"
proof (cases "r \<le> w")
  case True
  then show ?thesis by (simp add: calcSize_def ring_used_def word_nat)
next
  case False
  then have "unat (r - w) = unat r - unat w" by (simp add: unat_sub_le)
  moreover have eq: "w + mCapacity q - r = mCapacity q - (r - w)" by simp
  ultimately have "unat (w + mCapacity q - r) = unat (mCapacity q) - (unat r - unat w)"
    unfolding eq using assms by (subst unat_sub_le) (auto simp: word_le_nat_alt)
  with False assms show ?thesis by (simp add: calcSize_def ring_used_def word_le_nat_alt)
qed

lemma ring_inv_nat:
  assumes "ring_inv q sh"
  shows "mAttached q" "0 < unat (mCapacity q)" "blk_size (mBaseMemory sh) = unat (mCapacity q)"
    "unat (mReadIndex sh) \<le> unat (mCapacity q)" "unat (mWriteIndex sh) \<le> unat (mCapacity q)"
    "unat (calcSize q (mReadIndex sh) (mWriteIndex sh)) =
       ring_used (unat (mCapacity q)) (unat (mReadIndex sh)) (unat (mWriteIndex sh))"
    "ring_used (unat (mCapacity q)) (unat (mReadIndex sh)) (unat (mWriteIndex sh)) = 0 \<or>
     ring_used (unat (mCapacity q)) (unat (mReadIndex sh)) (unat (mWriteIndex sh)) + 2
       \<le> unat (mCapacity q)"
  using assms by (auto simp: ring_inv_def Let_def unat_calcSize ring_used_def)

lemma length_ring_contents [simp]:
  "length (ring_contents q sh) =
     ring_used (unat (mCapacity q)) (unat (mReadIndex sh)) (unat (mWriteIndex sh))"
  by (simp add: ring_contents_def)

lemma spsc_size_spec:
  "ring_inv q sh \<Longrightarrow> \<exists>n. spsc_size q sh = Inr n \<and> unat n = length (ring_contents q sh)"
  by (simp add: spsc_size_def ring_inv_nat)

text \<open>What \<open>capacity\<close> answers, and how much \<open>write\<close> really takes: one byte less.\<close>

lemma spsc_capacity_spec:
  assumes "ring_inv q sh"
  shows "\<exists>n. spsc_capacity q sh = Inr n \<and>
             unat n = unat (mCapacity q) - length (ring_contents q sh) - 1"
proof -
  note nat = ring_inv_nat [OF assms]
  have "unat (mCapacity q - calcSize q (mReadIndex sh) (mWriteIndex sh))
        = unat (mCapacity q) - length (ring_contents q sh)"
    using nat by (subst unat_sub_le) (auto simp: word_le_nat_alt)
  then show ?thesis
    using nat(1) unat_sub_le [of 1 "mCapacity q - calcSize q (mReadIndex sh) (mWriteIndex sh)"]
    by (auto simp: spsc_capacity_def spsc_size_def Let_def word_le_nat_alt)
qed

definition write_count :: "spsc \<Rightarrow> shared_header \<Rightarrow> u32 \<Rightarrow> nat" where
  "write_count q sh n = min (unat n) (unat (mCapacity q) - length (ring_contents q sh) - 2)"

text \<open>The index and memory update of a write of \<open>k\<close> bytes, both branches.\<close>

lemma write_copy:
  assumes inv: "ring_inv q sh" and rd: "blk_read p (unat k) = Inr xs"
    and k: "unat k + 2 \<le> unat (mCapacity q)"
  defines "c \<equiv> unat (mCapacity q)" and "w \<equiv> unat (mWriteIndex sh)"
  shows "\<exists>m' w'. spsc_write_copy q sh p k
      = Inr (k, sh\<lparr>mBaseMemory := (mBaseMemory sh)\<lparr>blk_mem := m'\<rparr>, mWriteIndex := w'\<rparr>)
      \<and> unat w' = advance c w (unat k) \<and> ring_written (blk_mem (mBaseMemory sh)) m' c w xs"
proof -
  note nat = ring_inv_nat [OF inv]
  have len: "length xs = unat k" and xs: "xs = mslice (blk_mem (fst p)) (snd p) (unat k)"
    and psz: "snd p + unat k \<le> blk_size (fst p)"
    using rd by (auto simp: blk_read_def split: if_splits)
  let ?top = "mCapacity q - mWriteIndex sh"
  have top: "unat ?top = c - w" using nat by (simp add: c_def w_def unat_sub_le word_le_nat_alt)
  show ?thesis
  proof (cases "k \<le> ?top")
    case True
    then have le: "w + unat k \<le> c" using top nat by (simp add: word_le_nat_alt c_def w_def)
    then have "unat k \<le> c - w" by simp
    with le have "unat (mWriteIndex sh + k) = advance c w (unat k)"
      using unat_add_u32 [of "mWriteIndex sh" k] unat_u32_less [of "mCapacity q"]
      by (simp add: c_def w_def advance_def)
    moreover have "memcpy (mBaseMemory sh, unat (mWriteIndex sh)) p (unat k)
        = Inr ((mBaseMemory sh)\<lparr>blk_mem := put (blk_mem (mBaseMemory sh)) w xs\<rparr>)"
      using le nat psz memcpy_Inr [of "snd p" "unat k" "fst p" w "mBaseMemory sh"]
      by (simp add: c_def w_def xs)
    ultimately show ?thesis
      using True ring_written_linear [of w xs c] le len by (auto simp: spsc_write_copy_def Let_def)
  next
    case False
    then have lt: "c - w < unat k" using top by (simp add: word_le_nat_alt)
    have rem: "unat (k - ?top) = unat k - (c - w)" using False top by (simp add: unat_sub_le)
    then have r0: "k - ?top \<noteq> 0" using lt by (metis unat_0 zero_less_diff less_numeral_extra(3))
    have "unat (k - ?top) = advance c w (unat k)" using rem lt by (simp add: advance_def)
    moreover have "(if ?top \<noteq> 0 then memcpy (mBaseMemory sh, unat (mWriteIndex sh)) p (unat ?top)
          else Inr (mBaseMemory sh))
        = Inr ((mBaseMemory sh)\<lparr>blk_mem := put (blk_mem (mBaseMemory sh)) w (take (c - w) xs)\<rparr>)"
      using lt top nat psz memcpy_Inr [of "snd p" "c - w" "fst p" w "mBaseMemory sh"]
      by (auto simp: c_def w_def xs mem_simps simp flip: unat_eq_zero)
    moreover have "memcpy ((mBaseMemory sh)\<lparr>blk_mem := put (blk_mem (mBaseMemory sh)) w (take (c - w) xs)\<rparr>, 0)
           (fst p, snd p + unat ?top) (unat (k - ?top))
        = Inr ((mBaseMemory sh)\<lparr>blk_mem := put (put (blk_mem (mBaseMemory sh)) w (take (c - w) xs)) 0
                 (drop (c - w) xs)\<rparr>)"
      using lt top rem nat psz k by (subst memcpy_Inr) (auto simp: c_def xs mem_simps)
    moreover have "ring_written (blk_mem (mBaseMemory sh))
        (put (put (blk_mem (mBaseMemory sh)) w (take (c - w) xs)) 0 (drop (c - w) xs)) c w xs"
      using lt len k nat by (intro ring_written_wrap) (auto simp: c_def w_def)
    ultimately show ?thesis using False r0 by (auto simp: spsc_write_copy_def Let_def)
  qed
qed

lemma blk_read_take: "blk_read p n = Inr xs \<Longrightarrow> k \<le> n \<Longrightarrow> blk_read p k = Inr (take k xs)"
  by (auto simp: blk_read_def mem_simps split: if_splits)

text \<open>\<open>write\<close> appends as many bytes as it reports, and keeps the invariant.\<close>

lemma spsc_write_spec:
  assumes inv: "ring_inv q sh" and wr: "mIsWriter q" and rd: "blk_read p (unat n) = Inr xs"
  shows "\<exists>k sh'. spsc_write q sh p n = Inr (k, sh') \<and> unat k = write_count q sh n
           \<and> ring_inv q sh' \<and> mReadIndex sh' = mReadIndex sh
           \<and> mSequenceNumber sh' = mSequenceNumber sh \<and> mVersionNumber sh' = mVersionNumber sh
           \<and> mBufferSize sh' = mBufferSize sh
           \<and> ring_contents q sh' = ring_contents q sh @ take (unat k) xs"
proof -
  note nat = ring_inv_nat [OF inv]
  obtain cap where cap: "spsc_capacity q sh = Inr cap"
    "unat cap = unat (mCapacity q) - length (ring_contents q sh) - 1"
    using spsc_capacity_spec [OF inv] by blast
  show ?thesis
  proof (cases "cap = 0")
    case True
    with cap have "unat (mCapacity q) - length (ring_contents q sh) - 1 = 0" by simp
    with True cap wr inv show ?thesis by (simp add: spsc_write_def write_count_def)
  next
    case False
    define k where "k = (if cap - 1 < n then cap - 1 else n)"
    have "unat (cap - 1) = unat cap - 1"
      using False by (simp add: unat_sub_le word_le_nat_alt unat_gt_0 Suc_leI)
    with cap have k: "unat k = write_count q sh n"
      by (auto simp: k_def write_count_def word_less_nat_alt)
    have pos: "1 \<le> unat (mCapacity q) - length (ring_contents q sh) - 1"
      using cap(2) False by (metis Suc_leI One_nat_def unat_gt_0)
    have kn: "unat k \<le> unat n" and room: "length (ring_contents q sh) + unat k + 2 \<le> unat (mCapacity q)"
      using k pos by (auto simp: write_count_def)
    then obtain m' w' where wc: "spsc_write q sh p n = Inr (k,
          sh\<lparr>mBaseMemory := (mBaseMemory sh)\<lparr>blk_mem := m'\<rparr>, mWriteIndex := w'\<rparr>)"
      and w': "unat w' = advance (unat (mCapacity q)) (unat (mWriteIndex sh)) (unat k)"
      and m': "ring_written (blk_mem (mBaseMemory sh)) m' (unat (mCapacity q))
                 (unat (mWriteIndex sh)) (take (unat k) xs)"
      using write_copy [OF inv blk_read_take [OF rd kn]] wr cap(1) False
      by (auto simp: spsc_write_def Let_def k_def [symmetric])
    have used: "ring_used (unat (mCapacity q)) (unat (mReadIndex sh)) (unat w')
        = length (ring_contents q sh) + unat k"
      using ring_used_advance_write nat room w' by simp
    have len: "length (take (unat k) xs) = unat k"
      using rd kn by (auto simp: blk_read_def split: if_splits)
    have "ring_contents q (sh\<lparr>mBaseMemory := (mBaseMemory sh)\<lparr>blk_mem := m'\<rparr>, mWriteIndex := w'\<rparr>)
        = ring_contents q sh @ take (unat k) xs"
      using ring_slice_append [OF m' ring_used_mod [OF nat(4,5)]] room nat used len
      by (simp add: ring_contents_def)
    moreover have "ring_inv q (sh\<lparr>mBaseMemory := (mBaseMemory sh)\<lparr>blk_mem := m'\<rparr>, mWriteIndex := w'\<rparr>)"
      using nat room used w' advance_le [of "unat (mWriteIndex sh)" "unat (mCapacity q)" "unat k"]
      by (simp add: ring_inv_def Let_def)
    ultimately show ?thesis using wc k by auto
  qed
qed

text \<open>\<open>read\<close> returns the oldest bytes, as many as asked for or as there are.\<close>

lemma spsc_read_spec:
  assumes inv: "ring_inv q sh" and rd: "\<not> mIsWriter q"
  shows "\<exists>sh'. spsc_read q sh n = Inr (take (unat n) (ring_contents q sh), sh')
           \<and> ring_inv q sh' \<and> sh' = sh\<lparr>mReadIndex := mReadIndex sh'\<rparr>
           \<and> ring_contents q sh' = drop (unat n) (ring_contents q sh)"
proof -
  note nat = ring_inv_nat [OF inv]
  define c r w where "c = unat (mCapacity q)" and "r = unat (mReadIndex sh)"
    and "w = unat (mWriteIndex sh)"
  note crw = c_def [symmetric] r_def [symmetric] w_def [symmetric]
  define sz where "sz = calcSize q (mReadIndex sh) (mWriteIndex sh)"
  define len where "len = (if sz > n then n else sz)"
  have sz: "unat sz = ring_used c r w" using nat by (simp add: sz_def crw)
  then have len: "unat len = min (unat n) (ring_used c r w)"
    by (auto simp: len_def word_less_nat_alt)
  let ?m = "blk_mem (mBaseMemory sh)"
  have cont: "ring_contents q sh = ring_slice ?m c r (ring_used c r w)"
    by (simp add: ring_contents_def crw)
  show ?thesis
  proof (cases "len = 0")
    case True
    then have "min (unat n) (ring_used c r w) = 0" using len by simp
    then have "n = 0 \<or> ring_contents q sh = []"
      by (auto simp: cont min_def ring_slice_def unat_eq_0 split: if_splits)
    with True rd inv nat show ?thesis
      by (auto simp: spsc_read_def spsc_size_def Let_def sz_def [symmetric] len_def [symmetric])
  next
    case False
    then have pos: "0 < unat len" by (simp add: unat_gt_0)
    with len nat have lt: "ring_used c r w + 2 \<le> c" by (auto simp: crw)
    let ?top = "mCapacity q - mReadIndex sh"
    have top: "unat ?top = c - r" using nat by (simp add: crw unat_sub_le word_le_nat_alt)
    have le: "unat len \<le> ring_used c r w" "r \<le> c" "w \<le> c" using len nat by (auto simp: crw)
    have bytes: "ring_slice ?m c r (unat len) = take (unat n) (ring_contents q sh)"
      by (simp add: cont len take_ring_slice)
    have rc: "spsc_read q sh n = spsc_read_copy q sh len"
      using False rd nat
      by (simp add: spsc_read_def spsc_size_def Let_def sz_def [symmetric] len_def [symmetric])
    have "\<exists>r'. spsc_read q sh n = Inr (ring_slice ?m c r (unat len), sh\<lparr>mReadIndex := r'\<rparr>)
            \<and> unat r' = advance c r (unat len)"
    proof (cases "len \<le> ?top")
      case True
      then have t: "unat len \<le> c - r" "r + unat len \<le> c" using top le by (auto simp: word_le_nat_alt)
      then have "unat (mReadIndex sh + len) = advance c r (unat len)"
        using unat_add_u32 [of "mReadIndex sh" len] unat_u32_less [of "mCapacity q"]
        by (simp add: crw advance_def)
      moreover have "blk_read (mBaseMemory sh, r) (unat len) = Inr (ring_slice ?m c r (unat len))"
        using t nat by (simp add: blk_read_def ring_slice_linear crw)
      ultimately show ?thesis using True
        by (auto simp: rc spsc_read_copy_def Let_def crw intro!: exI [of _ "mReadIndex sh + len"])
    next
      case wrap: False
      then have t: "c - r < unat len" using top by (simp add: word_le_nat_alt)
      have rem: "unat (len - ?top) = unat len - (c - r)" using wrap top by (simp add: unat_sub_le)
      then have r0: "len - ?top \<noteq> 0" using t by (metis unat_0 zero_less_diff less_numeral_extra(3))
      have "(if ?top \<noteq> 0 then blk_read (mBaseMemory sh, unat (mReadIndex sh)) (unat ?top) else Inr [])
          = Inr (mslice ?m r (c - r))"
        using top le nat by (auto simp: blk_read_def crw simp flip: unat_eq_zero)
      moreover have "blk_read (mBaseMemory sh, 0) (unat (len - ?top)) = Inr (mslice ?m 0 (r + unat len - c))"
        using rem t le lt nat by (auto simp: blk_read_def crw add.commute)
      moreover have "ring_slice ?m c r (unat len) = mslice ?m r (c - r) @ mslice ?m 0 (r + unat len - c)"
        using t le lt by (intro ring_slice_wrap) auto
      ultimately show ?thesis using wrap r0 rem t
        by (auto simp: rc spsc_read_copy_def Let_def advance_def)
    qed
    then obtain r' where r': "spsc_read q sh n = Inr (take (unat n) (ring_contents q sh), sh\<lparr>mReadIndex := r'\<rparr>)"
      "unat r' = advance c r (unat len)" using bytes by auto
    have used: "ring_used c (unat r') w = ring_used c r w - unat len"
      using le lt by (simp add: r' ring_used_advance_read)
    have "ring_contents q (sh\<lparr>mReadIndex := r'\<rparr>) = ring_slice ?m c (r + unat len) (ring_used c r w - unat len)"
      using used le advance_mod [of r c "unat len"]
      by (simp add: ring_contents_def crw r'(2)) (metis ring_slice_mod)
    also have "\<dots> = drop (unat n) (ring_contents q sh)"
      by (cases "unat n \<le> ring_used c r w") (simp_all add: cont len drop_ring_slice)
    finally have "ring_contents q (sh\<lparr>mReadIndex := r'\<rparr>) = drop (unat n) (ring_contents q sh)" .
    moreover have "ring_used c r w - unat len + 2 \<le> c" using lt by simp
    then have "ring_inv q (sh\<lparr>mReadIndex := r'\<rparr>)"
      using nat used le lt advance_le [of r c "unat len"] by (simp add: ring_inv_def Let_def crw r'(2))
    ultimately show ?thesis using r'(1) by auto
  qed
qed

section \<open>The writer and the reader as one byte queue\<close>

text \<open>The two objects attached to one ring of \<open>cap\<close> bytes, and their calls on byte lists.\<close>

definition ring_writer :: "u32 \<Rightarrow> spsc" where
  "ring_writer cap = \<lparr>mAttached = True, mCapacity = cap, mIsWriter = True\<rparr>"

definition ring_reader :: "u32 \<Rightarrow> spsc" where
  "ring_reader cap = \<lparr>mAttached = True, mCapacity = cap, mIsWriter = False\<rparr>"

definition ring_push :: "u32 \<Rightarrow> shared_header \<Rightarrow> u8 list \<Rightarrow> (nat \<times> shared_header) result" where
  "ring_push cap sh xs =
     ebind (spsc_write (ring_writer cap) sh (bytes_ptr xs) (word_of_nat (length xs)))
       (\<lambda>(k, sh). Inr (unat k, sh))"

definition ring_pop :: "u32 \<Rightarrow> shared_header \<Rightarrow> nat \<Rightarrow> (u8 list \<times> shared_header) result" where
  "ring_pop cap sh n = spsc_read (ring_reader cap) sh (word_of_nat n)"

lemma ring_inv_reader [simp]: "ring_inv (ring_reader cap) sh = ring_inv (ring_writer cap) sh"
  by (simp add: ring_inv_def ring_reader_def ring_writer_def)

lemma ring_contents_reader [simp]:
  "ring_contents (ring_reader cap) sh = ring_contents (ring_writer cap) sh"
  by (simp add: ring_contents_def ring_reader_def ring_writer_def)

lemma ring_push_spec:
  assumes "ring_inv (ring_writer cap) sh" and "length xs < 2 ^ 32"
  shows "\<exists>k sh'. ring_push cap sh xs = Inr (k, sh') \<and> ring_inv (ring_writer cap) sh' \<and> k \<le> length xs
           \<and> ring_contents (ring_writer cap) sh' = ring_contents (ring_writer cap) sh @ take k xs"
proof -
  have "mIsWriter (ring_writer cap)" by (simp add: ring_writer_def)
  with spsc_write_spec [OF assms(1) this, of "bytes_ptr xs" "word_of_nat (length xs)" xs] assms(2)
  show ?thesis by (fastforce simp: ring_push_def write_count_def)
qed

lemma ring_pop_spec:
  assumes "ring_inv (ring_writer cap) sh" and "n < 2 ^ 32"
  shows "\<exists>sh'. ring_pop cap sh n = Inr (take n (ring_contents (ring_writer cap) sh), sh')
           \<and> ring_inv (ring_writer cap) sh'
           \<and> ring_contents (ring_writer cap) sh' = drop n (ring_contents (ring_writer cap) sh)"
proof -
  have "\<not> mIsWriter (ring_reader cap)" by (simp add: ring_reader_def)
  with spsc_read_spec [of "ring_reader cap" sh "word_of_nat n"] assms
  show ?thesis by (auto simp: ring_pop_def)
qed

interpretation ring_fifo: total_byte_fifo "ring_inv (ring_writer cap)"
  "ring_contents (ring_writer cap)" "ring_push cap" "ring_pop cap" "2 ^ 32" for cap
proof (unfold_locales, goal_cases)
  case (1 q xs k q')
  with ring_push_spec [OF 1(1,2)] show ?case by auto
next
  case (2 q n ys q')
  with ring_pop_spec [OF 2(1,2)] show ?case by auto
next
  case (3 q xs)
  with ring_push_spec [OF 3(1,2)] show ?case by auto
next
  case (4 q n)
  with ring_pop_spec [OF 4(1,2)] show ?case by auto
qed

section \<open>Properties\<close>

text \<open>C9. The two ends of a ring form a reliable byte stream: every sequence of writes and reads runs
  without a fault, and the bytes that come out are the bytes the writes accepted, in order, with those still
  in the ring.\<close>
theorem ring_stream:
  assumes "ring_inv (ring_writer cap) sh" and "ops_below (2 ^ 32) ops"
  shows "\<exists>inn out sh'. fifo_run (ring_push cap) (ring_pop cap) sh ops = Inr (inn, out, sh')
    \<and> ring_inv (ring_writer cap) sh'
    \<and> ring_contents (ring_writer cap) sh @ inn = out @ ring_contents (ring_writer cap) sh'"
  by (rule ring_fifo.run_total_stream [OF assms])

text \<open>A ring of eight bytes, with three bytes in it that wrap around its end.\<close>

definition small_ring :: shared_header where
  "small_ring =
     \<lparr>mVersionNumber = 100, mBufferSize = 40, mReadIndex = 6, mWriteIndex = 1, mSequenceNumber = 0,
      mBaseMemory = \<lparr>blk_addr = 0, blk_size = 8, blk_mem = word_of_nat\<rparr>\<rparr>"

lemma ring_inv_small: "ring_inv (ring_writer 8) small_ring" "ring_inv (ring_reader 8) small_ring"
  by (simp_all add: ring_inv_def small_ring_def ring_writer_def ring_reader_def ring_used_def)

lemma ring_contents_small:
  "ring_contents (ring_writer 8) small_ring = [6, 7, 0]" "ring_contents (ring_reader 8) small_ring = [6, 7, 0]"
  by (simp_all add: ring_contents_def small_ring_def ring_writer_def ring_reader_def ring_used_def
      ring_slice_def upt_rec)

lemma ring_object_simps [simp]:
  "mIsWriter (ring_writer cap)" "\<not> mIsWriter (ring_reader cap)"
  "mCapacity (ring_writer cap) = cap" "mCapacity (ring_reader cap) = cap"
  by (simp_all add: ring_writer_def ring_reader_def)

lemma ring_used_small: "ring_used 8 (unat (mReadIndex small_ring)) (unat (mWriteIndex small_ring)) = 3"
  by (simp add: small_ring_def ring_used_def)

lemma ring_stream_witness:
  "\<exists>inn out sh'. fifo_run (ring_push 8) (ring_pop 8) small_ring [Pop 2, Push [1, 2, 3], Pop 9] = Inr (inn, out, sh')
    \<and> [6, 7, 0] @ inn = out @ ring_contents (ring_writer 8) sh'"
  using ring_stream [OF ring_inv_small(1), of "[Pop 2, Push [1, 2, 3], Pop 9]"]
  by (auto simp: ring_contents_small ops_below_def)

text \<open>\<open>write\<close> takes a prefix of the bytes, as many as fit below the two free bytes it keeps, appends
  it to the contents and leaves the reader's index alone.\<close>
theorem spsc_write_appends:
  assumes "ring_inv q sh" and "mIsWriter q" and "blk_read p (unat n) = Inr xs"
  shows "\<exists>k sh'. spsc_write q sh p n = Inr (k, sh')
    \<and> unat k = min (unat n) (unat (mCapacity q) - length (ring_contents q sh) - 2)
    \<and> ring_inv q sh' \<and> mReadIndex sh' = mReadIndex sh
    \<and> ring_contents q sh' = ring_contents q sh @ take (unat k) xs"
  using spsc_write_spec [OF assms] by (auto simp: write_count_def)

lemma spsc_write_appends_witness:
  "\<exists>k sh'. spsc_write (ring_writer 8) small_ring (bytes_ptr [1, 2, 3, 4]) 4 = Inr (k, sh') \<and> unat k = 3
     \<and> ring_contents (ring_writer 8) sh' = [6, 7, 0, 1, 2, 3]"
  using spsc_write_appends [OF ring_inv_small(1), of "bytes_ptr [1, 2, 3, 4]" 4 "[1, 2, 3, 4]"]
  by (auto simp: ring_contents_small ring_used_small)

text \<open>\<open>read\<close> delivers the oldest bytes, as many as asked for or as there are, and only moves the
  reader's index.\<close>
theorem spsc_read_takes_oldest:
  assumes "ring_inv q sh" and "\<not> mIsWriter q"
  shows "\<exists>sh'. spsc_read q sh n = Inr (take (unat n) (ring_contents q sh), sh')
    \<and> ring_inv q sh' \<and> sh' = sh\<lparr>mReadIndex := mReadIndex sh'\<rparr>
    \<and> ring_contents q sh' = drop (unat n) (ring_contents q sh)"
  by (rule spsc_read_spec [OF assms])

lemma spsc_read_takes_oldest_witness:
  "\<exists>sh'. spsc_read (ring_reader 8) small_ring 2 = Inr ([6, 7], sh') \<and> ring_contents (ring_reader 8) sh' = [0]"
  using spsc_read_takes_oldest [OF ring_inv_small(2), of 2]
  by (auto simp: ring_contents_small)

text \<open>\<open>capacity\<close> promises one byte more than \<open>write\<close> accepts: a write of exactly the bytes \<open>capacity\<close>
  reports as free is cut short by one.\<close>
theorem capacity_overstates_by_one:
  assumes "ring_inv q sh" and "mIsWriter q" and "spsc_capacity q sh = Inr c" and "0 < c"
    and "blk_read p (unat c) = Inr xs"
  shows "\<exists>k sh'. spsc_write q sh p c = Inr (k, sh') \<and> unat k = unat c - 1"
proof -
  from spsc_capacity_spec [OF assms(1)] assms(3)
  have "unat c = unat (mCapacity q) - length (ring_contents q sh) - 1" by auto
  with spsc_write_spec [OF assms(1,2,5)] show ?thesis by (auto simp: write_count_def)
qed

lemma capacity_overstates_witness:
  "spsc_capacity (ring_writer 8) small_ring = Inr 4 \<and>
   (\<exists>k sh'. spsc_write (ring_writer 8) small_ring (bytes_ptr [1, 2, 3, 4]) 4 = Inr (k, sh') \<and> unat k = 3)"
proof -
  have c: "spsc_capacity (ring_writer 8) small_ring = Inr 4"
    by (simp add: spsc_capacity_def spsc_size_def calcSize_def small_ring_def ring_writer_def word_le_nat_alt)
  from capacity_overstates_by_one [OF ring_inv_small(1) _ c, of "bytes_ptr [1, 2, 3, 4]" "[1, 2, 3, 4]"] c
  show ?thesis by simp
qed

text \<open>Attaching: the server's \<open>init\<close> makes an empty ring; a client attaches to it exactly when it
  maps the same number of bytes, and otherwise is left detached with \<open>false\<close>.\<close>
theorem spsc_init_client:
  assumes "sizeof_header < maxLen" and "blk_size (mBaseMemory sh) = unat (maxLen - sizeof_header)"
    and "spsc_init spsc_new sh maxLen w True = (ok, q, sh')"
    and "sizeof_header < maxLen2" and "spsc_init spsc_new sh' maxLen2 w2 False = (ok2, q2, sh2)"
  shows "ok \<and> ring_inv q sh' \<and> ring_contents q sh' = [] \<and> sh2 = sh'
    \<and> ok2 = (maxLen2 = maxLen) \<and> mAttached q2 = ok2
    \<and> (ok2 \<longrightarrow> ring_inv q2 sh' \<and> ring_contents q2 sh' = [])"
proof -
  have pos: "0 < unat (maxLen - sizeof_header)"
    using assms(1) by (simp add: unat_gt_0)
  have sh': "ok" "q = \<lparr>mAttached = True, mCapacity = maxLen - sizeof_header, mIsWriter = w\<rparr>"
    "sh' = sh\<lparr>mVersionNumber := cSharedMemoryVersion, mBufferSize := maxLen, mWriteIndex := 0,
              mReadIndex := 0, mSequenceNumber := 0\<rparr>"
    using assms(1,3) by (auto simp: spsc_init_def spsc_new_def Let_def)
  have c2: "sh2 = sh'" "ok2 = (maxLen2 = maxLen)" "mAttached q2 = ok2"
    "ok2 \<longrightarrow> q2 = \<lparr>mAttached = True, mCapacity = maxLen - sizeof_header, mIsWriter = w2\<rparr>"
    using assms(4,5) sh'(3) by (auto simp: spsc_init_def spsc_new_def Let_def split: if_splits)
  with sh' pos assms(2) show ?thesis
    by (auto simp: ring_inv_def Let_def ring_contents_def ring_used_def)
qed

lemma spsc_init_client_witness:
  "fst (spsc_init spsc_new (snd (snd (spsc_init spsc_new small_ring 40 True True))) 40 False False)
   \<and> \<not> fst (spsc_init spsc_new (snd (snd (spsc_init spsc_new small_ring 40 True True))) 44 False False)"
proof -
  obtain ok q sh' where i: "spsc_init spsc_new small_ring 40 True True = (ok, q, sh')" by (rule prod_cases3)
  have b: "sizeof_header < 40" "blk_size (mBaseMemory small_ring) = unat (40 - sizeof_header)" "sizeof_header < 44"
    by (simp_all add: sizeof_header_def small_ring_def)
  obtain o2 q2 s2 o3 q3 s3 where j: "spsc_init spsc_new sh' 40 False False = (o2, q2, s2)"
    "spsc_init spsc_new sh' 44 False False = (o3, q3, s3)" by (metis prod_cases3)
  from spsc_init_client [OF b(1,2) i b(1) j(1)] spsc_init_client [OF b(1,2) i b(3) j(2)]
  show ?thesis by (simp add: i j)
qed

end
