(* ===== verification/SPSC_Concurrent.thy ===== *)
theory SPSC_Concurrent
  imports SPSC
begin

text \<open>
  \<open>ext/easywsclient/SPSC.h\<close> with its two processes running at the same time: \<open>write\<close> and \<open>read\<close>
  as sequences of atomic steps (a load or a store of an index, the copy of one byte), interleaved
  in any order. Memory is sequentially consistent: what the relaxed stores of the source permit
  on a weakly ordered machine is not modelled.
\<close>

section \<open>The code\<close>

text \<open>
  Cell \<open>k\<close> of a copy that starts at an index, and the index behind a copy of \<open>n\<close> bytes: up to
  \<open>availTop\<close> bytes at the top of the ring, the remainder at its start.
\<close>

definition ring_cell :: "spsc \<Rightarrow> u32 \<Rightarrow> nat \<Rightarrow> nat" where
  "ring_cell q index k =
     (let availTop = unat (mCapacity q - index) in if k < availTop then unat index + k else k - availTop)"

definition ring_stop :: "spsc \<Rightarrow> u32 \<Rightarrow> u32 \<Rightarrow> u32" where
  "ring_stop q index n =
     (let availTop = mCapacity q - index in if n \<le> availTop then index + n else n - availTop)"

text \<open>
  Where a \<open>write\<close> stands: after the load of the write index in \<open>size\<close>, after the load of the read
  index (which decides \<open>dataLen\<close>), and in the copy after the second load of the write index.
\<close>

datatype writer =
    Write_idle
  | Write_size "u8 list" u32
  | Write_sized "u8 list" u32
  | Write_copy "u8 list" u32 nat

datatype reader =
    Read_idle
  | Read_size u32 u32
  | Read_sized u32
  | Read_copy u32 u32 "u8 list"

text \<open>A step is silent or completes a call, with the bytes it accepted or delivered.\<close>

datatype ring_event = Silent | Accepted "u8 list" | Delivered "u8 list"

definition write_room :: "spsc \<Rightarrow> u32 \<Rightarrow> u32 \<Rightarrow> u32" where
  "write_room q readIndex writeIndex =
     (let avail = mCapacity q - calcSize q readIndex writeIndex in if avail \<le> 1 then 0 else avail - 1)"

inductive write_step ::
  "spsc \<Rightarrow> shared_header \<times> writer \<Rightarrow> ring_event \<Rightarrow> shared_header \<times> writer \<Rightarrow> bool" for q where
  write_call: "mIsWriter q \<Longrightarrow> length data < 2 ^ 32 \<Longrightarrow>
    write_step q (sh, Write_idle) Silent (sh, Write_size data (mWriteIndex sh))"
| write_full: "write_room q (mReadIndex sh) w = 0 \<Longrightarrow>
    write_step q (sh, Write_size data w) (Accepted []) (sh, Write_idle)"
| write_sized: "avail = write_room q (mReadIndex sh) w \<Longrightarrow> avail \<noteq> 0 \<Longrightarrow>
    dataLen = (if avail - 1 < word_of_nat (length data) then avail - 1 else word_of_nat (length data)) \<Longrightarrow>
    write_step q (sh, Write_size data w) Silent (sh, Write_sized data dataLen)"
| write_begin:
    "write_step q (sh, Write_sized data n) Silent (sh, Write_copy (take (unat n) data) (mWriteIndex sh) 0)"
| write_byte: "i < length xs \<Longrightarrow> blk_write (mBaseMemory sh, ring_cell q w i) [xs ! i] = Inr blk \<Longrightarrow>
    write_step q (sh, Write_copy xs w i) Silent (sh\<lparr>mBaseMemory := blk\<rparr>, Write_copy xs w (Suc i))"
| write_store: "i = length xs \<Longrightarrow>
    write_step q (sh, Write_copy xs w i) (Accepted xs)
      (sh\<lparr>mWriteIndex := ring_stop q w (word_of_nat (length xs))\<rparr>, Write_idle)"

inductive read_step ::
  "spsc \<Rightarrow> shared_header \<times> reader \<Rightarrow> ring_event \<Rightarrow> shared_header \<times> reader \<Rightarrow> bool" for p where
  read_call: "\<not> mIsWriter p \<Longrightarrow>
    read_step p (sh, Read_idle) Silent (sh, Read_size maxLen (mWriteIndex sh))"
| read_empty: "len = calcSize p (mReadIndex sh) w \<Longrightarrow> (if len > maxLen then maxLen else len) = 0 \<Longrightarrow>
    read_step p (sh, Read_size maxLen w) (Delivered []) (sh, Read_idle)"
| read_sized: "len = calcSize p (mReadIndex sh) w \<Longrightarrow> n = (if len > maxLen then maxLen else len) \<Longrightarrow> n \<noteq> 0 \<Longrightarrow>
    read_step p (sh, Read_size maxLen w) Silent (sh, Read_sized n)"
| read_begin: "read_step p (sh, Read_sized n) Silent (sh, Read_copy n (mReadIndex sh) [])"
| read_byte: "length xs < unat n \<Longrightarrow> blk_read (mBaseMemory sh, ring_cell p r (length xs)) 1 = Inr ys \<Longrightarrow>
    read_step p (sh, Read_copy n r xs) Silent (sh, Read_copy n r (xs @ ys))"
| read_store: "length xs = unat n \<Longrightarrow>
    read_step p (sh, Read_copy n r xs) (Delivered xs) (sh\<lparr>mReadIndex := ring_stop p r n\<rparr>, Read_idle)"

text \<open>The interleavings: a step of either process, and runs with what they let through.\<close>

inductive ring_step ::
  "spsc \<Rightarrow> spsc \<Rightarrow> shared_header \<times> writer \<times> reader \<Rightarrow> ring_event \<Rightarrow> shared_header \<times> writer \<times> reader \<Rightarrow> bool"
  for q p where
  writer_moves: "write_step q (sh, a) e (sh', a') \<Longrightarrow> ring_step q p (sh, a, b) e (sh', a', b)"
| reader_moves: "read_step p (sh, b) e (sh', b') \<Longrightarrow> ring_step q p (sh, a, b) e (sh', a, b')"

inductive ring_run ::
  "spsc \<Rightarrow> spsc \<Rightarrow> shared_header \<times> writer \<times> reader \<Rightarrow> ring_event list \<Rightarrow> shared_header \<times> writer \<times> reader \<Rightarrow> bool"
  for q p s where
  ring_start: "ring_run q p s [] s"
| ring_next: "ring_run q p s es s' \<Longrightarrow> ring_step q p s' e s'' \<Longrightarrow> ring_run q p s (es @ [e]) s''"

inductive_cases write_stepE: "write_step q (sh, a) e (sh', a')"
inductive_cases read_stepE: "read_step p (sh, b) e (sh', b')"
inductive_cases ring_stepE: "ring_step q p (sh, a, b) e s"

lemmas write_cases = write_stepE [consumes 1, case_names call full sized ready byte store]
lemmas read_cases = read_stepE [consumes 1, case_names call empty sized ready byte store]

fun event_accepted :: "ring_event \<Rightarrow> u8 list" where
  "event_accepted (Accepted xs) = xs"
| "event_accepted _ = []"

fun event_delivered :: "ring_event \<Rightarrow> u8 list" where
  "event_delivered (Delivered xs) = xs"
| "event_delivered _ = []"

definition accepted :: "ring_event list \<Rightarrow> u8 list" where
  "accepted es = concat (map event_accepted es)"

definition delivered :: "ring_event list \<Rightarrow> u8 list" where
  "delivered es = concat (map event_delivered es)"

lemma accepted_simps [simp]:
  "accepted [] = []" "delivered [] = []"
  "accepted (es @ [e]) = accepted es @ event_accepted e" "delivered (es @ [e]) = delivered es @ event_delivered e"
  by (simp_all add: accepted_def delivered_def)

section \<open>The invariant of the interleavings\<close>

definition used_bytes :: "spsc \<Rightarrow> shared_header \<Rightarrow> nat" where
  "used_bytes q sh = length (ring_contents q sh)"

text \<open>
  A writer in its copy has room for all its bytes and has put the first \<open>i\<close> of them behind the
  write index; a reader knows a lower bound of what the ring holds and has the first of it.
\<close>

fun writer_ok :: "spsc \<Rightarrow> shared_header \<Rightarrow> writer \<Rightarrow> bool" where
  "writer_ok q sh Write_idle = True"
| "writer_ok q sh (Write_size data w) = (w = mWriteIndex sh \<and> length data < 2 ^ 32)"
| "writer_ok q sh (Write_sized data n) =
     (unat n \<le> length data \<and> (unat n = 0 \<or> used_bytes q sh + unat n + 2 \<le> unat (mCapacity q)))"
| "writer_ok q sh (Write_copy xs w i) =
     (w = mWriteIndex sh \<and> i \<le> length xs \<and> (xs = [] \<or> used_bytes q sh + length xs + 2 \<le> unat (mCapacity q)) \<and>
      (\<forall>j<i. blk_mem (mBaseMemory sh) ((unat w + j) mod unat (mCapacity q)) = xs ! j))"

fun reader_ok :: "spsc \<Rightarrow> shared_header \<Rightarrow> reader \<Rightarrow> bool" where
  "reader_ok p sh Read_idle = True"
| "reader_ok p sh (Read_size maxLen w) =
     (unat w \<le> unat (mCapacity p) \<and>
      ring_used (unat (mCapacity p)) (unat (mReadIndex sh)) (unat w) \<le> used_bytes p sh)"
| "reader_ok p sh (Read_sized n) = (n \<noteq> 0 \<and> unat n \<le> used_bytes p sh)"
| "reader_ok p sh (Read_copy n r xs) =
     (r = mReadIndex sh \<and> n \<noteq> 0 \<and> unat n \<le> used_bytes p sh \<and> length xs \<le> unat n \<and>
      xs = take (length xs) (ring_contents p sh))"

text \<open>Two objects attached to the same ring, one for each direction.\<close>

definition ring_pair :: "spsc \<Rightarrow> spsc \<Rightarrow> bool" where
  "ring_pair q p \<longleftrightarrow> mAttached q \<and> mAttached p \<and> mIsWriter q \<and> \<not> mIsWriter p \<and> mCapacity p = mCapacity q"

fun conc_inv :: "spsc \<Rightarrow> spsc \<Rightarrow> shared_header \<times> writer \<times> reader \<Rightarrow> bool" where
  "conc_inv q p (sh, a, b) = (ring_inv q sh \<and> writer_ok q sh a \<and> reader_ok p sh b)"

lemma ring_cell_mod:
  assumes "unat i \<le> unat (mCapacity q)" and "k < unat (mCapacity q)"
  shows "ring_cell q i k = (unat i + k) mod unat (mCapacity q)"
proof -
  have "unat (mCapacity q - i) = unat (mCapacity q) - unat i"
    using assms(1) by (simp add: unat_sub_le word_le_nat_alt)
  then show ?thesis using assms by (auto simp: ring_cell_def Let_def mod_if)
qed

lemma unat_ring_stop:
  assumes "unat i \<le> unat (mCapacity q)" and "unat n \<le> unat (mCapacity q)"
  shows "unat (ring_stop q i n) = advance (unat (mCapacity q)) (unat i) (unat n)"
proof -
  have top: "unat (mCapacity q - i) = unat (mCapacity q) - unat i"
    using assms(1) by (simp add: unat_sub_le word_le_nat_alt)
  have "unat (i + n) = unat i + unat n" if "unat n \<le> unat (mCapacity q) - unat i"
    using that assms(1) unat_u32_less [of "mCapacity q"] by (intro unat_add_u32) linarith
  moreover have "unat (n - (mCapacity q - i)) = unat n - (unat (mCapacity q) - unat i)"
    if "\<not> unat n \<le> unat (mCapacity q) - unat i"
    using that top by (subst unat_sub_le) (simp_all add: word_le_nat_alt)
  ultimately show ?thesis using top by (auto simp: ring_stop_def Let_def advance_def word_le_nat_alt)
qed

section \<open>The steps of the writer\<close>

lemma write_room_nat:
  assumes "ring_inv q sh" and "write_room q (mReadIndex sh) (mWriteIndex sh) \<noteq> 0"
  shows "used_bytes q sh + unat (write_room q (mReadIndex sh) (mWriteIndex sh)) + 1 = unat (mCapacity q)"
proof -
  note nat = ring_inv_nat [OF assms(1)]
  let ?a = "mCapacity q - calcSize q (mReadIndex sh) (mWriteIndex sh)"
  have a: "unat ?a = unat (mCapacity q) - used_bytes q sh"
    unfolding used_bytes_def using nat by (subst unat_sub_le) (auto simp: word_le_nat_alt)
  have gt: "1 < ?a" using assms(2) by (simp add: write_room_def Let_def not_le split: if_splits)
  then have "unat (?a - 1) = unat ?a - 1" by (simp add: unat_sub_le word_le_nat_alt word_less_nat_alt)
  moreover have "write_room q (mReadIndex sh) (mWriteIndex sh) = ?a - 1"
    using assms(2) by (simp add: write_room_def Let_def split: if_splits)
  moreover have "1 < unat ?a" using gt by (simp add: word_less_nat_alt)
  ultimately show ?thesis using a by simp
qed

text \<open>A byte stored in the free part of the ring changes neither the contents nor the bytes before it.\<close>

lemma byte_in_free_part:
  assumes inv: "ring_inv q sh" and room: "used_bytes q sh + n + 2 \<le> unat (mCapacity q)" and "i < n"
    and blk: "blk_write (mBaseMemory sh, ring_cell q (mWriteIndex sh) i) [x] = Inr blk"
  shows "ring_contents q (sh\<lparr>mBaseMemory := blk\<rparr>) = ring_contents q sh"
    "ring_inv q (sh\<lparr>mBaseMemory := blk\<rparr>)"
    "blk_mem blk ((unat (mWriteIndex sh) + i) mod unat (mCapacity q)) = x"
    "j < i \<Longrightarrow> blk_mem blk ((unat (mWriteIndex sh) + j) mod unat (mCapacity q)) =
       blk_mem (mBaseMemory sh) ((unat (mWriteIndex sh) + j) mod unat (mCapacity q))"
proof -
  note nat = ring_inv_nat [OF inv]
  define c r w where "c = unat (mCapacity q)" and "r = unat (mReadIndex sh)" and "w = unat (mWriteIndex sh)"
  define u where "u = ring_used c r w"
  have cell: "ring_cell q (mWriteIndex sh) i = (w + i) mod c"
    unfolding c_def w_def using nat room assms(3) by (intro ring_cell_mod) auto
  have u: "u + n + 2 \<le> c" "w mod c = (r + u) mod c" "0 < c"
    using room nat ring_used_mod [of r c w] by (auto simp: used_bytes_def c_def r_def w_def u_def)
  have lt: "(w + i) mod c < c" using u(3) by simp
  have blk': "blk = (mBaseMemory sh)\<lparr>blk_mem := put (blk_mem (mBaseMemory sh)) ((w + i) mod c) [x]\<rparr>"
    using blk by (auto simp: blk_write_def cell split: if_splits)
  have put: "blk_mem blk a = (if a = (w + i) mod c then x else blk_mem (mBaseMemory sh) a)" for a
    by (auto simp: blk' put_def)
  have at: "(w + j) mod c = (r + (u + j)) mod c" for j
    using u(2) by (metis add.assoc mod_add_left_eq)
  have "(r + k) mod c \<noteq> (w + i) mod c" if "k < u" for k
    using that u(1) assms(3) at [of i] mod_add_cancel_less [of r k c "u + i"] by auto
  then have "ring_slice (blk_mem blk) c r u = ring_slice (blk_mem (mBaseMemory sh)) c r u"
    by (intro nth_equalityI) (simp_all add: put)
  then show "ring_contents q (sh\<lparr>mBaseMemory := blk\<rparr>) = ring_contents q sh"
    by (simp add: ring_contents_def u_def c_def r_def w_def)
  show "ring_inv q (sh\<lparr>mBaseMemory := blk\<rparr>)" using inv by (simp add: ring_inv_def Let_def blk')
  show "blk_mem blk ((unat (mWriteIndex sh) + i) mod unat (mCapacity q)) = x"
    using put by (simp add: c_def w_def)
  show "blk_mem blk ((unat (mWriteIndex sh) + j) mod unat (mCapacity q)) =
       blk_mem (mBaseMemory sh) ((unat (mWriteIndex sh) + j) mod unat (mCapacity q))" if "j < i"
    using that u(1) assms(3) mod_add_cancel_less [of w j c i] put by (auto simp: c_def w_def)
qed

text \<open>Storing the write index publishes the copied bytes.\<close>

lemma publish:
  assumes inv: "ring_inv q sh" and room: "xs = [] \<or> used_bytes q sh + length xs + 2 \<le> unat (mCapacity q)"
    and copied: "\<forall>j<length xs. blk_mem (mBaseMemory sh) ((unat (mWriteIndex sh) + j) mod unat (mCapacity q)) = xs ! j"
  defines "sh' \<equiv> sh\<lparr>mWriteIndex := ring_stop q (mWriteIndex sh) (word_of_nat (length xs))\<rparr>"
  shows "ring_contents q sh' = ring_contents q sh @ xs" "ring_inv q sh'"
proof -
  note nat = ring_inv_nat [OF inv]
  let ?c = "unat (mCapacity q)" and ?r = "unat (mReadIndex sh)" and ?w = "unat (mWriteIndex sh)"
  let ?w' = "unat (ring_stop q (mWriteIndex sh) (word_of_nat (length xs)))"
  have len: "length xs \<le> ?c" using room by auto
  then have n: "unat (word_of_nat (length xs) :: u32) = length xs"
    using unat_u32_less [of "mCapacity q"] by (intro unat_of_nat_u32) linarith
  then have w': "?w' = advance ?c ?w (length xs)" using unat_ring_stop [of "mWriteIndex sh" q] nat len by simp
  have used: "ring_used ?c ?r ?w' = ring_used ?c ?r ?w + length xs"
  proof (cases "xs = []")
    case True
    then show ?thesis using w' nat by (simp add: advance_def)
  next
    case False
    then show ?thesis using room w' nat ring_used_advance_write by (simp add: used_bytes_def)
  qed
  have "ring_written (blk_mem (mBaseMemory sh)) (blk_mem (mBaseMemory sh)) ?c ?w xs"
    using copied by (simp add: ring_written_def)
  from ring_slice_append [OF this ring_used_mod [OF nat(4,5)]] room nat used
  show "ring_contents q sh' = ring_contents q sh @ xs"
    by (auto simp: sh'_def ring_contents_def used_bytes_def)
  have "?w' \<le> ?c" using w' nat len by (simp add: advance_le)
  moreover have "xs = [] \<Longrightarrow> ?w' = ?w" using w' by (simp add: advance_def)
  ultimately show "ring_inv q sh'" using nat inv used room
    by (auto simp: sh'_def ring_inv_def Let_def used_bytes_def)
qed

lemma reader_ok_grows:
  assumes "reader_ok p sh b" and "mReadIndex sh' = mReadIndex sh" and "ring_contents p sh' = ring_contents p sh @ xs"
  shows "reader_ok p sh' b"
  using assms by (cases b) (auto simp: used_bytes_def)

lemma ring_pair_contents: "ring_pair q p \<Longrightarrow> ring_contents p sh = ring_contents q sh"
  by (simp add: ring_pair_def ring_contents_def)

lemma write_step_inv:
  assumes "write_step q (sh, a) e (sh', a')" and "ring_pair q p" and "conc_inv q p (sh, a, b)"
  shows "conc_inv q p (sh', a', b)
    \<and> ring_contents q sh @ event_accepted e = ring_contents q sh' \<and> event_delivered e = []"
  using assms(1)
proof (cases rule: write_cases)
  case (sized w data)
  let ?av = "write_room q (mReadIndex sh) w"
  let ?n = "if ?av - 1 < word_of_nat (length data) then ?av - 1 else word_of_nat (length data) :: u32"
  have ok: "w = mWriteIndex sh" "length data < 2 ^ 32" "ring_inv q sh" using assms(3) sized(1) by auto
  with sized(3) have av: "used_bytes q sh + unat ?av + 1 = unat (mCapacity q)" "unat ?av \<noteq> 0"
    using write_room_nat [of q sh] by (auto simp: unat_eq_0)
  then have "unat (?av - 1) = unat ?av - 1"
    by (subst unat_sub_le) (simp_all add: word_le_nat_alt Suc_le_eq)
  moreover have "unat (word_of_nat (length data) :: u32) = length data" using ok(2) by (intro unat_of_nat_u32) simp
  ultimately have "unat ?n \<le> length data" "used_bytes q sh + unat ?n + 2 \<le> unat (mCapacity q)"
    using av by (auto simp: word_less_nat_alt)
  then show ?thesis using sized assms(3) by simp
next
  case (byte i xs w blk)
  have ok: "w = mWriteIndex sh" "used_bytes q sh + length xs + 2 \<le> unat (mCapacity q)" "ring_inv q sh"
    "\<forall>j<i. blk_mem (mBaseMemory sh) ((unat w + j) mod unat (mCapacity q)) = xs ! j"
    using assms(3) byte(1,3) by auto
  note f = byte_in_free_part [OF ok(3,2) byte(3) byte(4) [unfolded ok(1)]]
  have "reader_ok p sh' b"
    using reader_ok_grows [of p sh b sh' "[]"] assms(2,3) f(1) byte(5) ring_pair_contents [OF assms(2)] by simp
  moreover have "writer_ok q sh' a'"
    using byte ok f by (auto simp: less_Suc_eq used_bytes_def)
  ultimately show ?thesis using f(1,2) byte(2,5) by simp
next
  case (store xs w)
  have ok: "w = mWriteIndex sh" "xs = [] \<or> used_bytes q sh + length xs + 2 \<le> unat (mCapacity q)" "ring_inv q sh"
    "\<forall>j<length xs. blk_mem (mBaseMemory sh) ((unat (mWriteIndex sh) + j) mod unat (mCapacity q)) = xs ! j"
    using assms(3) store(1) by auto
  note f = publish [OF ok(3,2,4)]
  have "reader_ok p sh' b"
    using reader_ok_grows [of p sh b sh' xs] assms(2,3) f(1) store(3) ok(1) ring_pair_contents [OF assms(2)] by simp
  then show ?thesis using f store ok(1) by simp
qed (use assms(3) in \<open>auto simp: used_bytes_def\<close>)

section \<open>The steps of the reader\<close>

text \<open>Storing the read index releases the bytes that were copied.\<close>

lemma release_bytes:
  assumes inv: "ring_inv q sh" and n: "unat n \<le> used_bytes q sh" "mCapacity p = mCapacity q" "n \<noteq> 0"
  defines "sh' \<equiv> sh\<lparr>mReadIndex := ring_stop p (mReadIndex sh) n\<rparr>"
  shows "ring_contents q sh' = drop (unat n) (ring_contents q sh)" "ring_inv q sh'"
proof -
  note nat = ring_inv_nat [OF inv]
  let ?c = "unat (mCapacity q)" and ?r = "unat (mReadIndex sh)" and ?w = "unat (mWriteIndex sh)"
  let ?u = "ring_used ?c ?r ?w"
  have pos: "0 < unat n" using n(3) by (simp add: unat_gt_0)
  have u: "unat n \<le> ?u" "?u + 2 \<le> ?c" using n(1) pos nat by (auto simp: used_bytes_def)
  have r': "unat (mReadIndex sh') = advance ?c ?r (unat n)"
    using unat_ring_stop [of "mReadIndex sh" p n] nat u n(2) by (simp add: sh'_def)
  have used: "ring_used ?c (unat (mReadIndex sh')) ?w = ?u - unat n"
    unfolding r' using ring_used_advance_read nat u by simp
  have "ring_contents q sh' = ring_slice (blk_mem (mBaseMemory sh)) ?c (advance ?c ?r (unat n)) (?u - unat n)"
    using used r' by (simp add: ring_contents_def sh'_def)
  also have "\<dots> = ring_slice (blk_mem (mBaseMemory sh)) ?c (?r + unat n) (?u - unat n)"
    using advance_mod [of ?r ?c "unat n"] nat by (metis ring_slice_mod)
  also have "\<dots> = drop (unat n) (ring_contents q sh)" by (simp add: ring_contents_def drop_ring_slice)
  finally show "ring_contents q sh' = drop (unat n) (ring_contents q sh)" .
  have "advance ?c ?r (unat n) \<le> ?c" using nat u by (intro advance_le) simp_all
  moreover have "?u - unat n + 2 \<le> ?c" using u by linarith
  ultimately show "ring_inv q sh'" using inv used r' unfolding ring_inv_def Let_def by (simp add: sh'_def)
qed

lemma writer_ok_shrinks:
  assumes "writer_ok q sh a" and "mWriteIndex sh' = mWriteIndex sh" and "mBaseMemory sh' = mBaseMemory sh"
    and "used_bytes q sh' \<le> used_bytes q sh"
  shows "writer_ok q sh' a"
  using assms by (cases a) auto

lemma read_step_inv:
  assumes "read_step p (sh, b) e (sh', b')" and "ring_pair q p" and "conc_inv q p (sh, a, b)"
  shows "conc_inv q p (sh', a, b')
    \<and> ring_contents q sh = event_delivered e @ ring_contents q sh' \<and> event_accepted e = []"
proof -
  have inv: "ring_inv q sh" "ring_inv p sh" "mCapacity p = mCapacity q"
    using assms(2,3) by (auto simp: ring_pair_def ring_inv_def)
  note nat = ring_inv_nat [OF inv(2)] and same = ring_pair_contents [OF assms(2)]
  have used: "used_bytes p sh = used_bytes q sh" for sh by (simp add: used_bytes_def same)
  from assms(1) show ?thesis
  proof (cases rule: read_cases)
    case (call maxLen)
    then show ?thesis using assms(3) nat by (simp add: used_bytes_def)
  next
    case (empty w maxLen)
    then show ?thesis using assms(3) by simp
  next
    case (sized w maxLen)
    have "unat (calcSize p (mReadIndex sh) w) \<le> used_bytes p sh"
      using unat_calcSize [of "mReadIndex sh" p w] nat assms(3) sized(1) by simp
    then show ?thesis using sized assms(3) by (auto simp: word_less_nat_alt)
  next
    case (ready n)
    then show ?thesis using assms(3) by simp
  next
    case (byte xs n r ys)
    have ok: "r = mReadIndex sh" "n \<noteq> 0" "unat n \<le> used_bytes p sh" "xs = take (length xs) (ring_contents p sh)"
      using assms(3) byte(1) by auto
    have lt: "length xs < used_bytes p sh" using byte(3) ok(3) by simp
    then have lc: "length xs < unat (mCapacity p)" using nat by (auto simp: used_bytes_def)
    have "ring_cell p r (length xs) = (unat (mReadIndex sh) + length xs) mod unat (mCapacity p)"
      unfolding ok(1) using nat lc by (intro ring_cell_mod) simp_all
    then have "ys = [ring_contents p sh ! length xs]"
      using byte(4) lt by (auto simp: blk_read_def mslice_def ring_contents_def used_bytes_def split: if_splits)
    then have "xs @ ys = take (Suc (length xs)) (ring_contents p sh)" "length ys = 1"
      using ok(4) lt by (auto simp: take_Suc_conv_app_nth used_bytes_def)
    moreover have "Suc (length xs) \<le> ring_used (unat (mCapacity p)) (unat (mReadIndex sh)) (unat (mWriteIndex sh))"
      using lt by (simp add: used_bytes_def)
    ultimately show ?thesis using byte assms(3) ok by (auto simp: min_absorb2)
  next
    case (store xs n r)
    have ok: "r = mReadIndex sh" "n \<noteq> 0" "unat n \<le> used_bytes q sh" "xs = take (unat n) (ring_contents q sh)"
      using assms(3) store(1,3) by (auto simp: used same)
    note f = release_bytes [OF inv(1) ok(3) inv(3) ok(2)]
    have "used_bytes q sh' \<le> used_bytes q sh" using f(1) store(4) ok(1) by (simp add: used_bytes_def)
    then have "writer_ok q sh' a" using assms(3) store(4) by (intro writer_ok_shrinks [of q sh a sh']) auto
    then show ?thesis using f store ok by simp
  qed
qed

section \<open>Properties\<close>

lemma ring_step_inv:
  assumes "ring_step q p s e s'" and "ring_pair q p" and "conc_inv q p s"
  shows "conc_inv q p s'
    \<and> ring_contents q (fst s) @ event_accepted e = event_delivered e @ ring_contents q (fst s')"
  using assms write_step_inv read_step_inv by cases (fastforce, fastforce)

text \<open>C6. Whatever the interleaving of the two processes, the ring is a reliable byte stream: what it held and the bytes
  of the completed writes are the bytes of the completed reads followed by what it holds, in order, and
  the invariant of the ring holds at every moment, also in the middle of both copies.\<close>
theorem interleaved_ring_is_fifo:
  assumes "ring_pair q p" and "conc_inv q p (sh, a, b)" and "ring_run q p (sh, a, b) es (sh', a', b')"
  shows "ring_contents q sh @ accepted es = delivered es @ ring_contents q sh' \<and> conc_inv q p (sh', a', b')"
proof -
  have "conc_inv q p s' \<and> ring_contents q sh @ accepted es = delivered es @ ring_contents q (fst s')"
    if "ring_run q p (sh, a, b) es s'" for es s' using that
  proof induction
    case ring_start
    then show ?case using assms(2) by simp
  next
    case (ring_next es s' e s'')
    with ring_step_inv [OF ring_next(2) assms(1)] have inv: "conc_inv q p s''"
      and e: "ring_contents q (fst s') @ event_accepted e = event_delivered e @ ring_contents q (fst s'')"
      and IH: "ring_contents q sh @ accepted es = delivered es @ ring_contents q (fst s')" by auto
    have "ring_contents q sh @ accepted (es @ [e]) = delivered es @ ring_contents q (fst s') @ event_accepted e"
      using IH by (simp flip: append_assoc)
    with inv e show ?case by simp
  qed
  from this [OF assms(3)] show ?thesis by simp
qed

fun writer_left :: "writer \<Rightarrow> nat" where
  "writer_left Write_idle = 0"
| "writer_left (Write_copy xs w i) = 1 + (length xs - i)"
| "writer_left (Write_sized data n) = 2 + length data"
| "writer_left (Write_size data w) = 3 + length data"

fun reader_left :: "u32 \<Rightarrow> reader \<Rightarrow> nat" where
  "reader_left c Read_idle = 0"
| "reader_left c (Read_copy n r xs) = 1 + (unat n - length xs)"
| "reader_left c (Read_sized n) = 2 + unat n"
| "reader_left c (Read_size maxLen w) = 3 + unat c"

text \<open>A call that has begun can take its next step.\<close>

lemma writer_can_move:
  assumes "ring_pair q p" and "conc_inv q p (sh, a, b)" and "a \<noteq> Write_idle"
  shows "\<exists>e s. write_step q (sh, a) e s"
proof (cases a)
  case (Write_size data w)
  then show ?thesis using write_full [of q sh w data] write_sized [OF refl, of q sh w _ data] by blast
next
  case (Write_copy xs w i)
  have inv: "ring_inv q sh" using assms(1,2) by (auto simp: ring_pair_def)
  have ok: "w = mWriteIndex sh" "i < length xs \<Longrightarrow> i < unat (mCapacity q)" using assms(2) Write_copy by auto
  show ?thesis
  proof (cases "i < length xs")
    case True
    then have "ring_cell q w i < blk_size (mBaseMemory sh)"
      using ring_cell_mod [of w q i] ok ring_inv_nat [OF inv] by simp
    then show ?thesis using True Write_copy write_byte [of i xs sh q w] by (auto simp: blk_write_def)
  next
    case False
    then have "i = length xs" using assms(2) Write_copy by simp
    then show ?thesis using Write_copy write_store by blast
  qed
qed (use assms(3) in \<open>auto intro: write_step.intros\<close>)

lemma reader_can_move:
  assumes "ring_pair q p" and "conc_inv q p (sh, a, b)" and "b \<noteq> Read_idle"
  shows "\<exists>e s. read_step p (sh, b) e s"
proof (cases b)
  case (Read_size maxLen w)
  then show ?thesis
    by (cases "(if calcSize p (mReadIndex sh) w > maxLen then maxLen else calcSize p (mReadIndex sh) w) = 0")
      (blast intro: read_step.intros)+
next
  case (Read_copy n r xs)
  have "ring_inv p sh" using assms(1,2) by (auto simp: ring_pair_def ring_inv_def)
  note np = ring_inv_nat [OF this]
  have ok: "r = mReadIndex sh" "length xs \<le> unat n" "unat n \<le> used_bytes p sh" "n \<noteq> 0" using assms(2) Read_copy by auto
  show ?thesis
  proof (cases "length xs = unat n")
    case False
    then have lt: "length xs < unat n" using ok(2) by simp
    then have "length xs < unat (mCapacity p)" using ok(3) np by (auto simp: used_bytes_def)
    then have "ring_cell p r (length xs) < blk_size (mBaseMemory sh)"
      using ring_cell_mod [of r p "length xs"] ok(1) np by simp
    then show ?thesis using lt Read_copy read_byte [of xs n sh p r] by (auto simp: blk_read_def)
  next
    case True
    then show ?thesis using Read_copy read_store by blast
  qed
qed (use assms(3) in \<open>auto intro: read_step.intros\<close>)

lemma writer_nearer: "write_step q (sh, a) e (sh', a') \<Longrightarrow> a \<noteq> Write_idle \<Longrightarrow> writer_left a' < writer_left a"
  by (erule write_cases) auto

lemma reader_nearer:
  assumes "ring_pair q p" and "conc_inv q p (sh, a, b)" and "b \<noteq> Read_idle" and "read_step p (sh, b) e (sh', b')"
  shows "reader_left (mCapacity p) b' < reader_left (mCapacity p) b"
  using assms(4,3)
proof (cases rule: read_cases)
  case (sized w maxLen)
  have "ring_inv p sh" using assms(1,2) by (auto simp: ring_pair_def ring_inv_def)
  then have "unat (calcSize p (mReadIndex sh) w) \<le> unat (mCapacity p)"
    using unat_calcSize [of "mReadIndex sh" p w] ring_used_le ring_inv_nat assms(2) sized(1) by simp
  then show ?thesis using sized by (auto simp: word_less_nat_alt)
next
  case (byte xs n r ys)
  then have "length ys = 1" by (auto simp: blk_read_def mslice_def split: if_splits)
  then show ?thesis using byte by auto
qed auto

text \<open>C28. Both methods are wait-free: in every reachable state a process in the middle of a call can take its next step
  without a fault, whatever the other process does, and each of its steps brings the end of the call nearer.\<close>
theorem ring_calls_complete:
  assumes "ring_pair q p" and "conc_inv q p (sh, a, b)"
  shows "(a \<noteq> Write_idle \<longrightarrow> (\<exists>e s. write_step q (sh, a) e s))
    \<and> (\<forall>e sh' a'. a \<noteq> Write_idle \<longrightarrow> write_step q (sh, a) e (sh', a') \<longrightarrow> writer_left a' < writer_left a)
    \<and> (b \<noteq> Read_idle \<longrightarrow> (\<exists>e s. read_step p (sh, b) e s))
    \<and> (\<forall>e sh' b'. b \<noteq> Read_idle \<longrightarrow> read_step p (sh, b) e (sh', b') \<longrightarrow>
        reader_left (mCapacity p) b' < reader_left (mCapacity p) b)"
  using writer_can_move [OF assms] reader_can_move [OF assms] writer_nearer reader_nearer [OF assms] by blast

section \<open>The sequential methods as interleavings\<close>

text \<open>The block after the first \<open>i\<close> bytes of a copy.\<close>

definition partly_copied :: "spsc \<Rightarrow> block \<Rightarrow> u32 \<Rightarrow> u8 list \<Rightarrow> nat \<Rightarrow> block" where
  "partly_copied q blk w xs i =
     (let top = unat (mCapacity q - w)
      in blk\<lparr>blk_mem := put (put (blk_mem blk) (unat w) (take (min i top) xs)) 0 (take (i - top) (drop top xs))\<rparr>)"

lemma put_snoc: "a = w + length ys \<Longrightarrow> put (put m w ys) a [x] = put m w (ys @ [x])"
  by (auto simp: put_def nth_append fun_eq_iff)

lemma partly_copied_0: "partly_copied q blk w xs 0 = blk"
  by (simp add: partly_copied_def put_Nil)

lemma partly_copied_Suc:
  assumes "i < length xs" and "ring_cell q w i < blk_size blk"
  shows "blk_write (partly_copied q blk w xs i, ring_cell q w i) [xs ! i] = Inr (partly_copied q blk w xs (Suc i))"
proof (cases "i < unat (mCapacity q - w)")
  case True
  then show ?thesis using assms
    by (simp add: partly_copied_def ring_cell_def Let_def blk_write_def put_Nil put_snoc take_Suc_conv_app_nth min_absorb1)
next
  case False
  let ?top = "unat (mCapacity q - w)"
  have "take (Suc i - ?top) (drop ?top xs) = take (i - ?top) (drop ?top xs) @ [xs ! i]"
    using False assms(1) by (simp add: Suc_diff_le take_Suc_conv_app_nth)
  then show ?thesis using False assms
    by (simp add: partly_copied_def ring_cell_def Let_def blk_write_def put_snoc min_absorb2)
qed

lemma writer_copies:
  assumes "ring_run q p s es (sh, Write_copy xs w 0, b)" and "\<forall>k<length xs. ring_cell q w k < blk_size (mBaseMemory sh)"
    and "i \<le> length xs"
  shows "\<exists>es'. ring_run q p s es' (sh\<lparr>mBaseMemory := partly_copied q (mBaseMemory sh) w xs i\<rparr>, Write_copy xs w i, b)
    \<and> accepted es' = accepted es \<and> delivered es' = delivered es"
  using assms(3)
proof (induction i)
  case 0
  show ?case using assms(1) by (auto simp: partly_copied_0)
next
  case (Suc i)
  let ?sh = "sh\<lparr>mBaseMemory := partly_copied q (mBaseMemory sh) w xs i\<rparr>"
  from Suc obtain es' where r: "ring_run q p s es' (?sh, Write_copy xs w i, b)" "accepted es' = accepted es"
    "delivered es' = delivered es" by auto
  have "write_step q (?sh, Write_copy xs w i) Silent
      (?sh\<lparr>mBaseMemory := partly_copied q (mBaseMemory sh) w xs (Suc i)\<rparr>, Write_copy xs w (Suc i))"
    using Suc.prems assms(2) by (intro write_byte) (simp_all add: partly_copied_Suc)
  from ring_next [OF r(1) writer_moves [OF this]] r(2,3) show ?case
    by (intro exI [of _ "es' @ [Silent]"]) simp
qed

lemma write_copy_parts:
  assumes inv: "ring_inv q sh" and n: "unat n \<le> length data" "unat n + 2 \<le> unat (mCapacity q)"
  shows "spsc_write_copy q sh (bytes_ptr data) n =
    Inr (n, sh\<lparr>mBaseMemory := partly_copied q (mBaseMemory sh) (mWriteIndex sh) (take (unat n) data) (unat n),
               mWriteIndex := ring_stop q (mWriteIndex sh) n\<rparr>)"
proof -
  note nat = ring_inv_nat [OF inv]
  let ?top = "mCapacity q - mWriteIndex sh"
  have top: "unat ?top = unat (mCapacity q) - unat (mWriteIndex sh)"
    using nat by (simp add: unat_sub_le word_le_nat_alt)
  show ?thesis
  proof (cases "n \<le> ?top")
    case True
    then have "unat (mWriteIndex sh) + unat n \<le> unat (mCapacity q)" using top nat by (simp add: word_le_nat_alt)
    then show ?thesis using True n nat
      by (simp add: spsc_write_copy_def Let_def memcpy_Inr partly_copied_def ring_stop_def put_Nil word_le_nat_alt
          memcpy_def blk_write_def min_absorb1)
  next
    case False
    then have lt: "unat ?top < unat n" by (simp add: word_le_nat_alt)
    have rem: "unat (n - ?top) = unat n - unat ?top" using False by (simp add: unat_sub_le)
    then have r0: "n - ?top \<noteq> 0" using lt by (metis unat_0 zero_less_diff less_numeral_extra(3))
    let ?m1 = "put (blk_mem (mBaseMemory sh)) (unat (mWriteIndex sh)) (take (unat ?top) data)"
    have m1: "(if ?top \<noteq> 0 then memcpy (mBaseMemory sh, unat (mWriteIndex sh)) (bytes_ptr data) (unat ?top)
        else Inr (mBaseMemory sh)) = Inr ((mBaseMemory sh)\<lparr>blk_mem := ?m1\<rparr>)"
      using lt n top nat by (auto simp: memcpy_def blk_write_def put_Nil)
    have sl: "mslice (blk_mem (fst (bytes_ptr data))) (unat ?top) (unat n - unat ?top) =
        take (unat n - unat ?top) (drop (unat ?top) (take (unat n) data))"
      using lt n by (intro nth_equalityI) (auto simp: mslice_def bytes_ptr_def put_def)
    have m2: "memcpy ((mBaseMemory sh)\<lparr>blk_mem := ?m1\<rparr>, 0) (fst (bytes_ptr data), snd (bytes_ptr data) + unat ?top)
        (unat (n - ?top)) = Inr ((mBaseMemory sh)\<lparr>blk_mem := put ?m1 0
          (take (unat n - unat ?top) (drop (unat ?top) (take (unat n) data)))\<rparr>)"
      unfolding rem using n nat lt sl by (subst memcpy_Inr) auto
    show ?thesis using False r0 m1 m2 lt
      by (simp add: spsc_write_copy_def Let_def partly_copied_def ring_stop_def min_absorb2)
  qed
qed

lemma write_alone:
  assumes pair: "ring_pair q p" and inv: "ring_inv q sh" and data: "length data < 2 ^ 32"
    and w: "spsc_write q sh (bytes_ptr data) (word_of_nat (length data)) = Inr (k, sh')"
  shows "\<exists>es. ring_run q p (sh, Write_idle, b) es (sh', Write_idle, b)
    \<and> accepted es = take (unat k) data \<and> delivered es = []"
proof -
  note nat = ring_inv_nat [OF inv]
  let ?s = "(sh, Write_idle, b)" and ?av = "write_room q (mReadIndex sh) (mWriteIndex sh)"
  have obj: "mIsWriter q" "mAttached q" using pair by (auto simp: ring_pair_def)
  have cap: "spsc_capacity q sh = Inr ?av"
    using obj by (simp add: spsc_capacity_def spsc_size_def write_room_def Let_def)
  have run1: "ring_run q p ?s [Silent] (sh, Write_size data (mWriteIndex sh), b)"
    using ring_next [OF ring_start writer_moves [OF write_call [OF obj(1) data]]] by simp
  show ?thesis
  proof (cases "?av = 0")
    case True
    then have "k = 0" "sh' = sh" using w cap obj by (simp_all add: spsc_write_def)
    with ring_next [OF run1 writer_moves [OF write_full [OF True]]] show ?thesis
      by (intro exI [of _ "[Silent, Accepted []]"]) (simp add: accepted_def delivered_def)
  next
    case False
    define n where "n = (if ?av - 1 < word_of_nat (length data) then ?av - 1 else word_of_nat (length data))"
    have len: "unat (word_of_nat (length data) :: u32) = length data" using data by (intro unat_of_nat_u32) simp
    have av: "used_bytes q sh + unat ?av + 1 = unat (mCapacity q)" by (rule write_room_nat [OF inv False])
    have "unat (?av - 1) = unat ?av - 1"
      using False by (subst unat_sub_le) (simp_all add: word_le_nat_alt Suc_le_eq unat_gt_0)
    moreover have "0 < unat ?av" using False by (simp add: unat_gt_0)
    ultimately have n: "unat n \<le> length data" "unat n + 2 \<le> unat (mCapacity q)"
      using av len by (auto simp: n_def word_less_nat_alt)
    let ?xs = "take (unat n) data" and ?wi = "mWriteIndex sh"
    have xs: "length ?xs = unat n" using n(1) by simp
    have run2: "ring_run q p ?s [Silent, Silent, Silent] (sh, Write_copy ?xs ?wi 0, b)"
      using ring_next [OF ring_next [OF run1 writer_moves [OF write_sized [OF refl False refl]]]
          writer_moves [OF write_begin]] by (simp add: n_def)
    have "\<forall>j<length ?xs. ring_cell q ?wi j < blk_size (mBaseMemory sh)"
      using ring_cell_mod [of ?wi q] nat n(2) xs by simp
    from writer_copies [OF run2 this order_refl] obtain es where es:
      "ring_run q p ?s es (sh\<lparr>mBaseMemory := partly_copied q (mBaseMemory sh) ?wi ?xs (unat n)\<rparr>,
         Write_copy ?xs ?wi (length ?xs), b)" "accepted es = []" "delivered es = []"
      unfolding xs by (auto simp: accepted_def delivered_def)
    have "spsc_write q sh (bytes_ptr data) (word_of_nat (length data)) = spsc_write_copy q sh (bytes_ptr data) n"
      using obj cap False by (simp add: spsc_write_def Let_def n_def)
    with w write_copy_parts [OF inv n] have k: "k = n"
      "sh' = sh\<lparr>mBaseMemory := partly_copied q (mBaseMemory sh) ?wi ?xs (unat n), mWriteIndex := ring_stop q ?wi n\<rparr>"
      by auto
    have "word_of_nat (unat n) = n" by simp
    with ring_next [OF es(1) writer_moves [OF write_store [OF refl]]] es(2,3) k xs show ?thesis
      by (intro exI [of _ "es @ [Accepted ?xs]"]) simp
  qed
qed

lemma reader_copies:
  assumes "ring_run q p s es (sh, a, Read_copy n (mReadIndex sh) [])" and "ring_inv p sh"
    and "unat n \<le> used_bytes p sh" and "i \<le> unat n"
  shows "\<exists>es'. ring_run q p s es' (sh, a, Read_copy n (mReadIndex sh) (take i (ring_contents p sh)))
    \<and> accepted es' = accepted es \<and> delivered es' = delivered es"
  using assms(4)
proof (induction i)
  case 0
  show ?case using assms(1) by auto
next
  case (Suc i)
  then obtain es' where r: "ring_run q p s es' (sh, a, Read_copy n (mReadIndex sh) (take i (ring_contents p sh)))"
    "accepted es' = accepted es" "delivered es' = delivered es" by auto
  note nat = ring_inv_nat [OF assms(2)]
  have i: "i < used_bytes p sh" "length (take i (ring_contents p sh)) = i"
    using Suc.prems assms(3) by (auto simp: used_bytes_def)
  then have "i < unat (mCapacity p)" using nat by (auto simp: used_bytes_def)
  then have "blk_read (mBaseMemory sh, ring_cell p (mReadIndex sh) i) 1 = Inr [ring_contents p sh ! i]"
    using ring_cell_mod [of "mReadIndex sh" p i] nat i(1)
    by (simp add: blk_read_def mslice_def ring_contents_def used_bytes_def Suc_le_eq)
  then have "read_step p (sh, Read_copy n (mReadIndex sh) (take i (ring_contents p sh))) Silent
      (sh, Read_copy n (mReadIndex sh) (take i (ring_contents p sh) @ [ring_contents p sh ! i]))"
    using Suc.prems i(2) by (intro read_byte) simp_all
  then have "read_step p (sh, Read_copy n (mReadIndex sh) (take i (ring_contents p sh))) Silent
      (sh, Read_copy n (mReadIndex sh) (take (Suc i) (ring_contents p sh)))"
    using i(1) by (simp add: take_Suc_conv_app_nth used_bytes_def)
  from ring_next [OF r(1) reader_moves [OF this]] r(2,3) show ?case
    by (intro exI [of _ "es' @ [Silent]"]) simp
qed

lemma read_alone:
  assumes pair: "ring_pair q p" and inv: "ring_inv p sh" and r: "spsc_read p sh maxLen = Inr (xs, sh')"
  shows "\<exists>es. ring_run q p (sh, a, Read_idle) es (sh', a, Read_idle) \<and> delivered es = xs \<and> accepted es = []"
proof -
  note nat = ring_inv_nat [OF inv]
  have obj: "\<not> mIsWriter p" "mAttached p" using pair by (auto simp: ring_pair_def)
  let ?sz = "calcSize p (mReadIndex sh) (mWriteIndex sh)"
  define n where "n = (if ?sz > maxLen then maxLen else ?sz)"
  have run1: "ring_run q p (sh, a, Read_idle) [Silent] (sh, a, Read_size maxLen (mWriteIndex sh))"
    using ring_next [OF ring_start reader_moves [OF read_call [OF obj(1)]]] by simp
  have read: "spsc_read p sh maxLen = (if n = 0 then Inr ([], sh) else spsc_read_copy p sh n)"
    using obj by (simp add: spsc_read_def spsc_size_def Let_def n_def)
  from spsc_read_spec [OF inv obj(1), of maxLen] r have spec: "xs = take (unat maxLen) (ring_contents p sh)"
    "sh' = sh\<lparr>mReadIndex := mReadIndex sh'\<rparr>" by auto
  show ?thesis
  proof (cases "n = 0")
    case True
    then have "xs = []" "sh' = sh" using r read by simp_all
    with ring_next [OF run1 reader_moves [OF read_empty [OF refl True [unfolded n_def]]]] show ?thesis
      by (intro exI [of _ "[Silent, Delivered []]"]) (simp add: accepted_def delivered_def)
  next
    case False
    have sz: "unat n = min (unat maxLen) (used_bytes p sh)"
      using nat by (auto simp: n_def used_bytes_def word_less_nat_alt)
    have run2: "ring_run q p (sh, a, Read_idle) [Silent, Silent, Silent] (sh, a, Read_copy n (mReadIndex sh) [])"
      using ring_next [OF ring_next [OF run1 reader_moves [OF read_sized [OF refl n_def False]]]
          reader_moves [OF read_begin]] by simp
    from reader_copies [OF run2 inv _ order_refl] sz obtain es where es:
      "ring_run q p (sh, a, Read_idle) es (sh, a, Read_copy n (mReadIndex sh) (take (unat n) (ring_contents p sh)))"
      "accepted es = []" "delivered es = []" by (auto simp: accepted_def delivered_def)
    have "take (min i (length ys)) ys = take i ys" for i and ys :: "u8 list" by (simp add: min_def)
    then have xs: "xs = take (unat n) (ring_contents p sh)" unfolding spec(1) sz used_bytes_def by (rule sym)
    have "mReadIndex sh' = ring_stop p (mReadIndex sh) n"
      using r read False by (auto simp: spsc_read_copy_def ring_stop_def Let_def ebind_Inr_iff split: if_splits)
    then have sh': "sh' = sh\<lparr>mReadIndex := ring_stop p (mReadIndex sh) n\<rparr>" using spec(2) by simp
    have "length (take (unat n) (ring_contents p sh)) = unat n" using sz by (simp add: used_bytes_def)
    from ring_next [OF es(1) reader_moves [OF read_store [OF this]]] es(2,3) xs sh' show ?thesis
      by (intro exI [of _ "es @ [Delivered xs]"]) simp
  qed
qed

text \<open>C29. The sequential methods are runs of the atomic steps: a call of \<open>write\<close> or \<open>read\<close> that no step of the other
  process interrupts ends in exactly the state the method computes and lets the same bytes through.\<close>
theorem sequential_calls_are_runs:
  assumes "ring_pair q p" and "ring_inv q sh" and "length data < 2 ^ 32"
    and "spsc_write q sh (bytes_ptr data) (word_of_nat (length data)) = Inr (k, sh1)"
    and "spsc_read p sh maxLen = Inr (xs, sh2)"
  shows "(\<exists>es. ring_run q p (sh, Write_idle, b) es (sh1, Write_idle, b) \<and> accepted es = take (unat k) data)
    \<and> (\<exists>es. ring_run q p (sh, a, Read_idle) es (sh2, a, Read_idle) \<and> delivered es = xs)"
proof -
  have "ring_inv p sh" using assms(1,2) by (simp add: ring_pair_def ring_inv_def)
  from write_alone [OF assms(1-4), of b] read_alone [OF assms(1) this assms(5), of a] show ?thesis by blast
qed

lemma small_pair: "ring_pair (ring_writer 8) (ring_reader 8)"
  by (simp add: ring_pair_def ring_writer_def ring_reader_def)

lemma small_inv: "conc_inv (ring_writer 8) (ring_reader 8) (small_ring, Write_idle, Read_idle)"
  using ring_inv_small by simp

lemma sequential_calls_are_runs_witness:
  "\<exists>es s. ring_run (ring_writer 8) (ring_reader 8) (small_ring, Write_idle, Read_idle) es s \<and> delivered es = [6, 7]"
proof -
  obtain k sh1 where w: "spsc_write (ring_writer 8) small_ring (bytes_ptr [1]) (word_of_nat (length [1 :: u8])) = Inr (k, sh1)"
    using spsc_write_spec [OF ring_inv_small(1), of "bytes_ptr [1]" 1 "[1]"] by auto
  obtain sh2 where r: "spsc_read (ring_reader 8) small_ring 2 = Inr ([6, 7], sh2)"
    using spsc_read_spec [OF ring_inv_small(2), of 2] by (auto simp: ring_contents_small)
  show ?thesis
    using sequential_calls_are_runs [OF small_pair ring_inv_small(1) _ w r, where a = Write_idle and b = Read_idle]
    by fastforce
qed

lemma ring_calls_complete_witness:
  "\<exists>e s. write_step (ring_writer 8) (small_ring, Write_size [1, 2] 1) e s"
proof -
  have "conc_inv (ring_writer 8) (ring_reader 8) (small_ring, Write_size [1, 2] 1, Read_idle)"
    using ring_inv_small by (simp add: small_ring_def)
  from ring_calls_complete [OF small_pair this] show ?thesis by simp
qed

text \<open>A write that is interrupted after its first load by a complete read.\<close>

lemma interleaved_ring_is_fifo_witness:
  "\<exists>es sh' b'. ring_run (ring_writer 8) (ring_reader 8) (small_ring, Write_idle, Read_idle) es
      (sh', Write_size [9] 1, b') \<and> delivered es = [6, 7] \<and> ring_contents (ring_writer 8) sh' = [0]"
proof -
  let ?run = "ring_run (ring_writer 8) (ring_reader 8) (small_ring, Write_idle, Read_idle)"
  obtain sh2 where r: "spsc_read (ring_reader 8) small_ring 2 = Inr ([6, 7], sh2)"
    "sh2 = small_ring\<lparr>mReadIndex := mReadIndex sh2\<rparr>"
    using spsc_read_spec [OF ring_inv_small(2), of 2] by (auto simp: ring_contents_small)
  have w: "mWriteIndex sh2 = 1" using arg_cong [OF r(2), of mWriteIndex] by (simp add: small_ring_def)
  from read_alone [OF small_pair ring_inv_small(2) r(1)] obtain es where
    es: "?run es (sh2, Write_idle, Read_idle)" "delivered es = [6, 7]" "accepted es = []" by blast
  have "write_step (ring_writer 8) (sh2, Write_idle) Silent (sh2, Write_size [9] 1)"
    using write_call [of "ring_writer 8" "[9]" sh2] w by (simp add: ring_writer_def)
  from ring_next [OF es(1) writer_moves [OF this]] have run: "?run (es @ [Silent]) (sh2, Write_size [9] 1, Read_idle)" .
  from interleaved_ring_is_fifo [OF small_pair small_inv run] es run show ?thesis
    by (intro exI [of _ "es @ [Silent]"] exI [of _ sh2] exI [of _ Read_idle]) (simp add: ring_contents_small)
qed

end
