(* ===== verification/SimpleBuffer.thy ===== *)
theory SimpleBuffer
  imports ByteFifo
begin

text \<open>
  \<open>ext/easywsclient/SimpleBuffer.cpp\<close>: the growable byte buffer behind the transmit buffer, the
  receive buffer and the fragment buffer of a connection. The bytes in
  \<open>[mStartLoc, mEndLoc)\<close> are live; \<open>addBuffer\<close> appends at the end, \<open>consume\<close> drops from the
  front, and a buffer that runs out of room is compacted or reallocated by \<open>growBuffer\<close>.
  Sizes and offsets are \<open>uint32_t\<close> with wrap-around, as in the source; \<open>malloc\<close> does not
  fail in the model; the \<open>assert\<close> of \<open>consume\<close> is compiled out, as in the release build.
\<close>

section \<open>The code\<close>

record simple_buffer =
  mBuffer :: block
  mStartLoc :: u32
  mEndLoc :: u32
  mMaxLen :: u32
  mMaxGrowSize :: u32
  mDefaultSize :: u32
  mHeap :: allocator

definition getSize :: "simple_buffer \<Rightarrow> u32" where
  "getSize b = mEndLoc b - mStartLoc b"

definition getData :: "simple_buffer \<Rightarrow> ptr \<times> u32" where
  "getData b = ((mBuffer b, unat (mStartLoc b)), getSize b)"

definition clear :: "simple_buffer \<Rightarrow> simple_buffer" where
  "clear b = b\<lparr>mStartLoc := 0, mEndLoc := 0\<rparr>"

definition reset :: "simple_buffer \<Rightarrow> u32 \<Rightarrow> simple_buffer" where
  "reset b defaultSize =
     b\<lparr>mBuffer := (if defaultSize \<noteq> 0 then malloc (mHeap b) (unat defaultSize) else null_block),
       mStartLoc := 0, mEndLoc := 0, mDefaultSize := defaultSize, mMaxLen := defaultSize\<rparr>"

definition create_buffer :: "allocator \<Rightarrow> u32 \<Rightarrow> u32 \<Rightarrow> simple_buffer" where
  "create_buffer h defaultLen maxGrowSize =
     reset \<lparr>mBuffer = null_block, mStartLoc = 0, mEndLoc = 0, mMaxLen = 0,
            mMaxGrowSize = (if defaultLen > maxGrowSize then defaultLen else maxGrowSize),
            mDefaultSize = 1024, mHeap = h\<rparr> defaultLen"

definition growBuffer :: "simple_buffer \<Rightarrow> u32 \<Rightarrow> (bool \<times> simple_buffer) result" where
  "growBuffer b dataLen =
     (let emptySize = mStartLoc b
      in if dataLen < emptySize then
           let keepSize = getSize b
           in ebind (if keepSize \<noteq> 0
                     then memcpy_within (mBuffer b) 0 (unat (mStartLoc b)) (unat keepSize)
                     else Inr (mBuffer b))
                (\<lambda>blk. Inr (True, b\<lparr>mBuffer := blk, mStartLoc := 0, mEndLoc := keepSize\<rparr>))
         else
           let newMaxLen = mMaxLen b * 2;
               available = newMaxLen - mEndLoc b;
               newMaxLen = (if available < dataLen then newMaxLen + dataLen else newMaxLen)
           in if newMaxLen > mMaxGrowSize b then Inr (False, b)
              else
                let newBuffer = malloc (mHeap b) (unat newMaxLen);
                    bufferSize = getSize b
                in ebind (if bufferSize \<noteq> 0
                          then memcpy (newBuffer, 0) (mBuffer b, unat (mStartLoc b)) (unat bufferSize)
                          else Inr newBuffer)
                     (\<lambda>blk. Inr (True, b\<lparr>mMaxLen := newMaxLen, mBuffer := blk,
                                         mStartLoc := 0, mEndLoc := bufferSize\<rparr>)))"

text \<open>\<open>addBuffer\<close>; a null \<open>data\<close> only advances the end of the buffer.\<close>

definition addBuffer :: "simple_buffer \<Rightarrow> ptr option \<Rightarrow> u32 \<Rightarrow> (bool \<times> simple_buffer) result" where
  "addBuffer b data dataLen =
     ebind (if dataLen > mMaxLen b - mEndLoc b
            then ebind (growBuffer b dataLen) (\<lambda>(_, b). Inr b) else Inr b)
       (\<lambda>b. let available = mMaxLen b - mEndLoc b
            in if dataLen \<le> available then
                 ebind (case data of
                          Some p \<Rightarrow> memcpy (mBuffer b, unat (mEndLoc b)) p (unat dataLen)
                        | None \<Rightarrow> Inr (mBuffer b))
                   (\<lambda>blk. Inr (True, b\<lparr>mBuffer := blk, mEndLoc := mEndLoc b + dataLen\<rparr>))
               else Inr (False, b))"

definition consume :: "simple_buffer \<Rightarrow> u32 \<Rightarrow> simple_buffer" where
  "consume b removeLen =
     (let activeBufferSize = mEndLoc b - mStartLoc b;
          removeLen = (if removeLen > activeBufferSize then activeBufferSize else removeLen);
          b = b\<lparr>mStartLoc := mStartLoc b + removeLen\<rparr>
      in if mStartLoc b = mEndLoc b then b\<lparr>mStartLoc := 0, mEndLoc := 0\<rparr> else b)"

text \<open>\<open>confirmCapacity\<close> returns the address the next bytes are written to, or null.\<close>

definition confirmCapacity ::
  "simple_buffer \<Rightarrow> u32 \<Rightarrow> (ptr option \<times> simple_buffer) result" where
  "confirmCapacity b capacity =
     ebind (if capacity > mMaxLen b - mEndLoc b
            then ebind (growBuffer b capacity) (\<lambda>(_, b). Inr b) else Inr b)
       (\<lambda>b. let available = mMaxLen b - mEndLoc b
            in Inr (if capacity \<le> available then Some (mBuffer b, unat (mEndLoc b)) else None, b))"

definition getMaxBufferSize :: "simple_buffer \<Rightarrow> u32" where
  "getMaxBufferSize b = mMaxLen b"

text \<open>
  \<open>shrinkBuffer\<close>: the source copies the live bytes to a new block and drops that block:
  \<open>mBuffer\<close> keeps its value.
\<close>

definition shrinkBuffer :: "simple_buffer \<Rightarrow> (u32 \<times> simple_buffer) result" where
  "shrinkBuffer b =
     (let currentSize = getSize b;
          newSize = (if currentSize > mDefaultSize b then currentSize else mDefaultSize b);
          newBuffer = malloc (mHeap b) (unat newSize)
      in ebind (if currentSize \<noteq> 0
                then memcpy (newBuffer, 0) (mBuffer b, unat (mStartLoc b)) (unat currentSize)
                else Inr newBuffer)
           (\<lambda>_. let b = b\<lparr>mStartLoc := 0, mEndLoc := currentSize, mMaxLen := newSize\<rparr>
                in Inr (mMaxLen b, b)))"

definition getMaxGrowSize :: "simple_buffer \<Rightarrow> u32" where
  "getMaxGrowSize b = mMaxGrowSize b"

section \<open>Specification\<close>

text \<open>The live bytes: the abstract value of a buffer is a byte string.\<close>

definition contents :: "simple_buffer \<Rightarrow> u8 list" where
  "contents b = mslice (blk_mem (mBuffer b)) (unat (mStartLoc b)) (unat (getSize b))"

text \<open>
  The invariant. The bound on the growth limit (one gigabyte; the connections use 512
  megabytes) keeps \<open>mMaxLen * 2\<close> and the sums of \<open>growBuffer\<close> below \<open>2 ^ 32\<close>.
\<close>

definition buf_inv :: "simple_buffer \<Rightarrow> bool" where
  "buf_inv b \<longleftrightarrow> mStartLoc b \<le> mEndLoc b \<and> mEndLoc b \<le> mMaxLen b \<and> mMaxLen b \<le> mMaxGrowSize b
     \<and> unat (mMaxGrowSize b) \<le> 2 ^ 30 \<and> blk_size (mBuffer b) = unat (mMaxLen b)
     \<and> mDefaultSize b \<le> mMaxLen b"

text \<open>Compacting moves more live bytes than there is room in front of them.\<close>

definition shift_overlaps :: "simple_buffer \<Rightarrow> u32 \<Rightarrow> bool" where
  "shift_overlaps b n \<longleftrightarrow> n < mStartLoc b \<and> mStartLoc b < getSize b"

definition needs_grow :: "simple_buffer \<Rightarrow> u32 \<Rightarrow> bool" where
  "needs_grow b n \<longleftrightarrow> mMaxLen b - mEndLoc b < n"

text \<open>Parameters of a buffer that no operation but \<open>reset\<close> changes.\<close>

definition same_limits :: "simple_buffer \<Rightarrow> simple_buffer \<Rightarrow> bool" where
  "same_limits b b' \<longleftrightarrow> mMaxGrowSize b' = mMaxGrowSize b \<and> mDefaultSize b' = mDefaultSize b
     \<and> mHeap b' = mHeap b"

lemma same_limits_refl [simp]: "same_limits b b"
  by (simp add: same_limits_def)

lemma same_limits_trans: "same_limits a b \<Longrightarrow> same_limits b c \<Longrightarrow> same_limits a c"
  by (simp add: same_limits_def)

named_theorems buf_nat \<open>the offsets of a well-formed buffer read as natural numbers\<close>

lemma buf_inv_nat:
  assumes "buf_inv b"
  shows "unat (mStartLoc b) \<le> unat (mEndLoc b)" "unat (mEndLoc b) \<le> unat (mMaxLen b)"
    "unat (mMaxLen b) \<le> unat (mMaxGrowSize b)" "unat (mMaxGrowSize b) \<le> 1073741824"
    "unat (getSize b) = unat (mEndLoc b) - unat (mStartLoc b)"
    "unat (mMaxLen b - mEndLoc b) = unat (mMaxLen b) - unat (mEndLoc b)"
    "blk_size (mBuffer b) = unat (mMaxLen b)"
    "unat (mDefaultSize b) \<le> unat (mMaxLen b)"
  using assms by (auto simp: buf_inv_def getSize_def word_nat)

lemma length_contents [simp]: "length (contents b) = unat (getSize b)"
  by (simp add: contents_def)

lemma getSize_contents: "unat (getSize b) = length (contents b)"
  by simp

lemma getSize_0_iff: "getSize b = 0 \<longleftrightarrow> contents b = []"
  by (metis length_contents length_0_conv unat_eq_zero)

lemma contents_bound: "buf_inv b \<Longrightarrow> length (contents b) \<le> 2 ^ 30"
  using buf_inv_nat [of b] by simp

subsection \<open>Creation\<close>

lemma buf_inv_create:
  "unat defaultLen \<le> 2 ^ 30 \<Longrightarrow> unat maxGrow \<le> 2 ^ 30 \<Longrightarrow> buf_inv (create_buffer h defaultLen maxGrow)"
  by (auto simp: buf_inv_def create_buffer_def reset_def malloc_def null_block_def word_nat)

lemma contents_create [simp]: "contents (create_buffer h n m) = []"
  by (simp add: contents_def create_buffer_def reset_def getSize_def)

lemma contents_clear [simp]: "contents (clear b) = []"
  by (simp add: contents_def clear_def getSize_def)

lemma buf_inv_clear [simp]: "buf_inv b \<Longrightarrow> buf_inv (clear b)"
  by (auto simp: buf_inv_def clear_def)

subsection \<open>Growing\<close>

lemma unat_double:
  "buf_inv b \<Longrightarrow> unat (mMaxLen b * 2) = 2 * unat (mMaxLen b)"
  using buf_inv_nat [of b] by (simp add: unat_word_ariths)

text \<open>The new size \<open>growBuffer\<close> asks for, without wrap-around.\<close>

definition new_max :: "simple_buffer \<Rightarrow> u32 \<Rightarrow> nat" where
  "new_max b n =
     (if 2 * unat (mMaxLen b) - unat (mEndLoc b) < unat n
      then 2 * unat (mMaxLen b) + unat n else 2 * unat (mMaxLen b))"

lemma new_max_word:
  assumes "buf_inv b" and "unat n < 2 ^ 31"
  shows "unat (if mMaxLen b * 2 - mEndLoc b < n then mMaxLen b * 2 + n else mMaxLen b * 2)
         = new_max b n"
proof -
  note nat = buf_inv_nat [OF assms(1)] unat_double [OF assms(1)]
  have "unat (mMaxLen b * 2 - mEndLoc b) = 2 * unat (mMaxLen b) - unat (mEndLoc b)"
    using nat by (subst unat_sub_le) (auto simp: word_le_nat_alt)
  moreover have "unat (mMaxLen b * 2 + n) = 2 * unat (mMaxLen b) + unat n"
    using nat assms(2) by (subst unat_add_u32) auto
  ultimately show ?thesis
    using nat by (simp add: new_max_def word_less_nat_alt)
qed

lemma growBuffer_shift:
  assumes inv: "buf_inv b" and lt: "n < mStartLoc b"
  shows "growBuffer b n =
    (if mStartLoc b < getSize b then Inl OverlappingCopy
     else Inr (True, b\<lparr>mBuffer := (mBuffer b)\<lparr>blk_mem := put (blk_mem (mBuffer b)) 0 (contents b)\<rparr>,
                       mStartLoc := 0, mEndLoc := getSize b\<rparr>))"
proof -
  note nat = buf_inv_nat [OF inv]
  have "0 < unat (mStartLoc b)" using lt by (simp add: word_less_nat_alt)
  then show ?thesis
    using nat lt
    by (auto simp: growBuffer_def Let_def memcpy_within_def memcpy_Inr contents_def
        word_less_nat_alt simp flip: unat_gt_0)
qed

lemma growBuffer_refuse:
  assumes "buf_inv b" and "unat n < 2 ^ 31" and "\<not> n < mStartLoc b"
    and "unat (mMaxGrowSize b) < new_max b n"
  shows "growBuffer b n = Inr (False, b)"
  using assms new_max_word [OF assms(1,2)]
  by (simp add: growBuffer_def Let_def word_less_nat_alt split: if_splits)

lemma growBuffer_realloc:
  assumes inv: "buf_inv b" and n: "unat n < 2 ^ 31" and nlt: "\<not> n < mStartLoc b"
    and fits: "new_max b n \<le> unat (mMaxGrowSize b)"
  shows "\<exists>blk m. growBuffer b n = Inr (True, b\<lparr>mMaxLen := m, mBuffer := blk,
                 mStartLoc := 0, mEndLoc := getSize b\<rparr>)
           \<and> unat m = new_max b n \<and> blk_size blk = new_max b n
           \<and> mslice (blk_mem blk) 0 (unat (getSize b)) = contents b"
proof -
  note nat = buf_inv_nat [OF inv]
  let ?m = "if mMaxLen b * 2 - mEndLoc b < n then mMaxLen b * 2 + n else mMaxLen b * 2"
  let ?new = "malloc (mHeap b) (unat ?m)"
  let ?blk = "?new\<lparr>blk_mem := put (blk_mem ?new) 0 (contents b)\<rparr>"
  have m: "unat ?m = new_max b n" by (rule new_max_word [OF inv n])
  have "unat (getSize b) \<le> new_max b n" using nat by (auto simp: new_max_def)
  then have cp: "(if getSize b \<noteq> 0
      then memcpy (?new, 0) (mBuffer b, unat (mStartLoc b)) (unat (getSize b)) else Inr ?new)
      = Inr ?blk"
    using nat m by (auto simp: memcpy_Inr malloc_def contents_def)
  have "\<not> mMaxGrowSize b < ?m" using fits m by (simp add: word_less_nat_alt)
  then have "growBuffer b n = Inr (True, b\<lparr>mMaxLen := ?m, mBuffer := ?blk,
                 mStartLoc := 0, mEndLoc := getSize b\<rparr>)"
    unfolding growBuffer_def Let_def using nlt cp by simp
  moreover have "blk_size ?blk = new_max b n" using m by (simp add: malloc_def)
  moreover have "mslice (blk_mem ?blk) 0 (unat (getSize b)) = contents b" by simp
  ultimately show ?thesis using m by blast
qed

lemma growBuffer_Inl:
  assumes "buf_inv b" and "unat n < 2 ^ 31" and "growBuffer b n = Inl e"
  shows "e = OverlappingCopy \<and> shift_overlaps b n"
proof (cases "n < mStartLoc b")
  case True
  with assms growBuffer_shift [OF assms(1) True] show ?thesis
    by (auto simp: shift_overlaps_def split: if_splits)
next
  case False
  with assms growBuffer_refuse [OF assms(1,2) False] growBuffer_realloc [OF assms(1,2) False]
  show ?thesis by (cases "new_max b n \<le> unat (mMaxGrowSize b)") auto
qed

text \<open>
  What a successful \<open>growBuffer\<close> guarantees: the live bytes are kept, and a \<open>True\<close> makes room.
\<close>

lemma growBuffer_Inr:
  assumes inv: "buf_inv b" and n: "unat n < 2 ^ 31" and r: "growBuffer b n = Inr (ok, b')"
  shows "buf_inv b' \<and> contents b' = contents b \<and> same_limits b b' \<and>
         (if ok then unat n \<le> unat (mMaxLen b') - unat (mEndLoc b') \<or> \<not> needs_grow b n
          else b' = b)"
proof (cases "n < mStartLoc b")
  case True
  note nat = buf_inv_nat [OF inv]
  from r growBuffer_shift [OF inv True] have eq: "ok = True"
    "b' = b\<lparr>mBuffer := (mBuffer b)\<lparr>blk_mem := put (blk_mem (mBuffer b)) 0 (contents b)\<rparr>,
            mStartLoc := 0, mEndLoc := getSize b\<rparr>"
    by (auto split: if_splits)
  have "buf_inv b'" using inv nat by (auto simp: eq buf_inv_def word_le_nat_alt)
  moreover have "contents b' = contents b" by (simp add: eq contents_def getSize_def)
  ultimately show ?thesis
    using nat True by (auto simp: eq same_limits_def word_less_nat_alt)
next
  case nlt: False
  note nat = buf_inv_nat [OF inv]
  show ?thesis
  proof (cases "new_max b n \<le> unat (mMaxGrowSize b)")
    case False
    with r growBuffer_refuse [OF inv n nlt] inv show ?thesis by simp
  next
    case True
    from growBuffer_realloc [OF inv n nlt True] r obtain blk m where eq: "ok = True"
      "b' = b\<lparr>mMaxLen := m, mBuffer := blk, mStartLoc := 0, mEndLoc := getSize b\<rparr>"
      and m: "unat m = new_max b n" "blk_size blk = new_max b n"
      and sl: "mslice (blk_mem blk) 0 (unat (getSize b)) = contents b"
      by auto
    have le: "unat (getSize b) \<le> new_max b n" "unat (mMaxLen b) \<le> new_max b n"
      "unat n \<le> new_max b n - unat (getSize b)"
      using nat by (auto simp: new_max_def)
    then have "buf_inv b'" using inv nat True m
      by (auto simp: eq buf_inv_def word_le_nat_alt)
    moreover have "contents b' = contents b" using sl by (simp add: eq contents_def getSize_def)
    ultimately show ?thesis using le m by (auto simp: eq same_limits_def)
  qed
qed

subsection \<open>Making room, appending, consuming\<close>

definition make_room :: "simple_buffer \<Rightarrow> u32 \<Rightarrow> simple_buffer result" where
  "make_room b n = (if n > mMaxLen b - mEndLoc b
                    then ebind (growBuffer b n) (\<lambda>(_, b). Inr b) else Inr b)"

lemma make_room_Inl:
  "buf_inv b \<Longrightarrow> unat n < 2 ^ 31 \<Longrightarrow> make_room b n = Inl e \<Longrightarrow>
   e = OverlappingCopy \<and> needs_grow b n \<and> shift_overlaps b n"
  by (auto simp: make_room_def needs_grow_def ebind_Inl_iff split: if_splits
      dest: growBuffer_Inl)

lemma make_room_Inr:
  "buf_inv b \<Longrightarrow> unat n < 2 ^ 31 \<Longrightarrow> make_room b n = Inr b' \<Longrightarrow>
   buf_inv b' \<and> contents b' = contents b \<and> same_limits b b'"
  by (auto simp: make_room_def ebind_Inr_iff split: if_splits dest: growBuffer_Inr)

lemma make_room_noop: "\<not> needs_grow b n \<Longrightarrow> make_room b n = Inr b"
  by (simp add: make_room_def needs_grow_def)

text \<open>Appending into the room there is.\<close>

lemma put_end_inv:
  assumes "buf_inv b" and "unat n = length xs" and "length xs \<le> unat (mMaxLen b) - unat (mEndLoc b)"
    and "b' = b\<lparr>mBuffer := (mBuffer b)\<lparr>blk_mem := put (blk_mem (mBuffer b)) (unat (mEndLoc b)) xs\<rparr>,
               mEndLoc := mEndLoc b + n\<rparr>"
  shows "buf_inv b' \<and> contents b' = contents b @ xs"
proof -
  note nat = buf_inv_nat [OF assms(1)]
  have e: "unat (mEndLoc b + n) = unat (mEndLoc b) + length xs"
    using nat assms(2,3) by (subst unat_add_u32) auto
  have inv: "buf_inv b'"
    using assms nat e by (auto simp: buf_inv_def word_le_nat_alt)
  have "unat (getSize b') = unat (mEndLoc b) + length xs - unat (mStartLoc b)"
    using buf_inv_nat(5) [OF inv] e assms(4) by simp
  then have "contents b' = contents b @ xs"
    using nat(1,5) assms(4) by (simp add: contents_def slice_put_end)
  with inv show ?thesis by blast
qed

text \<open>The live bytes and the room of a buffer, as one bounded byte queue.\<close>

lemma addBuffer_make_room:
  "addBuffer b data n = ebind (make_room b n) (\<lambda>b.
     if n \<le> mMaxLen b - mEndLoc b
     then ebind (case data of Some p \<Rightarrow> memcpy (mBuffer b, unat (mEndLoc b)) p (unat n)
                 | None \<Rightarrow> Inr (mBuffer b))
            (\<lambda>blk. Inr (True, b\<lparr>mBuffer := blk, mEndLoc := mEndLoc b + n\<rparr>))
     else Inr (False, b))"
  by (simp add: addBuffer_def make_room_def Let_def)

text \<open>
  \<open>addBuffer\<close> of the bytes at a valid address: all of them are appended, or none; the only
  fault is the overlapping copy of a compaction.
\<close>

lemma addBuffer_spec:
  assumes inv: "buf_inv b" and n: "unat n < 2 ^ 31" and rd: "blk_read p (unat n) = Inr xs"
  shows "case addBuffer b (Some p) n of
           Inl e \<Rightarrow> e = OverlappingCopy \<and> needs_grow b n \<and> shift_overlaps b n
         | Inr (ok, b') \<Rightarrow> buf_inv b' \<and> same_limits b b'
             \<and> contents b' = (if ok then contents b @ xs else contents b)"
proof (cases "make_room b n")
  case (Inl e)
  with make_room_Inl [OF inv n Inl] show ?thesis by (simp add: addBuffer_make_room)
next
  case (Inr b1)
  from make_room_Inr [OF inv n Inr] have b1: "buf_inv b1" "contents b1 = contents b"
    "same_limits b b1" by auto
  note nat = buf_inv_nat [OF b1(1)]
  have len: "unat n = length xs" using rd by (auto simp: blk_read_def split: if_splits)
  show ?thesis
  proof (cases "n \<le> mMaxLen b1 - mEndLoc b1")
    case True
    then have room: "length xs \<le> unat (mMaxLen b1) - unat (mEndLoc b1)"
      using nat len by (simp add: word_le_nat_alt)
    then have "memcpy (mBuffer b1, unat (mEndLoc b1)) p (unat n)
        = Inr ((mBuffer b1)\<lparr>blk_mem := put (blk_mem (mBuffer b1)) (unat (mEndLoc b1)) xs\<rparr>)"
      using rd nat by (auto simp: memcpy_def blk_write_def)
    with True Inr put_end_inv [OF b1(1) len room refl] b1(2,3) show ?thesis
      by (auto simp: addBuffer_make_room same_limits_def)
  next
    case False
    with Inr b1 show ?thesis by (simp add: addBuffer_make_room)
  qed
qed

text \<open>\<open>addBuffer\<close> after room has been made: the step \<open>poll\<close> and \<open>sendData\<close> rely on.\<close>

lemma addBuffer_null:
  assumes inv: "buf_inv b" and room: "\<not> needs_grow b n"
  shows "addBuffer b None n = Inr (True, b\<lparr>mEndLoc := mEndLoc b + n\<rparr>)"
  using assms by (auto simp: addBuffer_make_room make_room_noop needs_grow_def)

lemma confirmCapacity_make_room:
  "confirmCapacity b n = ebind (make_room b n) (\<lambda>b.
     Inr (if n \<le> mMaxLen b - mEndLoc b then Some (mBuffer b, unat (mEndLoc b)) else None, b))"
  by (simp add: confirmCapacity_def make_room_def Let_def)

lemma confirmCapacity_Inl:
  "buf_inv b \<Longrightarrow> unat n < 2 ^ 31 \<Longrightarrow> confirmCapacity b n = Inl e \<Longrightarrow>
   e = OverlappingCopy \<and> needs_grow b n \<and> shift_overlaps b n"
  by (auto simp: confirmCapacity_make_room ebind_Inl_iff dest: make_room_Inl)

lemma confirmCapacity_Inr:
  assumes "buf_inv b" and "unat n < 2 ^ 31" and "confirmCapacity b n = Inr (q, b')"
  shows "buf_inv b' \<and> contents b' = contents b \<and> same_limits b b' \<and>
         (case q of None \<Rightarrow> needs_grow b' n
          | Some p \<Rightarrow> \<not> needs_grow b' n \<and> p = (mBuffer b', unat (mEndLoc b')))"
  using assms make_room_Inr [OF assms(1,2)]
  by (auto simp: confirmCapacity_make_room ebind_Inr_iff needs_grow_def)

lemma consume_spec:
  assumes inv: "buf_inv b"
  shows "buf_inv (consume b n) \<and> same_limits b (consume b n) \<and>
         contents (consume b n) = drop (unat n) (contents b)"
proof -
  note nat = buf_inv_nat [OF inv]
  let ?k = "if n > mEndLoc b - mStartLoc b then mEndLoc b - mStartLoc b else n"
  let ?b = "b\<lparr>mStartLoc := mStartLoc b + ?k\<rparr>"
  have k: "unat ?k = min (unat n) (unat (getSize b))"
    by (auto simp: getSize_def word_less_nat_alt)
  have s: "unat (mStartLoc b + ?k) = unat (mStartLoc b) + unat ?k"
    using nat k by (subst unat_add_u32) auto
  have inv': "buf_inv ?b" using inv nat s k by (auto simp: buf_inv_def word_le_nat_alt)
  have "unat (getSize ?b) = unat (getSize b) - unat ?k"
    using buf_inv_nat(5) [OF inv'] nat s by simp
  then have c: "contents ?b = drop (unat n) (contents b)"
    using k s
    by (cases "unat n \<le> unat (getSize b)") (simp_all add: contents_def mem_simps)
  have "contents ?b = []" if "mStartLoc ?b = mEndLoc ?b"
    using that by (simp add: contents_def getSize_def)
  with inv' c show ?thesis
    by (auto simp: consume_def Let_def buf_inv_def same_limits_def contents_def getSize_def
        simp del: length_0_conv)
qed

lemma consume_empty_start: "contents (consume b n) = [] \<Longrightarrow> buf_inv b \<Longrightarrow> mStartLoc (consume b n) = 0"
  using getSize_0_iff [of "consume b n"] consume_spec [of b n]
  by (auto simp: consume_def Let_def getSize_def split: if_splits)

lemma consume_all: "buf_inv b \<Longrightarrow> contents (consume b (getSize b)) = []"
  by (simp add: consume_spec)

text \<open>When the source address is invalid too: the possible faults of \<open>addBuffer\<close>.\<close>

lemma addBuffer_fresh:
  assumes "buf_inv b" and "\<not> needs_grow b n" and "blk_read p (unat n) = Inr xs"
  shows "\<exists>b'. addBuffer b (Some p) n = Inr (True, b') \<and> buf_inv b' \<and> same_limits b b' \<and>
              contents b' = contents b @ xs"
proof -
  note nat = buf_inv_nat [OF assms(1)]
  have len: "unat n = length xs" using assms(3) by (auto simp: blk_read_def split: if_splits)
  have room: "length xs \<le> unat (mMaxLen b) - unat (mEndLoc b)"
    using assms(2) nat len by (simp add: needs_grow_def word_less_nat_alt not_less)
  then have "memcpy (mBuffer b, unat (mEndLoc b)) p (unat n)
      = Inr ((mBuffer b)\<lparr>blk_mem := put (blk_mem (mBuffer b)) (unat (mEndLoc b)) xs\<rparr>)"
    using assms(3) nat by (auto simp: memcpy_def blk_write_def)
  with put_end_inv [OF assms(1) len room refl] assms(2) show ?thesis
    by (auto simp: addBuffer_make_room make_room_noop same_limits_def needs_grow_def not_less)
qed

text \<open>
  A buffer that has not been consumed from never refuses an append, as long as three times the
  bytes it holds afterwards stay within the growth limit.
\<close>

definition append_room :: "simple_buffer \<Rightarrow> nat \<Rightarrow> bool" where
  "append_room b n \<longleftrightarrow> buf_inv b \<and> mStartLoc b = 0 \<and>
     3 * (length (contents b) + n) \<le> unat (mMaxGrowSize b)"

lemma append_roomD:
  "append_room b n \<Longrightarrow> buf_inv b" "append_room b n \<Longrightarrow> mStartLoc b = 0"
  "append_room b n \<Longrightarrow> m \<le> n \<Longrightarrow> append_room b m"
  by (auto simp: append_room_def)

text \<open>The same room counted from the start of the buffer, which does not shrink when bytes are added or taken.\<close>

definition total_room :: "simple_buffer \<Rightarrow> nat \<Rightarrow> bool" where
  "total_room b n \<longleftrightarrow> buf_inv b \<and> mStartLoc b = 0 \<and> 3 * n \<le> unat (mMaxGrowSize b)"

lemma append_room_total: "append_room b n = total_room b (length (contents b) + n)"
  by (simp add: append_room_def total_room_def)

lemma total_room_append: "total_room b n \<Longrightarrow> length (contents b) + k \<le> n \<Longrightarrow> append_room b k"
  by (auto simp: append_room_def total_room_def)

lemma total_room_empty: "total_room b n \<Longrightarrow> contents b = [] \<Longrightarrow> k \<le> n \<Longrightarrow> append_room b k"
  using total_room_append [of b n k] by simp

lemma total_room_keep:
  "total_room b n \<Longrightarrow> same_limits b b' \<Longrightarrow> buf_inv b' \<Longrightarrow> mStartLoc b' = 0 \<Longrightarrow> total_room b' n"
  by (simp add: total_room_def same_limits_def)

lemma make_room_start:
  "mStartLoc b = 0 \<Longrightarrow> make_room b n = Inr b' \<Longrightarrow> mStartLoc b' = 0"
  by (auto simp: make_room_def growBuffer_def Let_def ebind_Inr_iff split: if_splits)

lemma addBuffer_start:
  "mStartLoc b = 0 \<Longrightarrow> addBuffer b p n = Inr (ok, b') \<Longrightarrow> mStartLoc b' = 0"
  using make_room_start [of b n] by (auto simp: addBuffer_make_room ebind_Inr_iff split: if_splits)

lemma make_room_total:
  assumes "append_room b (unat n)"
  shows "\<exists>b'. make_room b n = Inr b' \<and> \<not> needs_grow b' n"
proof (cases "needs_grow b n")
  case True
  have inv: "buf_inv b" and st: "mStartLoc b = 0"
    and room: "3 * (unat (getSize b) + unat n) \<le> unat (mMaxGrowSize b)"
    using assms by (auto simp: append_room_def)
  note nat = buf_inv_nat [OF inv]
  have "unat (mMaxLen b) < unat (mEndLoc b) + unat n"
    using True nat by (simp add: needs_grow_def word_less_nat_alt)
  then have fits: "new_max b n \<le> unat (mMaxGrowSize b)" using room nat st by (auto simp: new_max_def)
  have n: "unat n < 2 ^ 31" using room nat by auto
  have le: "unat (getSize b) + unat n \<le> new_max b n" using nat by (auto simp: new_max_def)
  from growBuffer_realloc [OF inv n _ fits] st obtain blk m where
    g: "growBuffer b n = Inr (True, b\<lparr>mMaxLen := m, mBuffer := blk, mStartLoc := 0, mEndLoc := getSize b\<rparr>)"
    and m: "unat m = new_max b n" by auto
  let ?b = "b\<lparr>mMaxLen := m, mBuffer := blk, mStartLoc := 0, mEndLoc := getSize b\<rparr>"
  have "make_room b n = Inr ?b" using True g by (simp add: make_room_def needs_grow_def)
  moreover have "unat (m - getSize b) = unat m - unat (getSize b)"
    using le m by (intro unat_sub_le) (simp add: word_le_nat_alt)
  then have "\<not> needs_grow ?b n" using le m by (simp add: needs_grow_def word_less_nat_alt)
  ultimately show ?thesis by blast
next
  case False
  then show ?thesis using make_room_noop by blast
qed

lemma addBuffer_room:
  assumes room: "append_room b (unat n + k)" and rd: "blk_read p (unat n) = Inr xs"
  shows "\<exists>b'. addBuffer b (Some p) n = Inr (True, b') \<and> append_room b' k \<and> same_limits b b'
           \<and> contents b' = contents b @ xs"
proof -
  have inv: "buf_inv b" and st: "mStartLoc b = 0" and r: "append_room b (unat n)"
    using append_roomD [OF room] by auto
  have n: "unat n < 2 ^ 31" using r buf_inv_nat(4) [OF inv] by (simp add: append_room_def)
  obtain b1 where b1: "make_room b n = Inr b1" "\<not> needs_grow b1 n"
    using make_room_total [OF r] by blast
  from make_room_Inr [OF inv n b1(1)] have i1: "buf_inv b1" "contents b1 = contents b"
    "same_limits b b1" by auto
  from addBuffer_fresh [OF i1(1) b1(2) rd] obtain b' where
    a: "addBuffer b1 (Some p) n = Inr (True, b')" and b': "buf_inv b'" "same_limits b1 b'"
    "contents b' = contents b @ xs" using i1(2) by auto
  have "addBuffer b (Some p) n = Inr (True, b')"
    using a b1 by (simp add: addBuffer_make_room make_room_noop)
  moreover from addBuffer_start [OF st this] have "mStartLoc b' = 0" .
  moreover have "length xs = unat n" using rd by (auto simp: blk_read_def split: if_splits)
  then have "unat (getSize b') = unat (getSize b) + unat n"
    unfolding getSize_contents b'(3) by simp
  ultimately show ?thesis
    using b' i1(3) room by (auto simp: append_room_def same_limits_def)
qed

section \<open>The buffer as a byte queue\<close>

text \<open>
  How \<open>sendData\<close> and \<open>poll\<close> use a buffer: append a byte array with \<open>addBuffer\<close>, look at the
  oldest bytes through \<open>getData\<close> and drop them with \<open>consume\<close>.
\<close>

definition buffer_push :: "simple_buffer \<Rightarrow> u8 list \<Rightarrow> (nat \<times> simple_buffer) result" where
  "buffer_push b xs =
     ebind (addBuffer b (Some (bytes_ptr xs)) (word_of_nat (length xs)))
       (\<lambda>(ok, b). Inr (if ok then length xs else 0, b))"

definition buffer_pop :: "simple_buffer \<Rightarrow> nat \<Rightarrow> (u8 list \<times> simple_buffer) result" where
  "buffer_pop b n =
     (let (p, dataLen) = getData b
      in ebind (blk_read p (min n (unat dataLen))) (\<lambda>xs. Inr (xs, consume b (word_of_nat n))))"

lemma read_getData:
  "buf_inv b \<Longrightarrow> k \<le> unat (getSize b) \<Longrightarrow>
   blk_read (mBuffer b, unat (mStartLoc b)) k = Inr (take k (contents b))"
  using buf_inv_nat [of b] by (simp add: blk_read_def contents_def take_slice)

lemma buffer_pop_spec:
  "buf_inv b \<Longrightarrow> n < 2 ^ 31 \<Longrightarrow>
   \<exists>b'. buffer_pop b n = Inr (take n (contents b), b') \<and> buf_inv b' \<and>
        contents b' = drop n (contents b)"
  using consume_spec [of b "word_of_nat n"]
  by (auto simp: buffer_pop_def getData_def read_getData min_def)

lemma buffer_push_spec:
  assumes "buf_inv b" and "length xs < 2 ^ 31" and "buffer_push b xs = Inr (k, b')"
  shows "buf_inv b' \<and> k \<le> length xs \<and> contents b' = contents b @ take k xs"
  using assms addBuffer_spec [of b "word_of_nat (length xs)" "bytes_ptr xs" xs]
  by (auto simp: buffer_push_def ebind_Inr_iff split: if_splits)

interpretation buffer_fifo: byte_fifo buf_inv contents buffer_push buffer_pop "2 ^ 31"
proof (unfold_locales, goal_cases)
  case (1 q xs k q')
  then show ?case using buffer_push_spec by auto
next
  case (2 q n ys q')
  with buffer_pop_spec [OF 2(1,2)] show ?case by auto
qed

section \<open>Properties\<close>


definition zero_heap :: allocator where
  "zero_heap = (\<lambda>_. (0, \<lambda>_. 0))"


text \<open>A buffer that has not been consumed from since it was last empty accepts every append as long
  as three times the bytes it then holds stay within the growth limit.\<close>
theorem addBuffer_accepts:
  assumes "buf_inv b" and "mStartLoc b = 0" and "blk_read p (unat n) = Inr xs"
    and "3 * (length (contents b) + unat n) \<le> unat (mMaxGrowSize b)"
  shows "\<exists>b'. addBuffer b (Some p) n = Inr (True, b') \<and> contents b' = contents b @ xs"
proof -
  from assms have "append_room b (unat n + 0)" by (simp add: append_room_def)
  from addBuffer_room [OF this assms(3)] show ?thesis by blast
qed

lemma addBuffer_accepts_witness:
  "\<exists>b'. addBuffer (create_buffer zero_heap 2 64) (Some (bytes_ptr [1, 2, 3])) 3 = Inr (True, b')
     \<and> contents b' = contents (create_buffer zero_heap 2 64) @ [1, 2, 3]"
  by (rule addBuffer_accepts) (simp_all add: buf_inv_create, simp_all add: create_buffer_def reset_def)

text \<open>C35. \<open>growBuffer\<close> copies between overlapping regions exactly when the request is smaller than the
  free space in front and that space is smaller than the live bytes.\<close>
theorem growBuffer_overlap_iff:
  assumes "buf_inv b" and "unat n < 2 ^ 31"
  shows "growBuffer b n = Inl OverlappingCopy \<longleftrightarrow> n < mStartLoc b \<and> mStartLoc b < getSize b"
proof (cases "n < mStartLoc b")
  case True
  with growBuffer_shift [OF assms(1)] show ?thesis by auto
next
  case False
  with growBuffer_Inl [OF assms] show ?thesis by (auto simp: shift_overlaps_def)
qed

definition lagging_buffer :: simple_buffer where
  "lagging_buffer =
     \<lparr>mBuffer = \<lparr>blk_addr = 0, blk_size = 8, blk_mem = word_of_nat\<rparr>, mStartLoc = 2, mEndLoc = 8,
      mMaxLen = 8, mMaxGrowSize = 64, mDefaultSize = 8, mHeap = zero_heap\<rparr>"

lemma growBuffer_overlap_witness:
  "growBuffer lagging_buffer 1 = Inl OverlappingCopy"
proof -
  have "buf_inv lagging_buffer" by (simp add: buf_inv_def lagging_buffer_def)
  from growBuffer_overlap_iff [OF this, of 1] show ?thesis by (simp add: lagging_buffer_def getSize_def)
qed

text \<open>When \<open>growBuffer\<close> returns, the live bytes and the invariant are kept, and \<open>true\<close> means there is
  room for the request (or there was before).\<close>
lemma growBuffer_keeps_contents:
  assumes "buf_inv b" and "unat n < 2 ^ 31" and "growBuffer b n = Inr (ok, b')"
  shows "buf_inv b' \<and> contents b' = contents b \<and>
         (if ok then unat n \<le> unat (mMaxLen b') - unat (mEndLoc b') \<or> \<not> needs_grow b n else b' = b)"
  using growBuffer_Inr [OF assms] by simp

text \<open>\<open>consume\<close> drops the oldest bytes, at most as many as there are, and keeps the invariant.\<close>
theorem consume_drops:
  assumes "buf_inv b"
  shows "buf_inv (consume b n) \<and> contents (consume b n) = drop (unat n) (contents b)"
  using consume_spec [OF assms] by blast

lemma consume_drops_witness:
  "contents (consume lagging_buffer 4) = drop 4 (contents lagging_buffer)"
  using consume_drops [of lagging_buffer 4] by (simp add: buf_inv_def lagging_buffer_def)



text \<open>\<open>shrinkBuffer\<close> does not keep the live bytes: it copies them to a block it drops, and leaves the
  buffer with the first \<open>getSize\<close> bytes of its old block.\<close>
lemma shrinkBuffer_loses_contents:
  assumes "buf_inv b"
  shows "\<exists>b'. shrinkBuffer b = Inr (mMaxLen b', b') \<and> mBuffer b' = mBuffer b
           \<and> contents b' = mslice (blk_mem (mBuffer b)) 0 (unat (getSize b))"
proof -
  note nat = buf_inv_nat [OF assms]
  let ?n = "if getSize b > mDefaultSize b then getSize b else mDefaultSize b"
  have "unat (getSize b) \<le> unat ?n" by (auto simp: word_less_nat_alt)
  then show ?thesis
    using nat
    by (auto simp: shrinkBuffer_def Let_def memcpy_Inr malloc_def contents_def getSize_def)
qed

lemma shrinkBuffer_loses_contents_witness:
  "contents lagging_buffer = [2, 3, 4, 5, 6, 7] \<and>
   (\<exists>b'. shrinkBuffer lagging_buffer = Inr (mMaxLen b', b') \<and> contents b' = [0, 1, 2, 3, 4, 5])"
proof -
  have inv: "buf_inv lagging_buffer" by (simp add: buf_inv_def lagging_buffer_def)
  have "contents lagging_buffer = [2, 3, 4, 5, 6, 7]"
    "mslice (blk_mem (mBuffer lagging_buffer)) 0 (unat (getSize lagging_buffer)) = [0, 1, 2, 3, 4, 5]"
    by (simp_all add: contents_def lagging_buffer_def getSize_def mslice_def upt_rec)
  with shrinkBuffer_loses_contents [OF inv] show ?thesis by auto
qed

end
