(* ===== verification/FastXOR.thy ===== *)
theory FastXOR
  imports Prelude
begin

unbundle bit_operations_syntax

text \<open>
  \<open>ext/easywsclient/FastXOR.cpp\<close>: XOR a range of memory in place with a four-byte key, byte by
  byte (\<open>xorBytes\<close>, \<open>slowXOR\<close>) or, on a little-endian machine, eight bytes at a time from the
  first aligned address on (\<open>fastXOR\<close>). The main result is that both compute the same memory,
  the one of the closed form \<open>xor_range\<close>, for every address, length and byte order.
  The \<open>DEBUG_PRINT\<close> output is compiled out in the sources and is not modelled; bounds are
  checked by the callers (see \<open>block_xor\<close>).
\<close>

section \<open>The code\<close>

datatype endian = LittleEndian | BigEndian

text \<open>The bytes of an \<open>int32_t\<close> in memory, lowest address first.\<close>

definition int32_bytes :: "endian \<Rightarrow> u32 \<Rightarrow> u8 list" where
  "int32_bytes e w =
     (let bs = map (\<lambda>k. ucast (drop_bit (8 * k) w)) [0, 1, 2, 3]
      in case e of LittleEndian \<Rightarrow> bs | BigEndian \<Rightarrow> rev bs)"

definition isBigEndian :: "endian \<Rightarrow> bool" where
  "isBigEndian e \<longleftrightarrow> hd (int32_bytes e 1) = 0"

lemma u32_less_Suc: "i < n \<Longrightarrow> unat (i + 1) = Suc (unat i)" for i n :: u32
  using unat_add_u32 [of i 1] less_le_trans [of "unat i" "unat n" 4294967295]
    unat_u32_less [of n] unfolding word_less_nat_alt by simp

text \<open>The loop of \<open>xorBytes\<close>, from index \<open>i\<close> on; \<open>p\<close> is the offset \<open>data\<close> points to.\<close>

function xorBytes_loop :: "mem \<Rightarrow> nat \<Rightarrow> u32 \<Rightarrow> u8 list \<Rightarrow> u32 \<Rightarrow> mem \<times> u32" where
  "xorBytes_loop m p dataLen key i =
     (if i < dataLen
      then xorBytes_loop (m(p + unat i := m (p + unat i) XOR key ! unat (i AND 3)))
             p dataLen key (i + 1)
      else (m, i))"
  by pat_completeness auto
termination
proof (relation "measure (\<lambda>(m, p, n, key, i). unat n - unat i)", goal_cases)
  case 1
  show ?case by simp
next
  case (2 m p n key i)
  then show ?case by (simp add: u32_less_Suc word_less_nat_alt)
qed

declare xorBytes_loop.simps [simp del]

definition xorBytes :: "mem \<Rightarrow> nat \<Rightarrow> u32 \<Rightarrow> u8 list \<Rightarrow> mem \<times> u32" where
  "xorBytes m p dataLen key =
     (let (m', i) = xorBytes_loop m p dataLen key 0 in (m', i AND 3))"

definition slowXOR :: "mem \<Rightarrow> nat \<Rightarrow> u32 \<Rightarrow> u8 list \<Rightarrow> mem" where
  "slowXOR m p dataLen key = fst (xorBytes m p dataLen key)"

text \<open>A \<open>uint64_t\<close> access on a little-endian machine.\<close>

definition load64 :: "mem \<Rightarrow> nat \<Rightarrow> u64" where
  "load64 m p =
     foldr (\<lambda>k w. push_bit (8 * k) (ucast (m (p + k))) OR w) [0, 1, 2, 3, 4, 5, 6, 7] 0"

definition store64 :: "mem \<Rightarrow> nat \<Rightarrow> u64 \<Rightarrow> mem" where
  "store64 m p w =
     put m p (map (\<lambda>k. ucast (drop_bit (8 * k) w)) [0, 1, 2, 3, 4, 5, 6, 7])"

text \<open>The loop \<open>scan64[i] ^= mask\<close>, from block \<open>i\<close> on.\<close>

function xor_blocks_loop :: "mem \<Rightarrow> nat \<Rightarrow> u32 \<Rightarrow> u64 \<Rightarrow> u32 \<Rightarrow> mem" where
  "xor_blocks_loop m scan64 blockCount mask64 i =
     (if i < blockCount
      then xor_blocks_loop
             (store64 m (scan64 + 8 * unat i) (load64 m (scan64 + 8 * unat i) XOR mask64))
             scan64 blockCount mask64 (i + 1)
      else m)"
  by pat_completeness auto
termination
proof (relation "measure (\<lambda>(m, p, n, w, i). unat n - unat i)", goal_cases)
  case 1
  show ?case by simp
next
  case (2 m p n w i)
  then show ?case by (simp add: u32_less_Suc word_less_nat_alt)
qed

declare xor_blocks_loop.simps [simp del]

text \<open>
  The second half of \<open>fastXOR\<close>, from the aligned address \<open>scan\<close> on: whole blocks of eight
  bytes with the doubled key, then the remaining bytes.
\<close>

definition fastXOR_aligned :: "mem \<Rightarrow> nat \<Rightarrow> u32 \<Rightarrow> u8 list \<Rightarrow> mem" where
  "fastXOR_aligned m scan dataLen alignKey =
     (let blockCount = dataLen div 8;
          (m, scan, dataLen) =
            (if blockCount \<noteq> 0 then
               let mask64 = load64 (put (put (\<lambda>_. 0) 0 alignKey) 4 alignKey) 0
               in (xor_blocks_loop m scan blockCount mask64 0,
                   scan + 8 * unat blockCount, dataLen - blockCount * 8)
             else (m, scan, dataLen))
      in if dataLen \<noteq> 0 then fst (xorBytes m scan dataLen alignKey) else m)"

text \<open>
  \<open>fastXOR\<close>. \<open>a\<close> is the address of cell 0 of the memory, so that the \<open>data\<close> pointer is the
  address \<open>a + p\<close>; \<open>e\<close> is the byte order of the machine.
\<close>

definition fastXOR :: "endian \<Rightarrow> u64 \<Rightarrow> mem \<Rightarrow> nat \<Rightarrow> u32 \<Rightarrow> u8 list \<Rightarrow> mem" where
  "fastXOR e a m p dataLen key =
     (if isBigEndian e then fst (xorBytes m p dataLen key)
      else
        let startAddress = a + word_of_nat p;
            skipBytes = ucast (startAddress AND 7) :: u32
        in if skipBytes \<noteq> 0 then
             let skipBytes = 8 - skipBytes;
                 skipBytes = (if skipBytes > dataLen then dataLen else skipBytes);
                 (m, keyIndex) = xorBytes m p skipBytes key;
                 alignKey = [key ! unat ((keyIndex + 0) AND 3), key ! unat ((keyIndex + 1) AND 3),
                             key ! unat ((keyIndex + 2) AND 3), key ! unat ((keyIndex + 3) AND 3)]
             in fastXOR_aligned m (p + unat skipBytes) (dataLen - skipBytes) alignKey
           else fastXOR_aligned m p dataLen [key ! 0, key ! 1, key ! 2, key ! 3])"

text \<open>
  A call of \<open>fastXOR\<close> on a range of a block. The source does not check the range; a range
  that leaves the block is an out-of-bounds write.
\<close>

definition block_xor :: "endian \<Rightarrow> block \<Rightarrow> nat \<Rightarrow> u32 \<Rightarrow> u8 list \<Rightarrow> block result" where
  "block_xor e b p dataLen key =
     (if p + unat dataLen \<le> blk_size b
      then Inr (b\<lparr>blk_mem := fastXOR e (blk_addr b) (blk_mem b) p dataLen key\<rparr>)
      else Inl OutOfBounds)"

section \<open>The reference: a closed form\<close>

definition xor_range :: "mem \<Rightarrow> nat \<Rightarrow> nat \<Rightarrow> u8 list \<Rightarrow> mem" where
  "xor_range m p n key =
     (\<lambda>a. if p \<le> a \<and> a < p + n then m a XOR key ! ((a - p) mod 4) else m a)"

definition xor_key :: "u8 list \<Rightarrow> u8 list \<Rightarrow> u8 list" where
  "xor_key key xs = map (\<lambda>i. xs ! i XOR key ! (i mod 4)) [0..<length xs]"

text \<open>The key as seen from \<open>k\<close> bytes further on.\<close>

definition rotate_key :: "nat \<Rightarrow> u8 list \<Rightarrow> u8 list" where
  "rotate_key k key = map (\<lambda>j. key ! ((k + j) mod 4)) [0, 1, 2, 3]"

lemma length_xor_key [simp]: "length (xor_key key xs) = length xs"
  by (simp add: xor_key_def)

lemma nth_xor_key [simp]: "i < length xs \<Longrightarrow> xor_key key xs ! i = xs ! i XOR key ! (i mod 4)"
  by (simp add: xor_key_def)

lemma less_4_cases: "j < 4 \<Longrightarrow> j = 0 \<or> j = 1 \<or> j = 2 \<or> j = (3 :: nat)"
  by auto

lemma xor_key_involution: "xor_key key (xor_key key xs) = xs"
  by (rule nth_equalityI) (simp_all add: xor.assoc)

lemma xor_key_zero: "xor_key [0, 0, 0, 0] xs = xs"
proof (rule nth_equalityI)
  fix i assume i: "i < length (xor_key [0, 0, 0, 0] xs)"
  have "[0, 0, 0, 0 :: u8] ! j = 0" if "j < 4" for j
    using less_4_cases [OF that] by auto
  from this [of "i mod 4"] i show "xor_key [0, 0, 0, 0] xs ! i = xs ! i" by simp
qed simp

lemma length_rotate_key [simp]: "length (rotate_key k key) = 4"
  by (simp add: rotate_key_def)

lemma rotate_key_nth: "j < 4 \<Longrightarrow> rotate_key k key ! j = key ! ((k + j) mod 4)"
  by (drule less_4_cases) (auto simp: rotate_key_def)

lemma slice_xor_range_same: "mslice (xor_range m p n key) p n = xor_key key (mslice m p n)"
  by (rule nth_equalityI) (simp_all add: xor_range_def)

lemma slice_xor_range_disjoint:
  "q + k \<le> p \<or> p + n \<le> q \<Longrightarrow> mslice (xor_range m p n key) q k = mslice m q k"
  by (auto intro!: slice_eqI simp: xor_range_def)

lemma xor_range_0 [simp]: "xor_range m p 0 key = m"
  by (auto simp: xor_range_def fun_eq_iff)

lemma xor_range_add:
  "xor_range (xor_range m p k key) (p + k) n (rotate_key k key) = xor_range m p (k + n) key"
proof (rule ext)
  fix a
  have "rotate_key k key ! ((a - (p + k)) mod 4) = key ! ((a - p) mod 4)" if "p + k \<le> a"
  proof -
    from that have "(k + (a - (p + k)) mod 4) mod 4 = (a - p) mod 4"
      by (simp add: mod_add_right_eq)
    then show ?thesis by (simp add: rotate_key_nth)
  qed
  then show "xor_range (xor_range m p k key) (p + k) n (rotate_key k key) a =
             xor_range m p (k + n) key a"
    by (auto simp: xor_range_def)
qed

section \<open>Correctness\<close>

lemma xorBytes_loop_eq:
  "i \<le> dataLen \<Longrightarrow> xorBytes_loop m p dataLen key i =
     ((\<lambda>a. if p + unat i \<le> a \<and> a < p + unat dataLen then m a XOR key ! ((a - p) mod 4)
           else m a), dataLen)"
proof (induction m p dataLen key i rule: xorBytes_loop.induct)
  case (1 m p n key i)
  show ?case
  proof (cases "i < n")
    case True
    let ?m = "m(p + unat i := m (p + unat i) XOR key ! unat (i AND 3))"
    from True have "i + 1 \<le> n" by (simp add: word_nat u32_less_Suc)
    with 1 True have "xorBytes_loop m p n key i =
        ((\<lambda>a. if p + unat (i + 1) \<le> a \<and> a < p + unat n then ?m a XOR key ! ((a - p) mod 4)
              else ?m a), n)"
      by (simp add: xorBytes_loop.simps [of m p n key i] fun_upd_def)
    moreover have "(if p + unat (i + 1) \<le> a \<and> a < p + unat n then ?m a XOR key ! ((a - p) mod 4)
        else ?m a) = (if p + unat i \<le> a \<and> a < p + unat n then m a XOR key ! ((a - p) mod 4)
        else m a)" for a
      using True by (auto simp: u32_less_Suc unat_and_low_bits [of i] word_less_nat_alt
          )
    ultimately show ?thesis by presburger
  next
    case False
    with "1.prems" show ?thesis
      by (subst xorBytes_loop.simps) (auto simp: fun_eq_iff)
  qed
qed

lemma xorBytes_eq:
  "xorBytes m p dataLen key = (xor_range m p (unat dataLen) key, dataLen AND 3)"
  by (simp add: xorBytes_def xorBytes_loop_eq xor_range_def)

lemma less_8_cases:
  "j < 8 \<Longrightarrow> j = 0 \<or> j = 1 \<or> j = 2 \<or> j = 3 \<or> j = 4 \<or> j = 5 \<or> j = 6 \<or> j = (7 :: nat)"
  by auto

lemma nth_upto_7: "j < 8 \<Longrightarrow> [0, Suc 0, 2, 3, 4, 5, 6, 7] ! j = j"
  by (drule less_8_cases) auto

lemma not_bit_u8: "8 \<le> n \<Longrightarrow> \<not> bit (w :: u8) n"
  by (auto dest: bit_imp_le_length)

lemma byte_of_load64: "j < 8 \<Longrightarrow> ucast (drop_bit (8 * j) (load64 m p)) = m (p + j)"
proof (rule bit_word_eqI)
  fix n
  assume j: "j < 8" and n: "n < LENGTH(8)"
  then have n8: "n < 8" by simp
  show "bit (ucast (drop_bit (8 * j) (load64 m p)) :: u8) n = bit (m (p + j)) n"
    using less_8_cases [OF j] n8
    by (elim disjE) (simp_all add: load64_def bit_simps not_bit_u8)
qed

lemma store64_apply:
  "store64 m p w a =
     (if p \<le> a \<and> a < p + 8 then ucast (drop_bit (8 * (a - p)) w) else m a)"
proof -
  have "map (\<lambda>k. ucast (drop_bit (8 * k) w)) [0, 1, 2, 3, 4, 5, 6, 7] ! j
        = (ucast (drop_bit (8 * j) w) :: u8)" if "j < 8" for j
    using that by (subst nth_map) (simp_all add: nth_upto_7)
  then show ?thesis
    unfolding store64_def put_def by auto
qed

lemma store64_xor:
  "store64 m p (load64 m p XOR w) =
     (\<lambda>a. if p \<le> a \<and> a < p + 8 then m a XOR ucast (drop_bit (8 * (a - p)) w) else m a)"
proof (rule ext)
  fix a
  show "store64 m p (load64 m p XOR w) a =
     (if p \<le> a \<and> a < p + 8 then m a XOR ucast (drop_bit (8 * (a - p)) w) else m a)"
    using byte_of_load64 [of "a - p" m p] by (auto simp: store64_apply unsigned_xor_eq)
qed

text \<open>A 64-bit mask whose bytes repeat a four-byte key.\<close>

definition repeats_key :: "u64 \<Rightarrow> u8 list \<Rightarrow> bool" where
  "repeats_key w key \<longleftrightarrow> (\<forall>j<8. ucast (drop_bit (8 * j) w) = key ! (j mod 4))"

lemma repeats_key_load64:
  assumes "length key = 4"
  shows "repeats_key (load64 (put (put (\<lambda>_. 0) 0 key) 4 key) 0) key"
  unfolding repeats_key_def
proof (intro allI impI)
  fix j :: nat
  assume j: "j < 8"
  have "put (put (\<lambda>_. 0) 0 key) 4 key j = key ! (j mod 4)"
    using less_8_cases [OF j] assms by (auto simp: put_def)
  with j show "ucast (drop_bit (8 * j) (load64 (put (put (\<lambda>_. 0) 0 key) 4 key) 0)) = key ! (j mod 4)"
    by (simp add: byte_of_load64)
qed

lemma xor_blocks_loop_eq:
  "i \<le> blockCount \<Longrightarrow> repeats_key w key \<Longrightarrow> xor_blocks_loop m s blockCount w i =
     (\<lambda>a. if s + 8 * unat i \<le> a \<and> a < s + 8 * unat blockCount then m a XOR key ! ((a - s) mod 4)
          else m a)"
proof (induction m s blockCount w i rule: xor_blocks_loop.induct)
  case (1 m s n w i)
  show ?case
  proof (cases "i < n")
    case True
    let ?q = "s + 8 * unat i"
    let ?m = "\<lambda>a. if ?q \<le> a \<and> a < ?q + 8 then m a XOR ucast (drop_bit (8 * (a - ?q)) w) else m a"
    from True have "i + 1 \<le> n" by (simp add: word_nat u32_less_Suc)
    with 1 [unfolded store64_xor] True have "xor_blocks_loop m s n w i =
        (\<lambda>a. if s + 8 * unat (i + 1) \<le> a \<and> a < s + 8 * unat n then ?m a XOR key ! ((a - s) mod 4)
             else ?m a)"
      by (simp add: xor_blocks_loop.simps [of m s n w i] store64_xor)
    moreover have "ucast (drop_bit (8 * (a - ?q)) w) = key ! ((a - s) mod 4)"
      if "?q \<le> a" "a < ?q + 8" for a
    proof -
      from that(1) obtain d where d: "a = ?q + d" by (auto dest: le_Suc_ex)
      have "(8 * unat i + d) mod 4 = d mod 4" by presburger
      with d have "(a - ?q) mod 4 = (a - s) mod 4" by simp
      with that "1.prems"(2) show ?thesis by (simp add: repeats_key_def)
    qed
    ultimately show ?thesis using True
      by (auto simp: fun_eq_iff u32_less_Suc word_less_nat_alt)
  next
    case False
    with "1.prems" show ?thesis
      by (subst xor_blocks_loop.simps) (auto simp: fun_eq_iff)
  qed
qed

lemma xor_blocks_eq:
  "repeats_key w key \<Longrightarrow> xor_blocks_loop m s n w 0 = xor_range m s (8 * unat n) key"
  by (simp add: xor_blocks_loop_eq xor_range_def)

lemma xor_range_cong:
  "(\<And>j. j < 4 \<Longrightarrow> key ! j = key' ! j) \<Longrightarrow> xor_range m p n key = xor_range m p n key'"
  by (auto simp: xor_range_def fun_eq_iff)

lemma fastXOR_aligned_eq:
  assumes "length key = 4"
  shows "fastXOR_aligned m p n key = xor_range m p (unat n) key"
proof -
  let ?b = "n div 8"
  have b: "unat ?b = unat n div 8" by (simp add: unat_div_distrib)
  have r: "n - ?b * 8 = n mod 8" by (metis minus_div_mult_eq_mod)
  have rn: "unat (n mod 8) = unat n mod 8" by (simp add: unat_mod_distrib)
  have "xor_range m p (unat n) key
      = xor_range (xor_range m p (8 * unat ?b) key) (p + 8 * unat ?b) (unat (n mod 8)) key"
  proof -
    have "rotate_key (8 * unat ?b) key ! j = key ! j" if "j < 4" for j
    proof -
      have "(8 * unat ?b + j) mod 4 = j" using that by presburger
      then show ?thesis by (simp only: rotate_key_nth [OF that])
    qed
    then have "xor_range m' q k (rotate_key (8 * unat ?b) key) = xor_range m' q k key" for m' q k
      by (rule xor_range_cong)
    moreover have "8 * unat ?b + unat (n mod 8) = unat n" by (simp add: b rn)
    ultimately show ?thesis
      using xor_range_add [of m p "8 * unat ?b" key "unat (n mod 8)"] by simp
  qed
  then show ?thesis
    using repeats_key_load64 [OF assms]
    by (auto simp: fastXOR_aligned_def Let_def xorBytes_eq xor_blocks_eq r)
qed

lemma isBigEndian_iff [simp]: "isBigEndian e \<longleftrightarrow> e = BigEndian"
  by (cases e) (simp_all add: isBigEndian_def int32_bytes_def)

lemma align_key_eq:
  "[key ! unat (((n AND 3) + 0) AND 3), key ! unat (((n AND 3) + 1) AND 3),
    key ! unat (((n AND 3) + 2) AND 3), key ! unat (((n AND 3) + 3) AND 3)]
   = rotate_key (unat n) key" for n :: u32
proof -
  have "unat (((n AND 3) + word_of_nat j) AND 3) = (unat n + j) mod 4" if "j < 4" for j
  proof -
    have "unat (word_of_nat j :: u32) = j" using that by (simp add: unat_of_nat)
    moreover have "unat (n AND 3) < 4" unfolding unat_and_low_bits by simp
    ultimately have "unat ((n AND 3) + word_of_nat j) = unat (n AND 3) + j"
      using that by (subst unat_add_u32) auto
    then show ?thesis by (simp only: unat_and_low_bits mod_add_left_eq)
  qed
  from this [of 0] this [of 1] this [of 2] this [of 3] show ?thesis
    by (simp add: rotate_key_def)
qed

lemma fastXOR_eq:
  "fastXOR e a m p dataLen key = xor_range m p (unat dataLen) key"
proof (cases e)
  case BigEndian
  then show ?thesis by (simp add: fastXOR_def xorBytes_eq)
next
  case LittleEndian
  define skip0 where "skip0 = (ucast ((a + word_of_nat p) AND 7) :: u32)"
  define skip where "skip = (if 8 - skip0 > dataLen then dataLen else 8 - skip0)"
  have le: "skip \<le> dataLen" by (simp add: skip_def linorder_not_less)
  then have len: "unat skip + unat (dataLen - skip) = unat dataLen" by (simp add: word_nat)
  have k0: "xor_range m p n [key ! 0, key ! 1, key ! 2, key ! 3] = xor_range m p n key" for n
    by (rule xor_range_cong) (auto dest!: less_4_cases)
  have "fastXOR e a m p dataLen key =
     (if skip0 \<noteq> 0
      then fastXOR_aligned (xor_range m p (unat skip) key) (p + unat skip) (dataLen - skip)
             (rotate_key (unat skip) key)
      else fastXOR_aligned m p dataLen [key ! 0, key ! 1, key ! 2, key ! 3])"
    unfolding fastXOR_def Let_def skip0_def [symmetric] skip_def [symmetric]
    by (simp only: xorBytes_eq prod.case align_key_eq isBigEndian_iff LittleEndian endian.distinct if_False)
  also have "\<dots> = xor_range m p (unat dataLen) key"
    using xor_range_add [of m p "unat skip" key "unat (dataLen - skip)"]
    by (simp add: fastXOR_aligned_eq k0 len del: One_nat_def)
  finally show ?thesis .
qed

lemma block_xor_Inr:
  "p + unat n \<le> blk_size b \<Longrightarrow>
   block_xor e b p n key = Inr (b\<lparr>blk_mem := xor_range (blk_mem b) p (unat n) key\<rparr>)"
  by (simp add: block_xor_def fastXOR_eq)

section \<open>Properties\<close>

text \<open>C12. The word-at-a-time routine is the byte-at-a-time routine: for every byte order, every
  address of the data (aligned or not), every length and every key.\<close>
theorem fastXOR_is_slowXOR:
  "fastXOR e a m p dataLen key = slowXOR m p dataLen key"
  by (simp add: fastXOR_eq slowXOR_def xorBytes_eq)

text \<open>\<open>fastXOR\<close> writes the \<open>dataLen\<close> bytes it was given and no other byte, each XORed with the
  key byte of its position.\<close>
theorem fastXOR_cells:
  "fastXOR e a m p dataLen key q =
     (if p \<le> q \<and> q < p + unat dataLen then m q XOR key ! ((q - p) mod 4) else m q)"
  by (simp add: fastXOR_eq xor_range_def)

text \<open>Masking twice with one key restores the memory, also when the two machines differ in
  byte order and the two buffers in alignment.\<close>
lemma fastXOR_involution:
  "fastXOR e' a' (fastXOR e a m p dataLen key) p dataLen key = m"
  by (auto simp: fastXOR_eq xor_range_def fun_eq_iff xor.assoc)

end
