(* ===== verification/WsFrame.thy ===== *)
theory WsFrame
  imports FastXOR
begin

unbundle bit_operations_syntax

text \<open>
  The WebSocket frame format of \<open>ext/easywsclient/easywsclient.cpp\<close>: the header reader at the
  top of \<open>WebSocketImpl::_dispatchBinary\<close> and the header writer of \<open>WebSocketImpl::sendData\<close>.
  The main results are that the reader inverts the writer for every message size, and that the
  writer's length is the one the \<open>assert\<close> of \<open>sendData\<close> expects.
\<close>

section \<open>The code\<close>

text \<open>\<open>opcode_type\<close>; the codes the enum does not name are kept as they are.\<close>

datatype opcode = CONTINUATION | TEXT_FRAME | BINARY_FRAME | CLOSE | PING | PONG | OTHER_OPCODE u8

definition opcode_of :: "u8 \<Rightarrow> opcode" where
  "opcode_of c =
     (if c = 0 then CONTINUATION else if c = 1 then TEXT_FRAME else if c = 2 then BINARY_FRAME
      else if c = 8 then CLOSE else if c = 9 then PING else if c = 10 then PONG
      else OTHER_OPCODE c)"

fun opcode_code :: "opcode \<Rightarrow> u8" where
  "opcode_code CONTINUATION = 0"
| "opcode_code TEXT_FRAME = 1"
| "opcode_code BINARY_FRAME = 2"
| "opcode_code CLOSE = 8"
| "opcode_code PING = 9"
| "opcode_code PONG = 10"
| "opcode_code (OTHER_OPCODE c) = c"

record wsheader =
  ws_header_size :: u32
  ws_fin :: bool
  ws_mask :: bool
  ws_opcode :: opcode
  ws_N0 :: u32
  ws_N :: u64
  ws_masking_key :: "u8 list"

text \<open>The header reader; \<open>None\<close> is the \<open>break\<close> for a header that has not arrived yet.\<close>

definition header_size_of :: "u32 \<Rightarrow> bool \<Rightarrow> u32" where
  "header_size_of n0 msk =
     2 + (if n0 = 126 then 2 else 0) + (if n0 = 127 then 8 else 0) + (if msk then 4 else 0)"

definition parse_header :: "u8 list \<Rightarrow> wsheader option" where
  "parse_header data =
     (let dataLen = length data
      in if dataLen < 2 then None
         else
           let f = (data ! 0 AND 0x80 = 0x80);
               op = opcode_of (data ! 0 AND 0x0f);
               msk = (data ! 1 AND 0x80 = 0x80);
               n0 = ucast (data ! 1 AND 0x7f) :: u32;
               hs = header_size_of n0 msk
           in if dataLen < unat hs then None
              else
                let (n, i) =
                  (if n0 < 126 then (ucast n0 :: u64, 2)
                   else if n0 = 126 then
                     (push_bit 8 (ucast (data ! 2)) OR ucast (data ! 3), 4)
                   else
                     (push_bit 56 (ucast (data ! 2)) OR push_bit 48 (ucast (data ! 3))
                      OR push_bit 40 (ucast (data ! 4)) OR push_bit 32 (ucast (data ! 5))
                      OR push_bit 24 (ucast (data ! 6)) OR push_bit 16 (ucast (data ! 7))
                      OR push_bit 8 (ucast (data ! 8)) OR ucast (data ! 9), 10))
                in Some \<lparr>ws_header_size = hs, ws_fin = f, ws_mask = msk, ws_opcode = op,
                         ws_N0 = n0, ws_N = n, ws_masking_key =
                           (if msk then [data ! i, data ! (i + 1), data ! (i + 2), data ! (i + 3)]
                            else [0, 0, 0, 0])\<rparr>)"

text \<open>The size of a whole frame, in \<open>uint32_t\<close> arithmetic.\<close>

definition frame_size :: "wsheader \<Rightarrow> u32" where
  "frame_size h = ws_header_size h + ucast (ws_N h)"

text \<open>The header writer.\<close>

definition byte_at :: "nat \<Rightarrow> u64 \<Rightarrow> u8" where
  "byte_at k n = ucast (drop_bit k n AND 0xff)"

definition expected_header_len :: "u64 \<Rightarrow> bool \<Rightarrow> nat" where
  "expected_header_len message_size useMask =
     2 + (if message_size \<ge> 126 then 2 else 0) + (if message_size \<ge> 65536 then 6 else 0)
       + (if useMask then 4 else 0)"

definition make_header :: "opcode \<Rightarrow> bool \<Rightarrow> u64 \<Rightarrow> u8 list \<Rightarrow> u8 list" where
  "make_header type useMask message_size masking_key =
     (let m = (if useMask then 0x80 else 0) :: u8;
          key = (if useMask then [masking_key ! 0, masking_key ! 1, masking_key ! 2, masking_key ! 3]
                 else []);
          byte = (\<lambda>k. byte_at k message_size)
      in [0x80 OR opcode_code type] @
         (if message_size < 126 then [byte 0 OR m]
          else if message_size < 65536 then [126 OR m, byte 8, byte 0]
          else [127 OR m, byte 56, byte 48, byte 40, byte 32, byte 24, byte 16, byte 8, byte 0])
         @ key)"

section \<open>Lemmas\<close>

lemma opcode_of_code:
  "opcode_code op < 16 \<Longrightarrow> (\<forall>c. op = OTHER_OPCODE c \<longrightarrow> c \<notin> {0, 1, 2, 8, 9, 10}) \<Longrightarrow>
   opcode_of (opcode_code op) = op"
  by (cases op) (auto simp: opcode_of_def)

lemma u64_less_126: "n < 126 \<Longrightarrow> n < 65536" for n :: u64
  by (simp add: word_less_nat_alt)

lemma length_make_header: "length (make_header op m n key) = expected_header_len n m"
  using u64_less_126 [of n] by (auto simp: make_header_def expected_header_len_def Let_def not_le not_less)

lemma expected_header_len_bounds:
  "2 \<le> expected_header_len n m" "expected_header_len n m \<le> 14"
  by (auto simp: expected_header_len_def)

text \<open>Bits of the length fields.\<close>

lemma and_literals:
  "(x :: u64) AND 0xff = take_bit 8 x" "(y :: u8) AND 0x7f = take_bit 7 y"
  "(0x80 :: u8) = push_bit 7 1"
  by (simp_all add: take_bit_eq_mask mask_numeral)

lemma not_bit_u64_high: "unat n < 2 ^ k \<Longrightarrow> k \<le> i \<Longrightarrow> \<not> bit (n :: u64) i"
proof
  assume "unat n < 2 ^ k" "k \<le> i" "bit n i"
  then have "take_bit k (unat n) = unat n" by (simp add: take_bit_nat_eq_self)
  then have "\<not> bit (unat n) i" using \<open>k \<le> i\<close> by (metis bit_take_bit_iff leD)
  with \<open>bit n i\<close> show False by (simp add: bit_unsigned_iff)
qed

lemma bit_byte_at: "bit (byte_at k n) i \<longleftrightarrow> i < 8 \<and> bit n (k + i)"
  unfolding byte_at_def and_literals by (auto simp: bit_simps)

lemma bit_shifted_byte:
  "bit (push_bit k (ucast (byte_at k n)) :: u64) i \<longleftrightarrow> k \<le> i \<and> i < k + 8 \<and> bit n i"
  by (auto simp: bit_push_bit_iff bit_unsigned_iff bit_byte_at dest: bit_imp_le_length)

lemma bit_low_byte:
  "bit (ucast (byte_at 0 n) :: u64) i \<longleftrightarrow> i < 8 \<and> bit n i"
  using bit_shifted_byte [of 0 n i] by simp

lemma length16:
  assumes "n < 65536"
  shows "push_bit 8 (ucast (byte_at 8 n)) OR ucast (byte_at 0 n) = n" (is "?l = n")
proof (rule bit_word_eqI)
  fix i
  have hi: "\<not> bit n i" if "16 \<le> i" for i
    using not_bit_u64_high [of n 16 i] assms that by (simp add: word_less_nat_alt)
  have lt: "bit n i \<Longrightarrow> i < 16" using hi [of i] by fastforce
  show "bit ?l i = bit n i"
    unfolding bit_or_iff bit_shifted_byte bit_low_byte using lt by auto
qed

lemma octets_64:
  "i < 64 \<Longrightarrow> i < 8 \<or> (8 \<le> i \<and> i < 16) \<or> (16 \<le> i \<and> i < 24) \<or> (24 \<le> i \<and> i < 32) \<or>
   (32 \<le> i \<and> i < 40) \<or> (40 \<le> i \<and> i < 48) \<or> (48 \<le> i \<and> i < 56) \<or> (56 \<le> i \<and> i < (64 :: nat))"
  by auto

lemma length64:
  "push_bit 56 (ucast (byte_at 56 n)) OR push_bit 48 (ucast (byte_at 48 n))
   OR push_bit 40 (ucast (byte_at 40 n)) OR push_bit 32 (ucast (byte_at 32 n))
   OR push_bit 24 (ucast (byte_at 24 n)) OR push_bit 16 (ucast (byte_at 16 n))
   OR push_bit 8 (ucast (byte_at 8 n)) OR ucast (byte_at 0 n) = n" (is "?l = n")
proof (rule bit_word_eqI)
  fix i assume "i < LENGTH(64)"
  then show "bit ?l i = bit n i"
    using octets_64 [of i] unfolding bit_or_iff bit_shifted_byte bit_low_byte by auto
qed

lemma length7:
  assumes "n < 126" and "m = 0 \<or> m = (0x80 :: u8)"
  shows "(byte_at 0 n OR m) AND 0x7f = ucast n" "(byte_at 0 n OR m) AND 0x80 = m"
proof -
  have hi: "\<not> bit n i" if "7 \<le> i" for i
    using not_bit_u64_high [of n 7 i] assms(1) that by (simp add: word_less_nat_alt)
  have lt: "bit n i \<Longrightarrow> i < 7" for i using hi [of i] by fastforce
  have b128: "bit (0x80 :: u8) i \<Longrightarrow> i = 7" for i
    unfolding and_literals bit_push_bit_iff bit_1_iff by simp
  then have b80: "bit m i \<Longrightarrow> i = 7" for i using assms(2) by auto
  show "(byte_at 0 n OR m) AND 0x7f = ucast n"
    unfolding and_literals using lt
    by (intro bit_word_eqI) (auto simp: bit_simps bit_byte_at dest: b80)
  show "(byte_at 0 n OR m) AND 0x80 = m"
    using assms(2) hi
    by (intro bit_word_eqI) (auto simp: bit_and_iff bit_or_iff bit_byte_at
        simp del: bit_numeral_word_iff dest: b128)
qed

text \<open>
  Frames as RFC 6455 (section 5.2) lays them out: the header, and the whole frame with its
  payload masked by the key. \<open>sendData\<close> only writes headers with the \<open>FIN\<close> bit; other peers
  fragment their messages.
\<close>

definition frame_header :: "bool \<Rightarrow> opcode \<Rightarrow> bool \<Rightarrow> u64 \<Rightarrow> u8 list \<Rightarrow> u8 list" where
  "frame_header f op m n key =
     ((if f then 0x80 else 0) OR opcode_code op) #
     (let mbit = (if m then 0x80 else 0)
      in if n < 126 then [byte_at 0 n OR mbit]
         else if n < 65536 then (126 OR mbit) # map (\<lambda>k. byte_at (8 * k) n) [1, 0]
         else (127 OR mbit) # map (\<lambda>k. byte_at (8 * k) n) [7, 6, 5, 4, 3, 2, 1, 0])
     @ (if m then key else [])"

record frame =
  fr_fin :: bool
  fr_opcode :: opcode
  fr_mask :: bool
  fr_key :: "u8 list"
  fr_payload :: "u8 list"

definition encode_frame :: "frame \<Rightarrow> u8 list" where
  "encode_frame f =
     frame_header (fr_fin f) (fr_opcode f) (fr_mask f) (word_of_nat (length (fr_payload f))) (fr_key f)
     @ (if fr_mask f then xor_key (fr_key f) (fr_payload f) else fr_payload f)"

definition named_opcode :: "opcode \<Rightarrow> bool" where
  "named_opcode op \<longleftrightarrow> op \<in> {CONTINUATION, TEXT_FRAME, BINARY_FRAME, CLOSE, PING, PONG}"

definition frame_ok :: "frame \<Rightarrow> bool" where
  "frame_ok f \<longleftrightarrow> named_opcode (fr_opcode f) \<and> length (fr_key f) = 4 \<and> length (fr_payload f) < 2 ^ 30"

definition len7_of :: "u64 \<Rightarrow> u32" where
  "len7_of n = (if n < 126 then ucast n else if n < 65536 then 126 else 127)"

definition written_header :: "bool \<Rightarrow> opcode \<Rightarrow> bool \<Rightarrow> u64 \<Rightarrow> u8 list \<Rightarrow> wsheader" where
  "written_header f op m n key =
     \<lparr>ws_header_size = word_of_nat (expected_header_len n m), ws_fin = f, ws_mask = m,
      ws_opcode = op, ws_N0 = len7_of n, ws_N = n,
      ws_masking_key = (if m then key else [0, 0, 0, 0])\<rparr>"

lemma make_header_eq:
  "length key = 4 \<Longrightarrow> make_header op m n key = frame_header True op m n key"
  by (auto simp: make_header_def frame_header_def Let_def numeral_eq_Suc length_Suc_conv)

lemma length_frame_header:
  "length key = 4 \<Longrightarrow> length (frame_header f op m n key) = expected_header_len n m"
  using u64_less_126 [of n]
  by (auto simp: frame_header_def expected_header_len_def Let_def not_le not_less)

text \<open>The reader inverts the writer.\<close>

lemma first_byte:
  "named_opcode op \<Longrightarrow>
   (((if f then 0x80 else 0) OR opcode_code op) AND 0x80 = 0x80) = f
   \<and> opcode_of (((if f then 0x80 else 0) OR opcode_code op) AND 0x0f) = op"
  by (cases f) (auto simp: named_opcode_def opcode_of_def)

lemma ucast_len7: "n < 126 \<Longrightarrow> ucast (ucast n :: u8) = (ucast (n :: u64) :: u32)"
proof -
  assume "n < 126"
  then have "bit n i \<Longrightarrow> i < 8" for i
    using not_bit_u64_high [of n 8 i] by (fastforce simp: word_less_nat_alt)
  then show ?thesis
    by (intro bit_word_eqI) (auto simp: bit_simps)
qed

lemma u32_len7:
  assumes "n < 126"
  shows "(ucast (n :: u64) :: u32) < 126" "(ucast n :: u32) \<noteq> 126" "(ucast n :: u32) \<noteq> 127"
    "ucast (ucast n :: u32) = n"
proof -
  have "unat n < 126" using assms by (simp add: word_less_nat_alt)
  then have u: "unat (ucast n :: u32) = unat n"
    unfolding unsigned_ucast_eq by (intro take_bit_nat_eq_self) simp
  then show lt: "(ucast n :: u32) < 126" using \<open>unat n < 126\<close> by (simp add: word_less_nat_alt)
  then show "(ucast n :: u32) \<noteq> 126" "(ucast n :: u32) \<noteq> 127" by auto
  have "bit n i \<Longrightarrow> i < 32" for i
    using not_bit_u64_high [of n 32 i] \<open>unat n < 126\<close> by fastforce
  then show "ucast (ucast n :: u32) = n"
    by (intro bit_word_eqI) (auto simp: bit_simps)
qed

lemma parse_frame_header:
  assumes op: "named_opcode op" and key: "length key = 4"
  shows "parse_header (frame_header f op m n key @ rest) = Some (written_header f op m n key)"
proof -
  let ?m = "if m then 0x80 else 0 :: u8"
  note fb = first_byte [OF op, of f]
  obtain a b c d where key4: "key = [a, b, c, d]"
    using key by (auto simp: numeral_eq_Suc length_Suc_conv)
  note defs = parse_header_def frame_header_def written_header_def Let_def header_size_of_def
    len7_of_def expected_header_len_def key4
  consider (small) "n < 126" | (medium) "\<not> n < 126" "n < 65536" | (large) "\<not> n < 126" "\<not> n < 65536"
    by blast
  then show ?thesis
  proof cases
    case small
    then have "(126 \<le> n) = False" "(65536 \<le> n) = False"
      using u64_less_126 [OF small] by auto
    then show ?thesis
      using small fb length7 [OF small, of ?m] u32_len7 [OF small] u64_less_126 [OF small]
      by (cases m; cases f) (simp_all add: defs ucast_len7)
  next
    case medium
    then have "(n < 126) = False" "(126 \<le> n) = True" "(65536 \<le> n) = False" by auto
    then show ?thesis using fb length16 [OF medium(2)] by (cases m; cases f) (simp_all add: defs)
  next
    case large
    then have "(n < 126) = False" "(n < 65536) = False" "(126 \<le> n) = True" "(65536 \<le> n) = True"
      by auto
    then show ?thesis using fb length64 [of n] by (cases m; cases f) (simp_all add: defs)
  qed
qed

section \<open>Properties\<close>

text \<open>C14. The header reader of \<open>_dispatchBinary\<close> recovers every field of the header \<open>sendData\<close> writes,
  for every opcode of the protocol, every message size and either mask mode.\<close>
theorem header_roundtrip:
  assumes "named_opcode op" and "length key = 4"
  shows "parse_header (make_header op m n key @ rest) =
    Some \<lparr>ws_header_size = word_of_nat (length (make_header op m n key)), ws_fin = True, ws_mask = m,
          ws_opcode = op, ws_N0 = len7_of n, ws_N = n,
          ws_masking_key = (if m then key else [0, 0, 0, 0])\<rparr>"
  using parse_frame_header [OF assms, of True m n rest]
  by (simp add: make_header_eq assms(2) written_header_def length_frame_header)

lemma header_roundtrip_witness:
  "parse_header (make_header TEXT_FRAME True 70000 [1, 2, 3, 4] @ [5]) =
    Some \<lparr>ws_header_size = word_of_nat (length (make_header TEXT_FRAME True 70000 [1, 2, 3, 4])),
          ws_fin = True, ws_mask = True, ws_opcode = TEXT_FRAME, ws_N0 = len7_of 70000, ws_N = 70000,
          ws_masking_key = [1, 2, 3, 4]\<rparr>"
  using header_roundtrip [of TEXT_FRAME "[1, 2, 3, 4]" True 70000 "[5]"] by (simp add: named_opcode_def)

text \<open>The header has the length the \<open>assert\<close> of \<open>sendData\<close> expects and fits the fourteen bytes
  of its local array.\<close>
theorem header_length_as_asserted:
  "length (make_header op m n key) = expected_header_len n m \<and> length (make_header op m n key) \<le> 14"
  by (simp add: length_make_header expected_header_len_bounds)

end
