(* ===== verification/Wsocket.thy ===== *)
theory Wsocket
  imports Prelude
begin

text \<open>
  \<open>ext/easywsclient/wsocket.h\<close>: the virtual interface \<open>Wsocket\<close> of a byte stream, as a record of
  its methods over a socket state \<open>'s\<close>, and the contract \<open>WebSocketImpl\<close> relies on. The
  \<open>int32_t\<close> results are integers; \<open>release\<close> deletes the object, which the model shows as the
  \<open>mSocket\<close> of the connection becoming \<open>None\<close>.
\<close>

record 's wsocket_ops =
  sock_receive :: "'s \<Rightarrow> u32 \<Rightarrow> (int \<times> u8 list \<times> 's) result"
  sock_send :: "'s \<Rightarrow> u8 list \<Rightarrow> (int \<times> 's) result"
  sock_close :: "'s \<Rightarrow> 's"
  sock_wouldBlock :: "'s \<Rightarrow> bool"
  sock_inProgress :: "'s \<Rightarrow> bool"
  sock_nullSelect :: "'s \<Rightarrow> int \<Rightarrow> 's"
  sock_disableNaglesAlgorithm :: "'s \<Rightarrow> 's"

text \<open>
  \<open>xs\<close> is what \<open>receive\<close> stored at the destination: as many bytes as it returned when it
  returned a positive number, none otherwise. No method faults on a socket in a good state.
\<close>

locale wsocket_contract =
  fixes ops :: "'s wsocket_ops"
    and sinv :: "'s \<Rightarrow> bool"
  assumes receive_law: "sinv s \<Longrightarrow> 0 < n \<Longrightarrow> sock_receive ops s n = Inr (ret, xs, s') \<Longrightarrow>
      sinv s' \<and> nat ret \<le> unat n \<and> length xs = nat ret"
    and receive_total: "sinv s \<Longrightarrow> \<exists>ret xs s'. sock_receive ops s n = Inr (ret, xs, s')"
    and send_law: "sinv s \<Longrightarrow> length xs < 2 ^ 31 \<Longrightarrow> sock_send ops s xs = Inr (ret, s') \<Longrightarrow>
      sinv s' \<and> nat ret \<le> length xs"
    and send_total: "sinv s \<Longrightarrow> length xs < 2 ^ 31 \<Longrightarrow> \<exists>ret s'. sock_send ops s xs = Inr (ret, s')"
    and close_law: "sinv s \<Longrightarrow> sinv (sock_close ops s)"
    and select_law: "sinv s \<Longrightarrow> sinv (sock_nullSelect ops s timeout)"
    and nagle_law: "sinv s \<Longrightarrow> sinv (sock_disableNaglesAlgorithm ops s)"

text \<open>
  A socket that is a byte stream: \<open>incoming\<close> are the bytes that can still be received and
  \<open>outgoing\<close> the bytes that have been sent and not yet read by the peer.
\<close>

locale stream_socket = wsocket_contract +
  fixes incoming :: "'a \<Rightarrow> u8 list"
    and outgoing :: "'a \<Rightarrow> u8 list"
  assumes receive_stream: "sinv s \<Longrightarrow> sock_receive ops s n = Inr (ret, xs, s') \<Longrightarrow>
      incoming s = xs @ incoming s' \<and> outgoing s' = outgoing s"
    and send_stream: "sinv s \<Longrightarrow> length xs < 2 ^ 31 \<Longrightarrow> sock_send ops s xs = Inr (ret, s') \<Longrightarrow>
      outgoing s' = outgoing s @ take (nat ret) xs \<and> incoming s' = incoming s"
    and close_stream: "incoming (sock_close ops s) = incoming s" "outgoing (sock_close ops s) = outgoing s"
    and nagle_stream: "incoming (sock_disableNaglesAlgorithm ops s) = incoming s"
      "outgoing (sock_disableNaglesAlgorithm ops s) = outgoing s"

text \<open>
  A stream whose \<open>receive\<close> never keeps the caller waiting for bytes that have arrived and reports
  an empty stream as a call that would block, and whose \<open>send\<close> takes everything that fits into a
  \<open>window\<close> of free bytes.
\<close>

locale prompt_socket = stream_socket +
  fixes window :: "'a \<Rightarrow> nat"
  assumes receive_ready: "sinv s \<Longrightarrow> 0 < n \<Longrightarrow> incoming s \<noteq> [] \<Longrightarrow>
      sock_receive ops s n = Inr (ret, xs, s') \<Longrightarrow> 0 < ret"
    and receive_idle: "sinv s \<Longrightarrow> incoming s = [] \<Longrightarrow> sock_receive ops s n = Inr (ret, xs, s') \<Longrightarrow>
      ret < 0 \<and> (sock_wouldBlock ops s' \<or> sock_inProgress ops s')"
    and receive_window: "sinv s \<Longrightarrow> sock_receive ops s n = Inr (ret, xs, s') \<Longrightarrow> window s' = window s"
    and send_ready: "sinv s \<Longrightarrow> xs \<noteq> [] \<Longrightarrow> length xs < 2 ^ 31 \<Longrightarrow> length xs \<le> window s \<Longrightarrow>
      sock_send ops s xs = Inr (ret, s') \<Longrightarrow> ret = int (length xs) \<and> window s' = window s - length xs"
    and nagle_window: "window (sock_disableNaglesAlgorithm ops s) = window s"

end
