(* ===== verification/TextScan.thy ===== *)
theory TextScan
  imports Prelude
begin

text \<open>
  The C library's text conversions the sources use: \<open>sscanf\<close> with the conversions of the URL
  parser and of the status line, \<open>%d\<close> and \<open>%s\<close> of \<open>printf\<close>. Text is a list of bytes without
  the terminating zero. An \<open>int\<close> is unbounded: a \<open>%d\<close> that does not fit an \<open>int\<close> is undefined
  behaviour in C and is not modelled.
\<close>

section \<open>Bytes and numbers as text\<close>

definition ascii :: "string \<Rightarrow> u8 list" where
  "ascii s = map (\<lambda>c. word_of_nat (of_char c)) s"

definition digit :: "nat \<Rightarrow> char" where
  "digit d = ''0123456789'' ! d"

fun decimal :: "nat \<Rightarrow> string" where
  "decimal n = (if n < 10 then [digit n] else decimal (n div 10) @ [digit (n mod 10)])"

declare decimal.simps [simp del]

definition format_int :: "int \<Rightarrow> string" where
  "format_int i = (if i < 0 then ''-'' @ decimal (nat (- i)) else decimal (nat i))"

section \<open>\<open>sscanf\<close>\<close>

text \<open>
  The directives: a literal byte, white space, \<open>%[^...]\<close>, \<open>%s\<close> and \<open>%d\<close>. The result is the list of
  values assigned before the first directive that failed; its length is what \<open>sscanf\<close> returns
  (which is \<open>EOF\<close> instead of 0 at the end of the input).
\<close>

datatype directive = Lit u8 | Space | Until "u8 list" | StrConv | IntConv

datatype scanned = VStr "u8 list" | VInt int

definition is_space :: "u8 \<Rightarrow> bool" where
  "is_space c \<longleftrightarrow> c = 32 \<or> 9 \<le> c \<and> c \<le> 13"

definition is_digit :: "u8 \<Rightarrow> bool" where
  "is_digit c \<longleftrightarrow> 48 \<le> c \<and> c \<le> 57"

definition digits_value :: "u8 list \<Rightarrow> nat" where
  "digits_value ds = foldl (\<lambda>n c. 10 * n + (unat c - 48)) 0 ds"

definition scan_unsigned :: "u8 list \<Rightarrow> (nat \<times> u8 list) option" where
  "scan_unsigned s =
     (if takeWhile is_digit s = [] then None
      else Some (digits_value (takeWhile is_digit s), dropWhile is_digit s))"

definition scan_int :: "u8 list \<Rightarrow> (int \<times> u8 list) option" where
  "scan_int s =
     (case s of
        [] \<Rightarrow> None
      | c # r \<Rightarrow>
          if c = 45 then map_option (\<lambda>(n, r). (- int n, r)) (scan_unsigned r)
          else if c = 43 then map_option (\<lambda>(n, r). (int n, r)) (scan_unsigned r)
          else map_option (\<lambda>(n, r). (int n, r)) (scan_unsigned s))"

fun sscanf :: "directive list \<Rightarrow> u8 list \<Rightarrow> scanned list" where
  "sscanf [] s = []"
| "sscanf (Lit c # fmt) s = (case s of [] \<Rightarrow> [] | x # r \<Rightarrow> if x = c then sscanf fmt r else [])"
| "sscanf (Space # fmt) s = sscanf fmt (dropWhile is_space s)"
| "sscanf (Until stop # fmt) s =
     (let t = takeWhile (\<lambda>c. c \<notin> set stop) s
      in if t = [] then [] else VStr t # sscanf fmt (dropWhile (\<lambda>c. c \<notin> set stop) s))"
| "sscanf (StrConv # fmt) s =
     (let s = dropWhile is_space s; t = takeWhile (\<lambda>c. \<not> is_space c) s
      in if t = [] then [] else VStr t # sscanf fmt (dropWhile (\<lambda>c. \<not> is_space c) s))"
| "sscanf (IntConv # fmt) s =
     (case scan_int (dropWhile is_space s) of
        None \<Rightarrow> [] | Some (n, r) \<Rightarrow> VInt n # sscanf fmt r)"

text \<open>The literal part of a format, with its blanks as white space directives.\<close>

definition lit :: "string \<Rightarrow> directive list" where
  "lit s = map (\<lambda>c. if is_space c then Space else Lit c) (ascii s)"

text \<open>\<open>stringFormat\<close> truncates its output to the buffer, without the terminating zero.\<close>

definition stringFormat :: "nat \<Rightarrow> u8 list \<Rightarrow> u8 list" where
  "stringFormat dstSize s = take (dstSize - 1) s"

text \<open>
  \<open>getExePath\<close> on POSIX: \<open>link\<close> is what \<open>/proc/self/exe\<close> points to, of which \<open>readlink\<close> stores what it is
  given room for; no byte of it means failure.
\<close>

definition getExePath :: "u8 list \<Rightarrow> u32 \<Rightarrow> (bool \<times> u8 list) result" where
  "getExePath link maxPathSize =
     (let path = take (unat (maxPathSize - 1)) link
      in if path = [] then Inr (False, [])
         else if length path < unat maxPathSize then Inr (True, path) else Inl OutOfBounds)"

lemma getExePath_fits:
  assumes "0 < maxPathSize"
  shows "getExePath link maxPathSize =
    Inr (link \<noteq> [] \<and> 1 < maxPathSize, if link \<noteq> [] \<and> 1 < maxPathSize then take (unat maxPathSize - 1) link else [])"
proof -
  have "unat (maxPathSize - 1) = unat maxPathSize - 1" "0 < unat maxPathSize"
    using assms by (simp_all add: unat_minus_one unat_gt_0 word_gt_0)
  then show ?thesis by (auto simp: getExePath_def word_less_nat_alt)
qed

section \<open>Printing and scanning decimal numbers\<close>

lemma ascii_simps [simp]:
  "ascii [] = []" "ascii (c # s) = word_of_nat (of_char c) # ascii s" "ascii (s @ t) = ascii s @ ascii t"
  by (simp_all add: ascii_def)

lemma length_ascii [simp]: "length (ascii s) = length s"
  by (simp add: ascii_def)

lemma less_10_cases:
  "d < 10 \<Longrightarrow> d = 0 \<or> d = 1 \<or> d = 2 \<or> d = 3 \<or> d = 4 \<or> d = 5 \<or> d = 6 \<or> d = 7 \<or> d = 8 \<or> d = (9 :: nat)"
  by auto

lemma digit_byte: "d < 10 \<Longrightarrow> ascii [digit d] = [word_of_nat (48 + d)]"
  by (drule less_10_cases) (auto simp: digit_def)

lemma is_digit_byte: "d < 10 \<Longrightarrow> is_digit (word_of_nat (48 + d)) \<and> unat (word_of_nat (48 + d) :: u8) = 48 + d"
  by (drule less_10_cases) (auto simp: is_digit_def)

lemma decimal_digits:
  "(\<forall>c \<in> set (ascii (decimal n)). is_digit c) \<and> digits_value (ascii (decimal n)) = n \<and> decimal n \<noteq> []"
proof (induction n rule: decimal.induct)
  case (1 n)
  show ?case
  proof (cases "n < 10")
    case True
    then show ?thesis
      using digit_byte [of n] is_digit_byte [of n] by (simp add: decimal.simps [of n] digits_value_def)
  next
    case False
    with 1 have IH: "\<forall>c \<in> set (ascii (decimal (n div 10))). is_digit c"
      "digits_value (ascii (decimal (n div 10))) = n div 10" by auto
    then show ?thesis
      using False digit_byte [of "n mod 10"] is_digit_byte [of "n mod 10"]
      by (simp add: decimal.simps [of n] digits_value_def)
  qed
qed

lemma takeWhile_dropWhile_stop:
  assumes "\<forall>x \<in> set xs. P x" and "ys = [] \<or> \<not> P (hd ys)"
  shows "takeWhile P (xs @ ys) = xs" "dropWhile P (xs @ ys) = ys"
  using assms by (cases ys; simp add: takeWhile_append2 dropWhile_append2)+

lemma scan_decimal:
  assumes "rest = [] \<or> \<not> is_digit (hd rest)"
  shows "scan_int (ascii (decimal n) @ rest) = Some (int n, rest)"
proof -
  note d = decimal_digits [of n]
  then have ne: "ascii (decimal n) \<noteq> []" by (metis length_0_conv length_ascii)
  have "scan_unsigned (ascii (decimal n) @ rest) = Some (n, rest)"
    using d ne takeWhile_dropWhile_stop [of "ascii (decimal n)" is_digit rest] assms
    by (simp add: scan_unsigned_def)
  moreover have "is_digit (hd (ascii (decimal n)))" using d ne by (simp add: hd_in_set)
  then have "hd (ascii (decimal n)) \<noteq> 45" "hd (ascii (decimal n)) \<noteq> 43"
    by (auto simp: is_digit_def)
  ultimately show ?thesis
    using ne by (cases "ascii (decimal n)") (auto simp: scan_int_def)
qed

end
