(* ===== verification/WebSocketImpl.thy ===== *)
theory WebSocketImpl
  imports SimpleBuffer FastXOR WsFrame Wsocket TextScan
begin

unbundle bit_operations_syntax

text \<open>
  \<open>ext/easywsclient/easywsclient.cpp\<close>, class \<open>WebSocketImpl\<close>: the state of a connection, the
  operations that queue frames (\<open>sendData\<close>, \<open>sendText\<close>, \<open>sendBinary\<close>, \<open>sendPing\<close>,
  \<open>close\<close>) and the message log. Receiving is in \<open>WsDispatch\<close>, \<open>poll\<close> in \<open>WsPoll\<close>, the
  opening handshake in \<open>WsConnect\<close>. The proxy server (\<open>USE_PROXY_SERVER\<close>) is compiled out in the
  sources.
\<close>

section \<open>State\<close>

datatype ready_state = CLOSING | CLOSED | CONNECTING | OPEN

datatype connection_phase =
  HTTP_STATUS | HCONNECTION_UPGRADE | HSEC_WEBSOCKET_ACCEPT | HSERVER_WEBSOCKET
| HUPGRADE_WEBSOCKET | H | SERVER_CLIENT_STRINGS

text \<open>
  \<open>mSocket\<close> is \<open>None\<close> for the null pointer. \<open>mRandomTimes\<close> are the successive values of
  \<open>wplatform::getRandomTime\<close>, of which the first \<open>mRandomUsed\<close> have been read, and \<open>mEndian\<close>
  is the byte order of the machine. \<open>mLogFile\<close> is the text written to the log, if there is one.
\<close>

record 's web_socket =
  mReceiveBuffer :: simple_buffer
  mTransmitBuffer :: simple_buffer
  mReceivedData :: simple_buffer
  mSocket :: "'s option"
  mReadyState :: ready_state
  mUseMask :: bool
  mIsServerClient :: bool
  mSendCount :: u32
  mReceiveCount :: u32
  mLogFile :: "string option"
  mConnectionIndex :: u32
  mConnectionBuffer :: "u8 list"
  mConnectionTimer :: int
  mConnectionPhase :: connection_phase
  mRandomTimes :: "nat \<Rightarrow> u64"
  mRandomUsed :: nat
  mEndian :: endian

definition DEFAULT_TRANSMIT_BUFFER_SIZE :: u32 where "DEFAULT_TRANSMIT_BUFFER_SIZE = 1024 * 16"
definition DEFAULT_RECEIVE_BUFFER_SIZE :: u32 where "DEFAULT_RECEIVE_BUFFER_SIZE = 1024 * 16"
definition DEFAULT_MAX_READ_SIZE :: u32 where "DEFAULT_MAX_READ_SIZE = 1024 * 4"
definition DEFAULT_MAXIMUM_BUFFER_SIZE :: u32 where
  "DEFAULT_MAXIMUM_BUFFER_SIZE = (1024 * 1024) * 512"

text \<open>The constructor of a server's connection to a client.\<close>

definition new_server_connection ::
  "allocator \<Rightarrow> endian \<Rightarrow> (nat \<Rightarrow> u64) \<Rightarrow> u8 list \<Rightarrow> int \<Rightarrow> 's option \<Rightarrow> bool \<Rightarrow> 's web_socket" where
  "new_server_connection h e rnd stale now clientSocket useMask =
     \<lparr>mReceiveBuffer = create_buffer h DEFAULT_RECEIVE_BUFFER_SIZE DEFAULT_MAXIMUM_BUFFER_SIZE,
      mTransmitBuffer = create_buffer h DEFAULT_TRANSMIT_BUFFER_SIZE DEFAULT_MAXIMUM_BUFFER_SIZE,
      mReceivedData = create_buffer h DEFAULT_RECEIVE_BUFFER_SIZE DEFAULT_MAXIMUM_BUFFER_SIZE,
      mSocket = clientSocket, mReadyState = CONNECTING, mUseMask = useMask,
      mIsServerClient = True, mSendCount = 0, mReceiveCount = 0, mLogFile = None,
      mConnectionIndex = 0, mConnectionBuffer = stale, mConnectionTimer = now,
      mConnectionPhase = HTTP_STATUS, mRandomTimes = rnd, mRandomUsed = 0, mEndian = e\<rparr>"

section \<open>The message log\<close>

definition hex_digit :: "nat \<Rightarrow> char" where
  "hex_digit d = ''0123456789ABCDEF'' ! d"

definition format_d :: "u32 \<Rightarrow> string" where
  "format_d w = format_int (sint w)"

definition log_byte :: "u8 \<Rightarrow> string" where
  "log_byte c =
     (if c \<ge> 32 \<and> c < 128 then [char_of (unat c)]
      else ''$'' @ [hex_digit (unat c div 16), hex_digit (unat c mod 16)])"

definition crlf :: string where
  "crlf = [char_of (13 :: nat), char_of (10 :: nat)]"

definition log_rule :: string where
  "log_rule = replicate 67 (CHR ''='') @ crlf"

definition log_entry :: "string \<Rightarrow> u32 \<Rightarrow> u32 \<Rightarrow> u8 list \<Rightarrow> string" where
  "log_entry what count message_size bytes =
     log_rule @ what @ ''['' @ format_d count @ ''] : '' @ format_d message_size @ '' bytes'' @ crlf
     @ log_rule @ concat (map log_byte bytes) @ crlf @ log_rule @ crlf"

text \<open>
  The bytes behind an optional pointer: a null pointer must not be read.
\<close>

definition read_opt :: "ptr option \<Rightarrow> u32 \<Rightarrow> u8 list result" where
  "read_opt p n = (if n = 0 then Inr []
     else case p of None \<Rightarrow> Inl NullDeref | Some q \<Rightarrow> blk_read q (unat n))"

definition logSend :: "'s web_socket \<Rightarrow> ptr option \<Rightarrow> u32 \<Rightarrow> 's web_socket result" where
  "logSend ws messageData message_size =
     (case mLogFile ws of None \<Rightarrow> Inr ws
      | Some txt \<Rightarrow> ebind (read_opt messageData message_size) (\<lambda>xs.
          Inr (ws\<lparr>mSendCount := mSendCount ws + 1,
                 mLogFile := Some (txt @ log_entry ''SEND'' (mSendCount ws + 1) message_size xs)\<rparr>)))"

definition logReceive :: "'s web_socket \<Rightarrow> ptr option \<Rightarrow> u32 \<Rightarrow> 's web_socket result" where
  "logReceive ws messageData message_size =
     (case mLogFile ws of None \<Rightarrow> Inr ws
      | Some txt \<Rightarrow> ebind (read_opt messageData message_size) (\<lambda>xs.
          Inr (ws\<lparr>mReceiveCount := mReceiveCount ws + 1,
                 mLogFile := Some (txt @ log_entry ''RECEIVE'' (mReceiveCount ws + 1) message_size xs)\<rparr>)))"

text \<open>
  \<open>gSaveCount\<close> is the static counter of the function; \<open>fopen\<close> tells whether the file could be opened, which the
  source does not ask before it writes.
\<close>

definition setLogFile ::
  "(string \<Rightarrow> bool) \<Rightarrow> u32 \<Rightarrow> string \<Rightarrow> 's web_socket \<Rightarrow> (bool \<times> u32 \<times> 's web_socket) result" where
  "setLogFile fopen gSaveCount fileName ws =
     (case mLogFile ws of
        Some _ \<Rightarrow> Inr (True, gSaveCount, ws)
      | None \<Rightarrow>
          let n = gSaveCount + 1; scratch = take 511 (fileName @ format_d n @ ''.txt''); rule = replicate 70 (CHR ''='') @ crlf
          in if fopen scratch
             then Inr (True, n, ws\<lparr>mLogFile := Some (rule @ ''**** NEW EASYWSCLIENT INSTANCE['' @ format_d n @ ''] ****'' @ crlf @ rule)\<rparr>)
             else Inl NullDeref)"

lemma setLogFile_opens:
  "mLogFile ws = Some txt \<Longrightarrow> setLogFile fopen k fileName ws = Inr (True, k, ws)"
  "mLogFile ws = None \<Longrightarrow> setLogFile fopen k fileName ws = Inr (ok, k', ws') \<Longrightarrow> ok \<and> k' = k + 1 \<and> mLogFile ws' \<noteq> None"
  "mLogFile ws = None \<Longrightarrow> \<forall>name. \<not> fopen name \<Longrightarrow> setLogFile fopen k fileName ws = Inl NullDeref"
  by (auto simp: setLogFile_def Let_def split: if_splits)

section \<open>Queueing frames\<close>

definition getMaskingKey :: "'s web_socket \<Rightarrow> u8 list \<times> 's web_socket" where
  "getMaskingKey ws =
     (let seed = mRandomTimes ws (mRandomUsed ws);
          key = (case mEndian ws of
                   LittleEndian \<Rightarrow> map (\<lambda>k. ucast (drop_bit (8 * k) seed)) [0, 1, 2, 3]
                 | BigEndian \<Rightarrow> map (\<lambda>k. ucast (drop_bit (8 * k) seed)) [7, 6, 5, 4])
      in (key, ws\<lparr>mRandomUsed := mRandomUsed ws + 1\<rparr>))"

text \<open>The last part of \<open>sendData\<close>: XOR the last \<open>message_size\<close> bytes of the buffer.\<close>

definition mask_tail :: "endian \<Rightarrow> simple_buffer \<Rightarrow> u32 \<Rightarrow> u8 list \<Rightarrow> simple_buffer result" where
  "mask_tail e b message_size masking_key =
     (let message_offset = getSize b - message_size;
          ((blk, start), dataLen) = getData b
      in ebind (block_xor e blk (start + unat message_offset) message_size masking_key)
           (\<lambda>blk. Inr (b\<lparr>mBuffer := blk\<rparr>)))"

definition sendData ::
  "'s web_socket \<Rightarrow> opcode \<Rightarrow> ptr option \<Rightarrow> u64 \<Rightarrow> 's web_socket result" where
  "sendData ws type messageData message_size =
     ebind (logSend ws messageData (ucast message_size)) (\<lambda>ws.
     let (masking_key, ws) = getMaskingKey ws
     in if mReadyState ws = CLOSING \<or> mReadyState ws = CLOSED then Inr ws
        else
          let header = make_header type (mUseMask ws) message_size masking_key;
              headerLen = word_of_nat (length header) :: u32
          in ebind (addBuffer (mTransmitBuffer ws) (Some (bytes_ptr header)) headerLen) (\<lambda>(_, tb).
             ebind (case messageData of
                      None \<Rightarrow> Inr (True, tb)
                    | Some p \<Rightarrow> addBuffer tb (Some p) (ucast message_size)) (\<lambda>(_, tb).
             ebind (if mUseMask ws then mask_tail (mEndian ws) tb (ucast message_size) masking_key
                    else Inr tb) (\<lambda>tb.
             Inr (ws\<lparr>mTransmitBuffer := tb\<rparr>)))))"

definition sendPing :: "'s web_socket \<Rightarrow> 's web_socket result" where
  "sendPing ws = sendData ws PING None 0"

text \<open>\<open>sendText\<close>; the argument is the string up to its terminating zero, or null.\<close>

definition sendText :: "'s web_socket \<Rightarrow> u8 list option \<Rightarrow> 's web_socket result" where
  "sendText ws str =
     sendData ws TEXT_FRAME (map_option bytes_ptr str)
       (case str of None \<Rightarrow> 0 | Some s \<Rightarrow> word_of_nat (length s))"

definition sendBinary :: "'s web_socket \<Rightarrow> ptr option \<Rightarrow> u32 \<Rightarrow> 's web_socket result" where
  "sendBinary ws data dataLen = sendData ws BINARY_FRAME data (ucast dataLen)"

definition closeFrame :: "u8 list" where
  "closeFrame = [0x88, 0x80, 0x00, 0x00, 0x00, 0x00]"

definition close_ws :: "'s web_socket \<Rightarrow> 's web_socket result" where
  "close_ws ws =
     (if mReadyState ws = CLOSING \<or> mReadyState ws = CLOSED then Inr ws
      else
        let ws = ws\<lparr>mReadyState := CLOSING\<rparr>
        in ebind (addBuffer (mTransmitBuffer ws) (Some (bytes_ptr closeFrame)) 6) (\<lambda>(_, tb).
             Inr (ws\<lparr>mTransmitBuffer := tb\<rparr>)))"

section \<open>Queries\<close>

definition getReadyState :: "'s web_socket \<Rightarrow> ready_state" where
  "getReadyState ws = mReadyState ws"

definition isValid :: "'s web_socket \<Rightarrow> bool" where
  "isValid ws \<longleftrightarrow> mSocket ws \<noteq> None"

definition getMemoryUsage :: "'s web_socket \<Rightarrow> u32" where
  "getMemoryUsage ws =
     getMaxBufferSize (mTransmitBuffer ws) + getMaxBufferSize (mReceiveBuffer ws)
     + getMaxBufferSize (mReceivedData ws)"

definition getTransmitBufferSize :: "'s web_socket \<Rightarrow> u32" where
  "getTransmitBufferSize ws = getSize (mTransmitBuffer ws)"

definition getTransmitBufferMaxSize :: "'s web_socket \<Rightarrow> u32" where
  "getTransmitBufferMaxSize ws = getMaxBufferSize (mTransmitBuffer ws)"

section \<open>Lemmas\<close>

text \<open>The key \<open>getMaskingKey\<close> makes of the \<open>k\<close>-th random number.\<close>

definition key_at :: "endian \<Rightarrow> (nat \<Rightarrow> u64) \<Rightarrow> nat \<Rightarrow> u8 list" where
  "key_at e rnd k =
     map (\<lambda>j. ucast (drop_bit (8 * j) (rnd k))) (if e = LittleEndian then [0, 1, 2, 3] else [7, 6, 5, 4])"

definition next_key :: "'s web_socket \<Rightarrow> u8 list" where
  "next_key ws = key_at (mEndian ws) (mRandomTimes ws) (mRandomUsed ws)"

lemma getMaskingKey_eq:
  "getMaskingKey ws = (next_key ws, ws\<lparr>mRandomUsed := mRandomUsed ws + 1\<rparr>)"
  by (cases "mEndian ws") (simp_all add: getMaskingKey_def key_at_def next_key_def Let_def)

lemma length_key_at [simp]: "length (key_at e rnd k) = 4" "length (next_key ws) = 4"
  by (simp_all add: key_at_def next_key_def)

definition can_send :: "'s web_socket \<Rightarrow> bool" where
  "can_send ws \<longleftrightarrow> mReadyState ws \<noteq> CLOSING \<and> mReadyState ws \<noteq> CLOSED"

lemma can_send_iff: "can_send ws \<longleftrightarrow> mReadyState ws = CONNECTING \<or> mReadyState ws = OPEN"
  by (cases "mReadyState ws") (auto simp: can_send_def)

text \<open>The log is a side record: \<open>logSend\<close> and \<open>logReceive\<close> change nothing else.\<close>

definition same_but_log :: "'s web_socket \<Rightarrow> 's web_socket \<Rightarrow> bool" where
  "same_but_log ws ws' \<longleftrightarrow>
     ws' = ws\<lparr>mSendCount := mSendCount ws', mReceiveCount := mReceiveCount ws', mLogFile := mLogFile ws'\<rparr>"

lemma logSend_same:
  "logSend ws p n = Inr ws' \<Longrightarrow> same_but_log ws ws'"
  by (auto simp: logSend_def same_but_log_def ebind_Inr_iff split: option.splits)

lemma logReceive_same:
  "logReceive ws p n = Inr ws' \<Longrightarrow> same_but_log ws ws'"
  by (auto simp: logReceive_def same_but_log_def ebind_Inr_iff split: option.splits)

lemma log_total:
  assumes "read_opt p n = Inr xs"
  shows "\<exists>ws'. logSend ws p n = Inr ws'" "\<exists>ws'. logReceive ws p n = Inr ws'"
  using assms by (auto simp: logSend_def logReceive_def split: option.splits)

text \<open>The bytes behind the message pointer of \<open>sendData\<close>.\<close>

definition message_bytes :: "ptr option \<Rightarrow> u32 \<Rightarrow> u8 list \<Rightarrow> bool" where
  "message_bytes p n xs \<longleftrightarrow>
     (case p of None \<Rightarrow> n = 0 \<and> xs = [] | Some q \<Rightarrow> blk_read q (unat n) = Inr xs)"

lemma message_bytes_length: "message_bytes p n xs \<Longrightarrow> length xs = unat n"
  by (auto simp: message_bytes_def blk_read_def split: option.splits if_splits)

lemma message_bytes_read: "message_bytes p n xs \<Longrightarrow> read_opt p n = Inr xs"
  by (auto simp: message_bytes_def read_opt_def blk_read_def split: option.splits if_splits)

text \<open>Masking bytes in the middle of a buffer, and its last bytes.\<close>

lemma xor_middle:
  assumes inv: "buf_inv b" and c: "contents b = xs @ ys @ zs"
    and b': "b' = b\<lparr>mBuffer := (mBuffer b)\<lparr>blk_mem :=
               xor_range (blk_mem (mBuffer b)) (unat (mStartLoc b) + length xs) (length ys) key\<rparr>\<rparr>"
  shows "buf_inv b'" "contents b' = xs @ xor_key key ys @ zs"
proof -
  let ?m = "blk_mem (mBuffer b)" and ?s = "unat (mStartLoc b)"
  have size: "unat (getSize b) = length xs + (length ys + length zs)"
    using arg_cong [OF c, of length] by simp
  have split: "mslice ?m ?s (length xs) = xs" "mslice ?m (?s + length xs) (length ys) = ys"
    "mslice ?m (?s + length xs + length ys) (length zs) = zs"
    using c unfolding contents_def size slice_add by auto
  have "getSize b' = getSize b" by (simp add: getSize_def b')
  then show "contents b' = xs @ xor_key key ys @ zs"
    using split
    by (simp add: contents_def size slice_add slice_xor_range_disjoint slice_xor_range_same b')
  show "buf_inv b'" using inv by (simp add: buf_inv_def b')
qed

lemma mask_tail_spec:
  assumes inv: "buf_inv b" and c: "contents b = xs @ ys" and n: "unat n = length ys"
  shows "\<exists>b'. mask_tail e b n key = Inr b' \<and> b' = b\<lparr>mBuffer := mBuffer b'\<rparr> \<and> buf_inv b'
           \<and> contents b' = xs @ xor_key key ys"
proof -
  note nat = buf_inv_nat [OF inv]
  have size: "unat (getSize b) = length xs + length ys" using arg_cong [OF c, of length] by simp
  then have off: "unat (getSize b - n) = length xs" using n by (simp add: unat_sub_le word_le_nat_alt)
  let ?b = "b\<lparr>mBuffer := (mBuffer b)\<lparr>blk_mem :=
               xor_range (blk_mem (mBuffer b)) (unat (mStartLoc b) + length xs) (length ys) key\<rparr>\<rparr>"
  have "mask_tail e b n key = Inr ?b"
    using nat size n off by (simp add: mask_tail_def getData_def block_xor_Inr)
  with xor_middle [OF inv, of xs ys "[]" ?b key] c show ?thesis by auto
qed

subsection \<open>One frame is appended\<close>

text \<open>What \<open>sendData\<close> leaves alone, and the frame it queues.\<close>

definition after_send :: "'s web_socket \<Rightarrow> 's web_socket \<Rightarrow> bool" where
  "after_send ws ws' \<longleftrightarrow>
     ws' = ws\<lparr>mTransmitBuffer := mTransmitBuffer ws', mRandomUsed := mRandomUsed ws + 1,
             mSendCount := mSendCount ws', mReceiveCount := mReceiveCount ws', mLogFile := mLogFile ws'\<rparr>"

lemma after_sendD:
  assumes "after_send ws ws'"
  shows "mReceiveBuffer ws' = mReceiveBuffer ws" "mReceivedData ws' = mReceivedData ws"
    "mSocket ws' = mSocket ws" "mReadyState ws' = mReadyState ws" "mUseMask ws' = mUseMask ws"
    "mRandomTimes ws' = mRandomTimes ws" "mRandomUsed ws' = mRandomUsed ws + 1"
    "mEndian ws' = mEndian ws" "can_send ws' = can_send ws"
proof -
  let ?e = "ws\<lparr>mTransmitBuffer := mTransmitBuffer ws', mRandomUsed := mRandomUsed ws + 1,
             mSendCount := mSendCount ws', mReceiveCount := mReceiveCount ws', mLogFile := mLogFile ws'\<rparr>"
  have e: "ws' = ?e" using assms by (simp add: after_send_def)
  have "mReceiveBuffer ?e = mReceiveBuffer ws" "mReceivedData ?e = mReceivedData ws"
    "mSocket ?e = mSocket ws" "mReadyState ?e = mReadyState ws" "mUseMask ?e = mUseMask ws"
    "mRandomTimes ?e = mRandomTimes ws" "mRandomUsed ?e = mRandomUsed ws + 1"
    "mEndian ?e = mEndian ws" "can_send ?e = can_send ws"
    by (simp_all add: can_send_def)
  with e show "mReceiveBuffer ws' = mReceiveBuffer ws" "mReceivedData ws' = mReceivedData ws"
    "mSocket ws' = mSocket ws" "mReadyState ws' = mReadyState ws" "mUseMask ws' = mUseMask ws"
    "mRandomTimes ws' = mRandomTimes ws" "mRandomUsed ws' = mRandomUsed ws + 1"
    "mEndian ws' = mEndian ws" "can_send ws' = can_send ws" by metis+
qed

lemma same_but_log_simps:
  assumes "same_but_log ws ws'"
  shows "mTransmitBuffer ws' = mTransmitBuffer ws" "mReceiveBuffer ws' = mReceiveBuffer ws"
    "mReceivedData ws' = mReceivedData ws" "mReadyState ws' = mReadyState ws"
    "mUseMask ws' = mUseMask ws" "mEndian ws' = mEndian ws" "next_key ws' = next_key ws"
    "mRandomUsed ws' = mRandomUsed ws" "mRandomTimes ws' = mRandomTimes ws" "mSocket ws' = mSocket ws"
proof -
  let ?e = "ws\<lparr>mSendCount := mSendCount ws', mReceiveCount := mReceiveCount ws', mLogFile := mLogFile ws'\<rparr>"
  have e: "ws' = ?e" using assms by (simp add: same_but_log_def)
  have "mTransmitBuffer ?e = mTransmitBuffer ws" "mReceiveBuffer ?e = mReceiveBuffer ws"
    "mReceivedData ?e = mReceivedData ws" "mReadyState ?e = mReadyState ws"
    "mUseMask ?e = mUseMask ws" "mEndian ?e = mEndian ws" "next_key ?e = next_key ws"
    "mRandomUsed ?e = mRandomUsed ws" "mRandomTimes ?e = mRandomTimes ws" "mSocket ?e = mSocket ws"
    by (simp_all add: next_key_def)
  with e show "mTransmitBuffer ws' = mTransmitBuffer ws" "mReceiveBuffer ws' = mReceiveBuffer ws"
    "mReceivedData ws' = mReceivedData ws" "mReadyState ws' = mReadyState ws"
    "mUseMask ws' = mUseMask ws" "mEndian ws' = mEndian ws" "next_key ws' = next_key ws"
    "mRandomUsed ws' = mRandomUsed ws" "mRandomTimes ws' = mRandomTimes ws" "mSocket ws' = mSocket ws"
    by metis+
qed

lemma after_send_intro:
  "same_but_log ws ws1 \<Longrightarrow>
   after_send ws (ws1\<lparr>mRandomUsed := mRandomUsed ws1 + 1, mTransmitBuffer := tb\<rparr>)"
  unfolding after_send_def using same_but_log_simps(8) [of ws ws1]
  by (cases ws; cases ws1) (simp add: same_but_log_def)

definition sent_frame :: "'s web_socket \<Rightarrow> opcode \<Rightarrow> u8 list \<Rightarrow> frame" where
  "sent_frame ws op xs =
     \<lparr>fr_fin = True, fr_opcode = op, fr_mask = mUseMask ws, fr_key = next_key ws, fr_payload = xs\<rparr>"

lemma sendData_spec:
  assumes op_ok: "can_send ws" and room: "append_room (mTransmitBuffer ws) (14 + length xs + k)"
    and xs: "message_bytes p (ucast n) xs" and n: "n = word_of_nat (length xs)"
  shows "\<exists>ws'. sendData ws op p n = Inr ws' \<and> after_send ws ws' \<and> append_room (mTransmitBuffer ws') k
           \<and> same_limits (mTransmitBuffer ws) (mTransmitBuffer ws')
           \<and> contents (mTransmitBuffer ws') =
             contents (mTransmitBuffer ws) @ encode_frame (sent_frame ws op xs)"
proof -
  obtain ws1 where l: "logSend ws p (ucast n) = Inr ws1"
    using log_total(1) [OF message_bytes_read [OF xs]] by blast
  note sb = same_but_log_simps [OF logSend_same [OF l]]
  let ?key = "next_key ws" and ?tb = "mTransmitBuffer ws" and ?n32 = "ucast n :: u32"
  let ?h = "make_header op (mUseMask ws) n ?key"
  have len: "length xs = unat ?n32" by (rule message_bytes_length [OF xs])
  have h14: "length ?h \<le> 14" by (simp add: length_make_header expected_header_len_bounds)
  then have "unat (word_of_nat (length ?h) :: u32) = length ?h" by simp
  moreover have "append_room ?tb (length ?h + (length xs + k))"
    using append_roomD(3) [OF room] h14 by simp
  ultimately obtain tb1 where tb1: "addBuffer ?tb (Some (bytes_ptr ?h)) (word_of_nat (length ?h)) = Inr (True, tb1)"
      "append_room tb1 (length xs + k)" "same_limits ?tb tb1" "contents tb1 = contents ?tb @ ?h"
    using addBuffer_room [of ?tb "word_of_nat (length ?h)" "length xs + k" "bytes_ptr ?h" ?h] by auto
  have "\<exists>ok tb2. (case p of None \<Rightarrow> Inr (True, tb1) | Some q \<Rightarrow> addBuffer tb1 (Some q) ?n32) = Inr (ok, tb2)
      \<and> append_room tb2 k \<and> same_limits ?tb tb2 \<and> contents tb2 = (contents ?tb @ ?h) @ xs"
  proof (cases p)
    case None
    then show ?thesis using tb1 xs by (auto simp: message_bytes_def)
  next
    case (Some q)
    then show ?thesis
      using addBuffer_room [of tb1 ?n32 k q xs] tb1 xs len same_limits_trans
      by (fastforce simp: message_bytes_def)
  qed
  then obtain ok tb2 where tb2: "(case p of None \<Rightarrow> Inr (True, tb1) | Some q \<Rightarrow> addBuffer tb1 (Some q) ?n32) = Inr (ok, tb2)"
    "append_room tb2 k" "same_limits ?tb tb2" "contents tb2 = (contents ?tb @ ?h) @ xs" by blast
  obtain tb3 where mt: "mask_tail (mEndian ws) tb2 ?n32 ?key = Inr tb3"
    "tb3 = tb2\<lparr>mBuffer := mBuffer tb3\<rparr>" "buf_inv tb3" "contents tb3 = (contents ?tb @ ?h) @ xor_key ?key xs"
    using mask_tail_spec [OF append_roomD(1) [OF tb2(2)] tb2(4), of ?n32 "mEndian ws" ?key] len by auto
  have same3: "mStartLoc tb3 = mStartLoc tb2" "mEndLoc tb3 = mEndLoc tb2" "mMaxGrowSize tb3 = mMaxGrowSize tb2"
    "mDefaultSize tb3 = mDefaultSize tb2" "mHeap tb3 = mHeap tb2"
    using mt(2) by (metis simple_buffer.select_convs simple_buffer.surjective simple_buffer.update_convs(1))+
  then have tb3: "append_room tb3 k" "same_limits ?tb tb3"
    using tb2(2,3) mt(3) by (auto simp: append_room_def same_limits_def getSize_def)
  let ?tb' = "if mUseMask ws then tb3 else tb2"
  have "sendData ws op p n = Inr (ws1\<lparr>mRandomUsed := mRandomUsed ws1 + 1, mTransmitBuffer := ?tb'\<rparr>)"
    using op_ok l tb1(1) tb2(1) mt(1)
    by (simp add: sendData_def getMaskingKey_eq sb Let_def can_send_def)
  moreover have "contents ?tb' = contents ?tb @ encode_frame (sent_frame ws op xs)"
    using mt(4) tb2(4) n by (simp add: encode_frame_def sent_frame_def make_header_eq)
  ultimately show ?thesis
    using after_send_intro [OF logSend_same [OF l], of ?tb'] tb2(2,3) tb3 by auto
qed

lemma sendData_closed:
  assumes "\<not> can_send ws" and "read_opt p (ucast n) = Inr xs"
  shows "\<exists>ws'. sendData ws op p n = Inr ws' \<and> after_send ws ws' \<and> mTransmitBuffer ws' = mTransmitBuffer ws"
proof -
  obtain ws1 where l: "logSend ws p (ucast n) = Inr ws1" using log_total(1) [OF assms(2)] by blast
  note sb = same_but_log_simps [OF logSend_same [OF l]]
  have "sendData ws op p n = Inr (ws1\<lparr>mRandomUsed := mRandomUsed ws1 + 1\<rparr>)"
    using assms(1) l by (simp add: sendData_def getMaskingKey_eq sb Let_def can_send_def)
  moreover have eq: "ws1\<lparr>mRandomUsed := mRandomUsed ws1 + 1, mTransmitBuffer := mTransmitBuffer ws1\<rparr>
      = ws1\<lparr>mRandomUsed := mRandomUsed ws1 + 1\<rparr>" by simp
  have "after_send ws (ws1\<lparr>mRandomUsed := mRandomUsed ws1 + 1\<rparr>)"
    using after_send_intro [OF logSend_same [OF l], of "mTransmitBuffer ws1"] unfolding eq .
  ultimately show ?thesis using sb(1) by auto
qed

text \<open>\<open>close\<close> queues the close frame once.\<close>

definition close_frame :: frame where
  "close_frame = \<lparr>fr_fin = True, fr_opcode = CLOSE, fr_mask = True, fr_key = [0, 0, 0, 0], fr_payload = []\<rparr>"

lemma encode_close_frame: "encode_frame close_frame = closeFrame"
  by (simp add: encode_frame_def close_frame_def closeFrame_def frame_header_def byte_at_def xor_key_def)

lemma close_ws_spec:
  assumes "can_send ws" and "append_room (mTransmitBuffer ws) (6 + k)"
  shows "\<exists>tb. close_ws ws = Inr (ws\<lparr>mReadyState := CLOSING, mTransmitBuffer := tb\<rparr>)
           \<and> append_room tb k \<and> contents tb = contents (mTransmitBuffer ws) @ encode_frame close_frame"
  using assms addBuffer_room [of "mTransmitBuffer ws" 6 k "bytes_ptr closeFrame" closeFrame]
  by (auto simp: close_ws_def can_send_def Let_def closeFrame_def encode_close_frame)

lemma close_ws_closed: "\<not> can_send ws \<Longrightarrow> close_ws ws = Inr ws"
  by (auto simp: close_ws_def can_send_def)

section \<open>Connections to test with\<close>

text \<open>
  An open connection whose receive buffer holds the given bytes; masking key number \<open>k\<close> is made
  from the random number \<open>k + 1\<close>.
\<close>

definition loaded_buffer :: "u8 list \<Rightarrow> simple_buffer" where
  "loaded_buffer bytes =
     \<lparr>mBuffer = \<lparr>blk_addr = 3, blk_size = 16384, blk_mem = put (\<lambda>_. 0) 0 bytes\<rparr>, mStartLoc = 0,
      mEndLoc = word_of_nat (length bytes), mMaxLen = 16384, mMaxGrowSize = 0x20000000,
      mDefaultSize = 16384, mHeap = zero_heap\<rparr>"

definition open_connection :: "bool \<Rightarrow> u8 list \<Rightarrow> unit web_socket" where
  "open_connection useMask bytes =
     (new_server_connection zero_heap LittleEndian (\<lambda>k. word_of_nat k + 1) [] 0 (Some ()) useMask)
       \<lparr>mReadyState := OPEN, mReceiveBuffer := loaded_buffer bytes\<rparr>"

lemma loaded_buffer:
  assumes "length bytes \<le> 16384"
  shows "buf_inv (loaded_buffer bytes)" "contents (loaded_buffer bytes) = bytes"
  using assms by (simp_all add: buf_inv_def loaded_buffer_def contents_def getSize_def word_le_nat_alt)

lemma open_connection_simps [simp]:
  "mReceiveBuffer (open_connection m bytes) = loaded_buffer bytes"
  "can_send (open_connection m bytes)" "mReadyState (open_connection m bytes) = OPEN"
  "mUseMask (open_connection m bytes) = m" "mEndian (open_connection m bytes) = LittleEndian"
  "mRandomUsed (open_connection m bytes) = 0" "mLogFile (open_connection m bytes) = None"
  "mRandomTimes (open_connection m bytes) = (\<lambda>k. word_of_nat k + 1)"
  "contents (mTransmitBuffer (open_connection m bytes)) = []"
  "contents (mReceivedData (open_connection m bytes)) = []"
  by (simp_all add: open_connection_def new_server_connection_def can_send_def)

lemma open_connection_room:
  "k \<le> 100000000 \<Longrightarrow> append_room (mTransmitBuffer (open_connection m bytes)) k"
  "k \<le> 100000000 \<Longrightarrow> append_room (mReceivedData (open_connection m bytes)) k"
  by (simp_all add: open_connection_def new_server_connection_def append_room_def
      DEFAULT_TRANSMIT_BUFFER_SIZE_def DEFAULT_RECEIVE_BUFFER_SIZE_def DEFAULT_MAXIMUM_BUFFER_SIZE_def
      buf_inv_create)
    (simp_all add: create_buffer_def reset_def)

section \<open>Properties\<close>

text \<open>C17. On a connection that may send, and while the transmit buffer has room, \<open>sendData\<close> appends exactly one
  final frame with the given opcode and payload, masked with the next key when masking is on, and
  changes nothing but the transmit buffer, the key counter and the log.\<close>
theorem sendData_appends_frame:
  assumes "can_send ws" and "append_room (mTransmitBuffer ws) (14 + length xs)"
    and "message_bytes p (ucast n) xs" and "n = word_of_nat (length xs)"
  shows "\<exists>ws'. sendData ws op p n = Inr ws' \<and> after_send ws ws'
    \<and> contents (mTransmitBuffer ws') = contents (mTransmitBuffer ws) @ encode_frame
        \<lparr>fr_fin = True, fr_opcode = op, fr_mask = mUseMask ws, fr_key = next_key ws, fr_payload = xs\<rparr>"
  using sendData_spec [of ws xs 0, OF assms(1) _ assms(3,4)] assms(2) by (auto simp: sent_frame_def)

lemma sendData_appends_frame_witness:
  "\<exists>ws'. sendData (open_connection True []) PONG (Some (bytes_ptr [7, 8])) 2 = Inr ws'
     \<and> contents (mTransmitBuffer ws') = [0x8A, 0x82, 1, 0, 0, 0, 6, 8]"
proof -
  have key: "next_key (open_connection True []) = [1, 0, 0, 0]"
    by (simp add: next_key_def key_at_def)
  have enc: "encode_frame \<lparr>fr_fin = True, fr_opcode = PONG, fr_mask = True, fr_key = [1, 0, 0, 0], fr_payload = [7, 8]\<rparr>
      = [0x8A, 0x82, 1, 0, 0, 0, 6, 8]"
    by (simp add: encode_frame_def frame_header_def byte_at_def xor_key_def upt_rec)
  have "message_bytes (Some (bytes_ptr [7, 8])) (ucast (2 :: u64)) [7, 8]"
    by (simp add: message_bytes_def)
  from sendData_appends_frame [OF _ _ this, where ws = "open_connection True []" and op = PONG]
  show ?thesis by (auto simp: open_connection_room key enc)
qed

text \<open>Once \<open>close\<close> has been called (or the connection is closed), nothing sent later reaches the transmit
  buffer.\<close>
theorem nothing_sent_after_close:
  assumes "mReadyState ws = CLOSING \<or> mReadyState ws = CLOSED" and "sendData ws op p n = Inr ws'"
  shows "mTransmitBuffer ws' = mTransmitBuffer ws \<and> mReadyState ws' = mReadyState ws"
proof -
  from assms obtain ws1 where l: "logSend ws p (ucast n) = Inr ws1"
    by (auto simp: sendData_def ebind_Inr_iff)
  with assms same_but_log_simps [OF logSend_same [OF l]] show ?thesis
    by (auto simp: sendData_def getMaskingKey_eq Let_def)
qed

lemma nothing_sent_after_close_witness:
  "\<exists>ws'. sendData ((open_connection True [])\<lparr>mReadyState := CLOSING\<rparr>) PING None 0 = Inr ws'
     \<and> mTransmitBuffer ws' = mTransmitBuffer (open_connection True [])"
proof -
  let ?ws = "(open_connection True [])\<lparr>mReadyState := CLOSING\<rparr>"
  obtain ws' where s: "sendData ?ws PING None 0 = Inr ws'"
    using sendData_closed [of ?ws None 0 "[]" PING] by (auto simp: can_send_def read_opt_def)
  from nothing_sent_after_close [OF _ s] s show ?thesis by auto
qed

text \<open>\<open>close\<close> takes effect once: afterwards the connection is closing or closed, and calling it again
  changes nothing.\<close>
theorem close_idempotent:
  assumes "close_ws ws = Inr ws'"
  shows "(mReadyState ws' = CLOSING \<or> mReadyState ws' = CLOSED) \<and> close_ws ws' = Inr ws'"
  using assms by (auto simp: close_ws_def Let_def ebind_Inr_iff split: if_splits)

lemma close_idempotent_witness:
  "\<exists>ws'. close_ws (open_connection True []) = Inr ws' \<and> close_ws ws' = Inr ws'"
proof -
  obtain tb where "close_ws (open_connection True []) =
      Inr ((open_connection True [])\<lparr>mReadyState := CLOSING, mTransmitBuffer := tb\<rparr>)"
    using close_ws_spec [of "open_connection True []" 0] by (auto simp: open_connection_room)
  from close_idempotent [OF this] this show ?thesis by blast
qed

end
