(* ===== verification/WsDispatch.thy ===== *)
theory WsDispatch
  imports WebSocketImpl
begin

text \<open>
  \<open>ext/easywsclient/easywsclient.cpp\<close>, \<open>WebSocketImpl::_dispatchBinary\<close>: the loop that takes the
  frames out of the receive buffer, reassembles fragmented messages, hands messages to the
  callback and answers pings and close frames. The callback is a recorder: each call of
  \<open>receiveMessage\<close> appends the bytes it was given and the \<open>isAscii\<close> flag to a list. The loop
  is \<open>run_loop\<close>: \<open>None\<close> when it never ends.
\<close>

section \<open>The code\<close>

type_synonym message = "u8 list \<times> bool"

text \<open>\<open>fastXOR(data + ws.header_size, uint32_t(ws.N), ws.masking_key)\<close>, if the frame is masked.\<close>

definition payload_ptr :: "'s web_socket \<Rightarrow> wsheader \<Rightarrow> ptr" where
  "payload_ptr ws h =
     (let ((blk, start), dataLen) = getData (mReceiveBuffer ws) in (blk, start + unat (ws_header_size h)))"

definition unmask :: "'s web_socket \<Rightarrow> wsheader \<Rightarrow> 's web_socket result" where
  "unmask ws h =
     (if ws_mask h then
        ebind (block_xor (mEndian ws) (fst (payload_ptr ws h)) (snd (payload_ptr ws h))
                 (ucast (ws_N h)) (ws_masking_key h))
          (\<lambda>blk. Inr (ws\<lparr>mReceiveBuffer := (mReceiveBuffer ws)\<lparr>mBuffer := blk\<rparr>\<rparr>))
      else Inr ws)"

text \<open>\<open>logReceive\<close> followed by the callback, which reads the \<open>n\<close> bytes it is given.\<close>

definition deliver ::
  "'s web_socket \<times> message list \<Rightarrow> ptr \<Rightarrow> u32 \<Rightarrow> bool \<Rightarrow> ('s web_socket \<times> message list) result" where
  "deliver st p n isAscii =
     ebind (logReceive (fst st) (Some p) n) (\<lambda>ws.
     ebind (blk_read p (unat n)) (\<lambda>xs. Inr (ws, snd st @ [(xs, isAscii)])))"

definition consume_frame :: "'s web_socket \<Rightarrow> wsheader \<Rightarrow> 's web_socket" where
  "consume_frame ws h = ws\<lparr>mReceiveBuffer := consume (mReceiveBuffer ws) (frame_size h)\<rparr>"

text \<open>The branch for text, binary and continuation frames.\<close>

definition handle_data ::
  "bool \<Rightarrow> 's web_socket \<times> message list \<Rightarrow> wsheader \<Rightarrow> ('s web_socket \<times> message list) result" where
  "handle_data callback st h =
     ebind (unmask (fst st) h) (\<lambda>ws.
     let isAscii = (ws_opcode h = TEXT_FRAME); n = ucast (ws_N h) :: u32
     in ebind
       (if ws_fin h \<and> getSize (mReceivedData ws) = 0 then
          (if callback then deliver (ws, snd st) (payload_ptr ws h) n isAscii else Inr (ws, snd st))
        else
          ebind (addBuffer (mReceivedData ws) (Some (payload_ptr ws h)) n) (\<lambda>(_, rd).
          let ws = ws\<lparr>mReceivedData := rd\<rparr>
          in if ws_fin h then
               ebind (if callback \<and> getSize (mReceivedData ws) \<noteq> 0 then
                        let (rdata, dlen) = getData (mReceivedData ws)
                        in deliver (ws, snd st) rdata dlen isAscii
                      else Inr (ws, snd st)) (\<lambda>(ws, msgs).
               Inr (ws\<lparr>mReceivedData := clear (mReceivedData ws)\<rparr>, msgs))
             else Inr (ws, snd st)))
       (\<lambda>(ws, msgs). Inr (consume_frame ws h, msgs)))"

definition handle_ping :: "'s web_socket \<Rightarrow> wsheader \<Rightarrow> 's web_socket result" where
  "handle_ping ws h =
     ebind (unmask ws h) (\<lambda>ws.
     ebind (sendData ws PONG (if ws_N h \<noteq> 0 then Some (payload_ptr ws h) else None) (ws_N h)) (\<lambda>ws.
     Inr (consume_frame ws h)))"

text \<open>What the loop does with a whole frame; \<open>True\<close> goes on, \<open>False\<close> leaves the loop.\<close>

definition handle_frame ::
  "bool \<Rightarrow> 's web_socket \<times> message list \<Rightarrow> wsheader \<Rightarrow>
   (bool \<times> 's web_socket \<times> message list) result" where
  "handle_frame callback st h =
     (if ws_opcode h = TEXT_FRAME \<or> ws_opcode h = BINARY_FRAME \<or> ws_opcode h = CONTINUATION then
        ebind (handle_data callback st h) (\<lambda>st. Inr (True, st))
      else if ws_opcode h = PING then
        ebind (handle_ping (fst st) h) (\<lambda>ws. Inr (True, ws, snd st))
      else if ws_opcode h = PONG then
        Inr (True, consume_frame (fst st) h, snd st)
      else ebind (close_ws (fst st)) (\<lambda>ws. Inr (False, ws, snd st)))"

definition dispatch_step ::
  "bool \<Rightarrow> 's web_socket \<times> message list \<Rightarrow>
   ('s web_socket \<times> message list, ('s web_socket \<times> message list) result) control" where
  "dispatch_step callback st =
     (let (data, dataLen) = getData (mReceiveBuffer (fst st))
      in case blk_read data (unat dataLen) of
           Inl e \<Rightarrow> Break (Inl e)
         | Inr bytes \<Rightarrow>
             (case parse_header bytes of
                None \<Rightarrow> Break (Inr st)
              | Some h \<Rightarrow>
                  if dataLen < frame_size h then Break (Inr st)
                  else case handle_frame callback st h of
                         Inl e \<Rightarrow> Break (Inl e)
                       | Inr (True, st) \<Rightarrow> Continue st
                       | Inr (False, st) \<Rightarrow> Break (Inr st)))"

definition dispatchBinary ::
  "bool \<Rightarrow> 's web_socket \<times> message list \<Rightarrow> ('s web_socket \<times> message list) result option" where
  "dispatchBinary callback st = run_loop (dispatch_step callback) st"

end
