(* ===== verification/WsReceive.thy ===== *)
theory WsReceive
  imports WsDispatch
begin

text \<open>
  What \<open>_dispatchBinary\<close> does to a receive buffer that holds whole frames: an abstract
  receiver works on frames, and the loop over the bytes refines it.
\<close>

section \<open>The abstract receiver\<close>

text \<open>
  \<open>rc_partial\<close> is the fragmented message received so far, \<open>rc_msgs\<close> the messages delivered,
  \<open>rc_sent\<close> the frames queued in answer, \<open>rc_keys\<close> the number of masking keys drawn and
  \<open>rc_open\<close> whether the connection may still send. \<open>mk\<close> builds the frame for a payload from
  the number of its key.
\<close>

record receiver =
  rc_partial :: "u8 list"
  rc_msgs :: "message list"
  rc_sent :: "frame list"
  rc_keys :: nat
  rc_open :: bool

definition is_data :: "opcode \<Rightarrow> bool" where
  "is_data op \<longleftrightarrow> op = TEXT_FRAME \<or> op = BINARY_FRAME \<or> op = CONTINUATION"

definition receive_frame ::
  "(nat \<Rightarrow> u8 list \<Rightarrow> frame) \<Rightarrow> frame \<Rightarrow> receiver \<Rightarrow> receiver" where
  "receive_frame mk f r =
     (if is_data (fr_opcode f) then
        (if fr_fin f then
           r\<lparr>rc_partial := [],
             rc_msgs := rc_msgs r @ [(rc_partial r @ fr_payload f, fr_opcode f = TEXT_FRAME)]\<rparr>
         else r\<lparr>rc_partial := rc_partial r @ fr_payload f\<rparr>)
      else if fr_opcode f = PING then
        r\<lparr>rc_keys := rc_keys r + 1,
          rc_sent := rc_sent r @ (if rc_open r then [mk (rc_keys r) (fr_payload f)] else [])\<rparr>
      else if fr_opcode f = PONG then r
      else r\<lparr>rc_open := False, rc_sent := rc_sent r @ (if rc_open r then [close_frame] else [])\<rparr>)"

definition ends_session :: "frame \<Rightarrow> bool" where
  "ends_session f \<longleftrightarrow> \<not> is_data (fr_opcode f) \<and> fr_opcode f \<noteq> PING \<and> fr_opcode f \<noteq> PONG"

text \<open>All the frames up to the first close frame; the close frame stays in the buffer.\<close>

fun receive_frames ::
  "(nat \<Rightarrow> u8 list \<Rightarrow> frame) \<Rightarrow> frame list \<Rightarrow> receiver \<Rightarrow> receiver \<times> frame list" where
  "receive_frames mk [] r = (r, [])"
| "receive_frames mk (f # fs) r =
     (if ends_session f then (receive_frame mk f r, f # fs)
      else receive_frames mk fs (receive_frame mk f r))"

definition encode_frames :: "frame list \<Rightarrow> u8 list" where
  "encode_frames fs = concat (map encode_frame fs)"

lemma encode_frames_simps [simp]:
  "encode_frames [] = []"
  "encode_frames (f # fs) = encode_frame f @ encode_frames fs"
  "encode_frames (fs @ gs) = encode_frames fs @ encode_frames gs"
  by (auto simp: encode_frames_def)

section \<open>One frame in the receive buffer\<close>

definition header_of :: "frame \<Rightarrow> wsheader" where
  "header_of f = written_header (fr_fin f) (fr_opcode f) (fr_mask f)
                   (word_of_nat (length (fr_payload f))) (fr_key f)"

lemma header_of_simps [simp]:
  "ws_fin (header_of f) = fr_fin f" "ws_opcode (header_of f) = fr_opcode f"
  "ws_mask (header_of f) = fr_mask f" "ws_N (header_of f) = word_of_nat (length (fr_payload f))"
  "ws_masking_key (header_of f) = (if fr_mask f then fr_key f else [0, 0, 0, 0])"
  by (simp_all add: header_of_def written_header_def)

lemma u64_length:
  assumes "frame_ok f"
  shows "unat (word_of_nat (length (fr_payload f)) :: u64) = length (fr_payload f)"
    "unat (ucast (word_of_nat (length (fr_payload f)) :: u64) :: u32) = length (fr_payload f)"
proof -
  have *: "length (fr_payload f) < 2 ^ 30" using assms by (simp add: frame_ok_def)
  then show "unat (word_of_nat (length (fr_payload f)) :: u64) = length (fr_payload f)"
    by (simp add: unat_of_nat take_bit_nat_eq_self)
  then show "unat (ucast (word_of_nat (length (fr_payload f)) :: u64) :: u32) = length (fr_payload f)"
    using * unfolding unsigned_ucast_eq by (simp only:) (rule take_bit_nat_eq_self, simp)
qed

lemma parse_encoded:
  "frame_ok f \<Longrightarrow> parse_header (encode_frame f @ rest) = Some (header_of f)"
  by (simp add: encode_frame_def header_of_def frame_ok_def parse_frame_header)

definition head_len :: "frame \<Rightarrow> nat" where
  "head_len f = expected_header_len (word_of_nat (length (fr_payload f))) (fr_mask f)"

lemma header_size_of_frame: "unat (ws_header_size (header_of f)) = head_len f"
  using expected_header_len_bounds(2) [of "word_of_nat (length (fr_payload f))" "fr_mask f"]
  by (simp add: header_of_def written_header_def head_len_def)

lemma head_len_bounds: "2 \<le> head_len f" "head_len f \<le> 14"
  by (simp_all add: head_len_def expected_header_len_bounds)

lemma length_encode_frame:
  "frame_ok f \<Longrightarrow> length (encode_frame f) = head_len f + length (fr_payload f)"
  by (simp add: encode_frame_def frame_ok_def length_frame_header head_len_def)

lemma frame_size_encoded:
  assumes "frame_ok f"
  shows "unat (frame_size (header_of f)) = length (encode_frame f)"
proof -
  have "length (fr_payload f) < 2 ^ 30" using assms by (simp add: frame_ok_def)
  then show ?thesis
    using head_len_bounds(2) [of f] header_size_of_frame [of f] u64_length(2) [OF assms]
    by (simp add: frame_size_def length_encode_frame [OF assms] unat_add_u32)
qed

text \<open>
  The payload of the first frame, unmasked in place. The receive buffer is the same up to
  those bytes.
\<close>

lemma unmask_frame:
  assumes inv: "buf_inv (mReceiveBuffer ws)" and ok: "frame_ok f"
    and c: "contents (mReceiveBuffer ws) = encode_frame f @ rest"
  shows "\<exists>rb. unmask ws (header_of f) = Inr (ws\<lparr>mReceiveBuffer := rb\<rparr>) \<and> buf_inv rb
    \<and> blk_read (payload_ptr (ws\<lparr>mReceiveBuffer := rb\<rparr>) (header_of f)) (length (fr_payload f))
        = Inr (fr_payload f)
    \<and> drop (length (encode_frame f)) (contents rb) = rest"
proof -
  let ?b = "mReceiveBuffer ws" and ?xs = "fr_payload f"
  define hd where "hd = frame_header (fr_fin f) (fr_opcode f) (fr_mask f) (word_of_nat (length ?xs)) (fr_key f)"
  have hl: "length hd = head_len f"
    using ok by (simp add: hd_def length_frame_header head_len_def frame_ok_def)
  have enc: "encode_frame f = hd @ (if fr_mask f then xor_key (fr_key f) ?xs else ?xs)"
    by (simp add: encode_frame_def hd_def)
  have read: "blk_read (payload_ptr (ws\<lparr>mReceiveBuffer := rb\<rparr>) (header_of f)) (length ?xs) = Inr ?xs"
    if "buf_inv rb" "contents rb = hd @ ?xs @ rest" for rb
  proof -
    note nat = buf_inv_nat [OF that(1)]
    have size: "unat (getSize rb) = head_len f + (length ?xs + length rest)"
      using arg_cong [OF that(2), of length] hl by simp
    have "mslice (blk_mem (mBuffer rb)) (unat (mStartLoc rb) + head_len f) (length ?xs) = ?xs"
      using that(2) hl unfolding contents_def size slice_add by simp
    then show ?thesis
      using nat size by (simp add: payload_ptr_def getData_def blk_read_def header_size_of_frame)
  qed
  have len: "length (encode_frame f) = length hd + length ?xs" by (simp add: enc)
  show ?thesis
  proof (cases "fr_mask f")
    case False
    then have "unmask ws (header_of f) = Inr (ws\<lparr>mReceiveBuffer := ?b\<rparr>)" by (simp add: unmask_def)
    moreover have "contents ?b = hd @ ?xs @ rest" using c False by (simp add: enc)
    ultimately show ?thesis using inv read [of ?b] len by (intro exI [of _ ?b]) auto
  next
    case True
    define ys where "ys = xor_key (fr_key f) ?xs"
    have c': "contents ?b = hd @ ys @ rest" using c True by (simp add: enc ys_def)
    let ?blk = "(mBuffer ?b)\<lparr>blk_mem :=
        xor_range (blk_mem (mBuffer ?b)) (unat (mStartLoc ?b) + length hd) (length ys) (fr_key f)\<rparr>"
    let ?rb = "?b\<lparr>mBuffer := ?blk\<rparr>"
    note xm = xor_middle [OF inv c' refl, of "fr_key f"]
    have c2: "contents ?rb = hd @ ?xs @ rest"
      using xm(2) by (simp add: ys_def xor_key_involution)
    have "unat (getSize ?b) = length hd + (length ys + length rest)"
      using arg_cong [OF c', of length] by simp
    then have "unmask ws (header_of f) = Inr (ws\<lparr>mReceiveBuffer := ?rb\<rparr>)"
      using True buf_inv_nat [OF inv] u64_length(2) [OF ok] hl
      by (simp add: unmask_def payload_ptr_def getData_def block_xor_Inr header_size_of_frame ys_def)
    then show ?thesis using xm(1) c2 read len by (intro exI [of _ ?rb]) auto
  qed
qed

section \<open>The refinement relation\<close>

definition receiver_rel :: "u8 list \<Rightarrow> receiver \<Rightarrow> 's web_socket \<times> message list \<Rightarrow> bool" where
  "receiver_rel tx0 r st \<longleftrightarrow>
     buf_inv (mReceiveBuffer (fst st)) \<and> contents (mReceivedData (fst st)) = rc_partial r
     \<and> snd st = rc_msgs r \<and> contents (mTransmitBuffer (fst st)) = tx0 @ encode_frames (rc_sent r)
     \<and> mRandomUsed (fst st) = rc_keys r \<and> can_send (fst st) = rc_open r"

text \<open>Room for \<open>k\<close> more bytes of fragments and of answers.\<close>

definition receiver_room :: "nat \<Rightarrow> 's web_socket \<Rightarrow> bool" where
  "receiver_room k ws \<longleftrightarrow> append_room (mReceivedData ws) k \<and> append_room (mTransmitBuffer ws) k"

definition same_setup :: "'s web_socket \<Rightarrow> 's web_socket \<Rightarrow> bool" where
  "same_setup ws ws' \<longleftrightarrow> mUseMask ws' = mUseMask ws \<and> mEndian ws' = mEndian ws
     \<and> mRandomTimes ws' = mRandomTimes ws \<and> mSocket ws' = mSocket ws"

definition pong_of :: "'s web_socket \<Rightarrow> nat \<Rightarrow> u8 list \<Rightarrow> frame" where
  "pong_of ws k xs =
     \<lparr>fr_fin = True, fr_opcode = PONG, fr_mask = mUseMask ws,
      fr_key = key_at (mEndian ws) (mRandomTimes ws) k, fr_payload = xs\<rparr>"

lemma same_setup_refl [simp]: "same_setup ws ws"
  by (simp add: same_setup_def)

lemma same_setup_trans: "same_setup a b \<Longrightarrow> same_setup b c \<Longrightarrow> same_setup a c"
  by (simp add: same_setup_def)

lemma same_setup_pong: "same_setup ws ws' \<Longrightarrow> pong_of ws' = pong_of ws"
  unfolding same_setup_def pong_of_def by (intro ext) simp

definition frame_cost :: "frame \<Rightarrow> nat" where
  "frame_cost f = 14 + length (fr_payload f)"

lemma receiver_room_mono: "receiver_room k ws \<Longrightarrow> m \<le> k \<Longrightarrow> receiver_room m ws"
  by (auto simp: receiver_room_def dest: append_roomD(3))

lemma deliver_total:
  assumes "blk_read p (unat n) = Inr xs"
  shows "\<exists>ws'. deliver st p n a = Inr (ws', snd st @ [(xs, a)]) \<and> same_but_log (fst st) ws'"
proof -
  have "read_opt (Some p) n = Inr xs" using assms by (auto simp: read_opt_def blk_read_def split: if_splits)
  then obtain ws' where "logReceive (fst st) (Some p) n = Inr ws'" using log_total(2) by blast
  with assms logReceive_same show ?thesis by (fastforce simp: deliver_def)
qed

lemma consume_frame_spec:
  assumes "buf_inv (mReceiveBuffer ws)" and "frame_ok f"
  shows "buf_inv (mReceiveBuffer (consume_frame ws (header_of f)))"
    "contents (mReceiveBuffer (consume_frame ws (header_of f)))
       = drop (length (encode_frame f)) (contents (mReceiveBuffer ws))"
  using consume_spec [OF assms(1)] frame_size_encoded [OF assms(2)]
  by (simp_all add: consume_frame_def)

text \<open>The three outcomes of a data frame.\<close>

lemma append_room_clear: "append_room b k \<Longrightarrow> append_room (clear b) k"
  using buf_inv_clear [of b] by (auto simp: append_room_def clear_def getSize_def)

lemma same_but_log_rel:
  assumes "same_but_log ws ws'"
  shows "same_setup ws ws'" "can_send ws' = can_send ws"
  using same_but_log_simps [OF assms] by (simp_all add: same_setup_def can_send_def)

lemma handle_data_frame:
  assumes rel: "receiver_rel tx0 r (ws, msgs)" and room: "receiver_room (frame_cost f + k) ws"
    and ok: "frame_ok f" and data: "is_data (fr_opcode f)"
    and c: "contents (mReceiveBuffer ws) = encode_frame f @ rest"
  shows "\<exists>ws' msgs'. handle_data True (ws, msgs) (header_of f) = Inr (ws', msgs')
    \<and> receiver_rel tx0 (receive_frame mk f r) (ws', msgs') \<and> receiver_room k ws' \<and> same_setup ws ws'
    \<and> contents (mReceiveBuffer ws') = rest"
proof -
  let ?xs = "fr_payload f" and ?h = "header_of f" and ?rd = "mReceivedData ws"
  let ?n = "ucast (word_of_nat (length ?xs) :: u64) :: u32" and ?a = "fr_opcode f = TEXT_FRAME"
  have inv: "buf_inv (mReceiveBuffer ws)" and part: "contents ?rd = rc_partial r"
    and m: "msgs = rc_msgs r" using rel by (auto simp: receiver_rel_def)
  obtain rb where u: "unmask ws ?h = Inr (ws\<lparr>mReceiveBuffer := rb\<rparr>)" and rb: "buf_inv rb"
    "drop (length (encode_frame f)) (contents rb) = rest"
    and rd: "blk_read (payload_ptr (ws\<lparr>mReceiveBuffer := rb\<rparr>) ?h) (length ?xs) = Inr ?xs"
    using unmask_frame [OF inv ok c] by blast
  let ?ws = "ws\<lparr>mReceiveBuffer := rb\<rparr>"
  have n: "unat ?n = length ?xs" by (rule u64_length(2) [OF ok])
  have empty: "getSize ?rd = 0 \<longleftrightarrow> rc_partial r = []" using part by (simp add: getSize_0_iff)
  have finish: "\<exists>ws' msgs'. Inr (consume_frame ws1 ?h, msgs1) = Inr (ws', msgs')
      \<and> receiver_rel tx0 (receive_frame mk f r) (ws', msgs') \<and> receiver_room k ws' \<and> same_setup ws ws'
      \<and> contents (mReceiveBuffer ws') = rest"
    if "mReceiveBuffer ws1 = rb" "mTransmitBuffer ws1 = mTransmitBuffer ws" "same_setup ws ws1"
      "mRandomUsed ws1 = mRandomUsed ws" "can_send ws1 = can_send ws" "append_room (mReceivedData ws1) k"
      "contents (mReceivedData ws1) = (if fr_fin f then [] else rc_partial r @ ?xs)"
      "msgs1 = msgs @ (if fr_fin f then [(rc_partial r @ ?xs, ?a)] else [])" for ws1 msgs1
    using that consume_frame_spec [of ws1 f] ok rb rel room data
    by (auto simp: receiver_rel_def receive_frame_def receiver_room_def consume_frame_def same_setup_def
        can_send_def intro: append_roomD(3))
  have room': "append_room ?rd (unat ?n + k)" using room n
    by (auto simp: receiver_room_def frame_cost_def intro: append_roomD(3))
  show ?thesis
  proof (cases "fr_fin f \<and> getSize ?rd = 0")
    case True
    obtain ws1 where d: "deliver (?ws, msgs) (payload_ptr ?ws ?h) ?n ?a = Inr (ws1, msgs @ [(?xs, ?a)])"
      and s: "same_but_log ?ws ws1"
      using deliver_total [of "payload_ptr ?ws ?h" ?n ?xs "(?ws, msgs)"] rd n by auto
    have "handle_data True (ws, msgs) ?h = Inr (consume_frame ws1 ?h, msgs @ [(?xs, ?a)])"
      using u d True by (simp add: handle_data_def)
    moreover have "append_room (mReceivedData ws) k"
      using room by (auto simp: receiver_room_def intro: append_roomD(3))
    ultimately show ?thesis
      using finish [of ws1 "msgs @ [(?xs, ?a)]"] same_but_log_simps [OF s] same_but_log_rel [OF s] True empty part
      by (simp add: same_setup_def can_send_def)
  next
    case F: False
    from addBuffer_room [OF room', of "payload_ptr ?ws ?h" ?xs] rd n obtain rd' where
      a: "addBuffer ?rd (Some (payload_ptr ?ws ?h)) ?n = Inr (True, rd')"
      and rd': "append_room rd' k" "contents rd' = rc_partial r @ ?xs" using part by auto
    let ?ws1 = "?ws\<lparr>mReceivedData := rd'\<rparr>"
    show ?thesis
    proof (cases "fr_fin f")
      case False
      then have "handle_data True (ws, msgs) ?h = Inr (consume_frame ?ws1 ?h, msgs)"
        using u a by (simp add: handle_data_def)
      with finish [of ?ws1 msgs] False rd' show ?thesis by (simp add: same_setup_def can_send_def)
    next
      case True
      have ne: "rc_partial r \<noteq> []" using F True empty by simp
      then have "getSize rd' \<noteq> 0" using rd'(2) by (simp add: getSize_0_iff)
      moreover have "blk_read (fst (getData rd')) (unat (snd (getData rd'))) = Inr (contents rd')"
        using read_getData [of rd'] append_roomD(1) [OF rd'(1)] by (simp add: getData_def)
      then obtain ws1 where d: "deliver (?ws1, msgs) (fst (getData rd')) (snd (getData rd')) ?a
          = Inr (ws1, msgs @ [(contents rd', ?a)])" and s: "same_but_log ?ws1 ws1"
        using deliver_total [of "fst (getData rd')" "snd (getData rd')" "contents rd'" "(?ws1, msgs)"] by auto
      ultimately have "handle_data True (ws, msgs) ?h =
          Inr (consume_frame (ws1\<lparr>mReceivedData := clear (mReceivedData ws1)\<rparr>) ?h, msgs @ [(contents rd', ?a)])"
        using u a d F True by (simp add: handle_data_def case_prod_beta Let_def)
      with finish [of "ws1\<lparr>mReceivedData := clear (mReceivedData ws1)\<rparr>" "msgs @ [(contents rd', ?a)]"]
        same_but_log_simps [OF s] same_but_log_rel [OF s] True rd' append_room_clear [OF rd'(1)]
      show ?thesis by (simp add: same_setup_def can_send_def)
    qed
  qed
qed

lemma handle_ping_frame:
  assumes rel: "receiver_rel tx0 r (ws, msgs)" and room: "receiver_room (frame_cost f + k) ws"
    and ok: "frame_ok f" and ping: "fr_opcode f = PING"
    and c: "contents (mReceiveBuffer ws) = encode_frame f @ rest"
  shows "\<exists>ws'. handle_ping ws (header_of f) = Inr ws'
    \<and> receiver_rel tx0 (receive_frame (pong_of ws) f r) (ws', msgs) \<and> receiver_room k ws'
    \<and> same_setup ws ws' \<and> contents (mReceiveBuffer ws') = rest"
proof -
  let ?xs = "fr_payload f" and ?h = "header_of f"
  let ?n = "word_of_nat (length ?xs) :: u64"
  have inv: "buf_inv (mReceiveBuffer ws)" using rel by (simp add: receiver_rel_def)
  obtain rb where u: "unmask ws ?h = Inr (ws\<lparr>mReceiveBuffer := rb\<rparr>)" and rb: "buf_inv rb"
    "drop (length (encode_frame f)) (contents rb) = rest"
    and rd: "blk_read (payload_ptr (ws\<lparr>mReceiveBuffer := rb\<rparr>) ?h) (length ?xs) = Inr ?xs"
    using unmask_frame [OF inv ok c] by blast
  let ?ws = "ws\<lparr>mReceiveBuffer := rb\<rparr>"
  let ?p = "if ?n \<noteq> 0 then Some (payload_ptr ?ws ?h) else None"
  have n: "unat (ucast ?n :: u32) = length ?xs" "unat ?n = length ?xs" by (rule u64_length [OF ok])+
  then have "?n = 0 \<longleftrightarrow> ?xs = []" by (metis length_0_conv unat_eq_zero)
  then have mb: "message_bytes ?p (ucast ?n) ?xs" using rd n by (auto simp: message_bytes_def)
  have key: "sent_frame ?ws PONG ?xs = pong_of ws (rc_keys r) ?xs"
    using rel by (simp add: sent_frame_def pong_of_def next_key_def receiver_rel_def)
  have "\<exists>ws1. sendData ?ws PONG ?p ?n = Inr ws1 \<and> after_send ?ws ws1
      \<and> append_room (mTransmitBuffer ws1) k \<and> contents (mTransmitBuffer ws1) = contents (mTransmitBuffer ws)
          @ (if rc_open r then encode_frame (pong_of ws (rc_keys r) ?xs) else [])"
  proof (cases "rc_open r")
    case True
    have "append_room (mTransmitBuffer ?ws) (14 + length ?xs + k)"
      using room by (simp add: receiver_room_def frame_cost_def)
    with sendData_spec [OF _ this mb refl, of PONG] True rel key show ?thesis
      by (auto simp: receiver_rel_def can_send_def)
  next
    case False
    have "append_room (mTransmitBuffer ws) k"
      using room by (auto simp: receiver_room_def intro: append_roomD(3))
    with sendData_closed [of ?ws ?p ?n ?xs PONG] message_bytes_read [OF mb] False rel show ?thesis
      by (auto simp: receiver_rel_def can_send_def)
  qed
  then obtain ws1 where s: "sendData ?ws PONG ?p ?n = Inr ws1" and a: "after_send ?ws ws1"
    and t: "append_room (mTransmitBuffer ws1) k" "contents (mTransmitBuffer ws1) = contents (mTransmitBuffer ws)
          @ (if rc_open r then encode_frame (pong_of ws (rc_keys r) ?xs) else [])" by blast
  note as = after_sendD [OF a]
  have "handle_ping ws ?h = Inr (consume_frame ws1 ?h)"
    using u s by (simp add: handle_ping_def)
  moreover have "append_room (mReceivedData ws) k"
    using room by (auto simp: receiver_room_def intro: append_roomD(3))
  ultimately show ?thesis
    using consume_frame_spec [of ws1 f] ok rb rel ping t as
    by (auto simp: receiver_rel_def receive_frame_def receiver_room_def consume_frame_def same_setup_def
        can_send_def is_data_def)
qed

text \<open>One pass through the loop takes one frame.\<close>

lemma dispatch_step_whole:
  assumes inv: "buf_inv (mReceiveBuffer ws)" and ok: "frame_ok f"
    and c: "contents (mReceiveBuffer ws) = encode_frame f @ rest"
  shows "dispatch_step cb (ws, msgs) =
      (case handle_frame cb (ws, msgs) (header_of f) of Inl e \<Rightarrow> Break (Inl e)
       | Inr (True, st) \<Rightarrow> Continue st | Inr (False, st) \<Rightarrow> Break (Inr st))"
proof -
  let ?rb = "mReceiveBuffer ws"
  have rd: "blk_read (fst (getData ?rb)) (unat (snd (getData ?rb))) = Inr (encode_frame f @ rest)"
    using read_getData [OF inv, of "unat (getSize ?rb)"] c by (simp add: getData_def flip: length_contents)
  have "unat (getSize ?rb) = length (encode_frame f @ rest)" using c by (metis length_contents)
  then have "\<not> snd (getData ?rb) < frame_size (header_of f)"
    using frame_size_encoded [OF ok] by (simp add: getData_def word_less_nat_alt)
  then show ?thesis
    using rd parse_encoded [OF ok, of rest] by (simp add: dispatch_step_def case_prod_beta Let_def)
qed

lemma dispatch_step_frame:
  assumes rel: "receiver_rel tx0 r (ws, msgs)" and room: "receiver_room (frame_cost f + k) ws"
    and ok: "frame_ok f" and c: "contents (mReceiveBuffer ws) = encode_frame f @ rest"
  shows "\<exists>ws' msgs'. dispatch_step True (ws, msgs) =
        (if ends_session f then Break (Inr (ws', msgs')) else Continue (ws', msgs'))
    \<and> receiver_rel tx0 (receive_frame (pong_of ws) f r) (ws', msgs') \<and> receiver_room k ws'
    \<and> same_setup ws ws'
    \<and> contents (mReceiveBuffer ws') = (if ends_session f then encode_frame f @ rest else rest)"
proof -
  let ?rb = "mReceiveBuffer ws" and ?h = "header_of f"
  have inv: "buf_inv ?rb" using rel by (simp add: receiver_rel_def)
  note step = dispatch_step_whole [OF inv ok c, of True msgs]
  consider (data) "is_data (fr_opcode f)" | (ping) "fr_opcode f = PING" | (pong) "fr_opcode f = PONG"
    | (ends) "ends_session f" by (auto simp: ends_session_def)
  then show ?thesis
  proof cases
    case data
    with handle_data_frame [OF rel room ok data c, of "pong_of ws"] show ?thesis
      by (auto simp: step handle_frame_def is_data_def ends_session_def)
  next
    case ping
    with handle_ping_frame [OF rel room ok ping c] show ?thesis
      by (auto simp: step handle_frame_def is_data_def ends_session_def)
  next
    case pong
    then have "dispatch_step True (ws, msgs) = Continue (consume_frame ws ?h, msgs)"
      by (simp add: step handle_frame_def)
    moreover have "\<not> ends_session f" "receive_frame (pong_of ws) f r = r"
      using pong by (auto simp: ends_session_def receive_frame_def is_data_def)
    moreover have "receiver_rel tx0 r (consume_frame ws ?h, msgs)" "receiver_room k (consume_frame ws ?h)"
      "same_setup ws (consume_frame ws ?h)"
      using consume_frame_spec(1) [OF inv ok] rel receiver_room_mono [OF room, of k]
      by (auto simp: receiver_rel_def receiver_room_def consume_frame_def same_setup_def can_send_def)
    ultimately show ?thesis using consume_frame_spec(2) [OF inv ok] c by simp
  next
    case ends
    then have nd: "\<not> is_data (fr_opcode f)" "fr_opcode f \<noteq> PING" "fr_opcode f \<noteq> PONG"
      by (auto simp: ends_session_def)
    have "\<exists>ws'. close_ws ws = Inr ws' \<and> receiver_rel tx0 (receive_frame (pong_of ws) f r) (ws', msgs)
        \<and> receiver_room k ws' \<and> same_setup ws ws' \<and> mReceiveBuffer ws' = mReceiveBuffer ws"
    proof (cases "rc_open r")
      case True
      have "append_room (mTransmitBuffer ws) (6 + k)" "append_room (mReceivedData ws) k"
        using room by (auto simp: receiver_room_def frame_cost_def intro: append_roomD(3))
      with close_ws_spec [of ws k] True rel nd show ?thesis
        by (auto simp: receiver_rel_def receive_frame_def receiver_room_def same_setup_def can_send_def)
    next
      case False
      with close_ws_closed [of ws] rel nd receiver_room_mono [OF room, of k] show ?thesis
        by (auto simp: receiver_rel_def receive_frame_def)
    qed
    with ends nd c show ?thesis
      by (auto simp: step handle_frame_def is_data_def)
  qed
qed

text \<open>The whole loop, on the frames of the buffer and an incomplete frame behind them.\<close>

definition incomplete :: "u8 list \<Rightarrow> bool" where
  "incomplete bytes \<longleftrightarrow>
     (case parse_header bytes of None \<Rightarrow> True | Some h \<Rightarrow> length bytes < unat (frame_size h))"

lemma dispatch_step_incomplete:
  assumes "buf_inv (mReceiveBuffer ws)" and "incomplete (contents (mReceiveBuffer ws))"
  shows "dispatch_step cb (ws, msgs) = Break (Inr (ws, msgs))"
proof -
  let ?rb = "mReceiveBuffer ws"
  have "blk_read (fst (getData ?rb)) (unat (snd (getData ?rb))) = Inr (contents ?rb)"
    using read_getData [OF assms(1), of "unat (getSize ?rb)"] by (simp add: getData_def)
  then show ?thesis
    using assms(2)
    by (auto simp: dispatch_step_def incomplete_def case_prod_beta Let_def getData_def
        word_less_nat_alt split: option.splits)
qed

lemma dispatch_frames_room:
  assumes "receiver_rel tx0 r (ws, msgs)" and "receiver_room (sum_list (map frame_cost fs) + k) ws"
    and "\<forall>f \<in> set fs. frame_ok f" and "incomplete rest"
    and "contents (mReceiveBuffer ws) = encode_frames fs @ rest"
    and "receive_frames (pong_of ws) fs r = (r', left)"
  shows "\<exists>ws' msgs'. dispatchBinary True (ws, msgs) = Some (Inr (ws', msgs'))
    \<and> receiver_rel tx0 r' (ws', msgs') \<and> receiver_room k ws' \<and> same_setup ws ws'
    \<and> contents (mReceiveBuffer ws') = encode_frames left @ rest"
  using assms
proof (induction fs arbitrary: ws msgs r)
  case Nil
  then show ?case
    using dispatch_step_incomplete [of ws True msgs]
    by (auto simp: dispatchBinary_def receiver_rel_def intro!: run_loop_Break exI)
next
  case (Cons f fs)
  let ?r1 = "receive_frame (pong_of ws) f r"
  from Cons.prems obtain ws1 msgs1 where
    step: "dispatch_step True (ws, msgs) =
        (if ends_session f then Break (Inr (ws1, msgs1)) else Continue (ws1, msgs1))"
    and rel1: "receiver_rel tx0 ?r1 (ws1, msgs1)" and room1: "receiver_room (sum_list (map frame_cost fs) + k) ws1"
    and setup1: "same_setup ws ws1"
    and c1: "contents (mReceiveBuffer ws1) =
        (if ends_session f then encode_frame f @ encode_frames fs @ rest else encode_frames fs @ rest)"
    using dispatch_step_frame [of tx0 r ws msgs f "sum_list (map frame_cost fs) + k" "encode_frames fs @ rest"]
    by (auto simp: add.assoc)
  show ?case
  proof (cases "ends_session f")
    case True
    with Cons.prems(6) have "r' = ?r1" "left = f # fs" by auto
    moreover have "receiver_room k ws1" using room1 by (auto simp: receiver_room_def intro: append_roomD(3))
    ultimately show ?thesis using True step rel1 setup1 c1
      by (auto simp: dispatchBinary_def intro!: run_loop_Break exI)
  next
    case False
    then have "dispatchBinary True (ws, msgs) = dispatchBinary True (ws1, msgs1)"
      unfolding dispatchBinary_def using step by (intro run_loop_Continue) simp
    moreover have "receive_frames (pong_of ws1) fs ?r1 = (r', left)"
      using False Cons.prems(6) same_setup_pong [OF setup1] by simp
    ultimately show ?thesis
      using Cons.IH [OF rel1 room1] Cons.prems(3,4) False c1 same_setup_trans [OF setup1] by fastforce
  qed
qed

lemma dispatch_frames:
  assumes "receiver_rel tx0 r (ws, msgs)" and "receiver_room (sum_list (map frame_cost fs)) ws"
    and "\<forall>f \<in> set fs. frame_ok f" and "incomplete rest"
    and "contents (mReceiveBuffer ws) = encode_frames fs @ rest"
    and "receive_frames (pong_of ws) fs r = (r', left)"
  shows "\<exists>ws' msgs'. dispatchBinary True (ws, msgs) = Some (Inr (ws', msgs'))
    \<and> receiver_rel tx0 r' (ws', msgs') \<and> same_setup ws ws'
    \<and> contents (mReceiveBuffer ws') = encode_frames left @ rest"
  using dispatch_frames_room [OF assms(1) _ assms(3-6), of 0] assms(2) by auto

section \<open>Properties\<close>

text \<open>The receiver a connection stands for before the loop starts.\<close>

definition receiver_of :: "'s web_socket \<Rightarrow> message list \<Rightarrow> receiver" where
  "receiver_of ws msgs =
     \<lparr>rc_partial = contents (mReceivedData ws), rc_msgs = msgs, rc_sent = [],
      rc_keys = mRandomUsed ws, rc_open = can_send ws\<rparr>"

lemma receiver_rel_init:
  "buf_inv (mReceiveBuffer ws) \<Longrightarrow>
   receiver_rel (contents (mTransmitBuffer ws)) (receiver_of ws msgs) (ws, msgs)"
  by (simp add: receiver_rel_def receiver_of_def)

text \<open>C5. The loop over the receive buffer does what the abstract receiver does to the frames in it: it
  returns, delivers the same messages, keeps the same fragments, queues the same answers behind what
  was queued before, and leaves the unread frames and the incomplete frame at the end.\<close>
theorem dispatch_refines_receiver:
  assumes "buf_inv (mReceiveBuffer ws)" and "receiver_room (sum_list (map frame_cost fs)) ws"
    and "\<forall>f \<in> set fs. frame_ok f" and "incomplete rest"
    and "contents (mReceiveBuffer ws) = encode_frames fs @ rest"
    and "receive_frames (pong_of ws) fs (receiver_of ws msgs) = (r, left)"
  shows "\<exists>ws'. dispatchBinary True (ws, msgs) = Some (Inr (ws', rc_msgs r))
    \<and> contents (mReceivedData ws') = rc_partial r
    \<and> contents (mTransmitBuffer ws') = contents (mTransmitBuffer ws) @ encode_frames (rc_sent r)
    \<and> can_send ws' = rc_open r
    \<and> contents (mReceiveBuffer ws') = encode_frames left @ rest"
  using dispatch_frames [OF receiver_rel_init [OF assms(1)] assms(2-6)]
  by (auto simp: receiver_rel_def)

text \<open>A masked frame with the given opcode and payload, for the examples.\<close>

definition test_frame :: "bool \<Rightarrow> opcode \<Rightarrow> u8 list \<Rightarrow> frame" where
  "test_frame f op xs =
     \<lparr>fr_fin = f, fr_opcode = op, fr_mask = True, fr_key = [9, 8, 7, 6], fr_payload = xs\<rparr>"

lemma test_frame_simps [simp]:
  "fr_fin (test_frame f op xs) = f" "fr_opcode (test_frame f op xs) = op"
  "fr_payload (test_frame f op xs) = xs" "frame_cost (test_frame f op xs) = 14 + length xs"
  "frame_ok (test_frame f op xs) = (named_opcode op \<and> length xs < 2 ^ 30)"
  by (auto simp: test_frame_def frame_cost_def frame_ok_def)

lemma incomplete_Nil: "incomplete []" "incomplete [b]"
  by (simp_all add: incomplete_def parse_header_def)

definition mixed_frames :: "frame list" where
  "mixed_frames = [test_frame True PING [1], test_frame False TEXT_FRAME [2], test_frame True CONTINUATION [3],
     test_frame True CLOSE [], test_frame True TEXT_FRAME [4]]"

lemma mixed_frames_bytes: "length (encode_frames mixed_frames) \<le> 16384"
  by (simp add: mixed_frames_def length_encode_frame head_len_def expected_header_len_def named_opcode_def)

lemma dispatch_refines_receiver_witness:
  "\<exists>ws'. dispatchBinary True (open_connection True (encode_frames mixed_frames @ []), []) = Some (Inr (ws', [([2, 3], False)]))
    \<and> contents (mReceiveBuffer ws') = encode_frames [test_frame True CLOSE [], test_frame True TEXT_FRAME [4]]"
proof -
  let ?ws = "open_connection True (encode_frames mixed_frames @ [])"
  obtain r left where r: "receive_frames (pong_of ?ws) mixed_frames (receiver_of ?ws []) = (r, left)"
    "rc_msgs r = [([2, 3], False)]" "left = [test_frame True CLOSE [], test_frame True TEXT_FRAME [4]]"
    by (simp add: mixed_frames_def receive_frame_def ends_session_def is_data_def receiver_of_def)
  have "buf_inv (mReceiveBuffer ?ws)" "contents (mReceiveBuffer ?ws) = encode_frames mixed_frames @ []"
    using loaded_buffer mixed_frames_bytes by simp_all
  moreover have "receiver_room (sum_list (map frame_cost mixed_frames)) ?ws"
    "\<forall>f \<in> set mixed_frames. frame_ok f"
    by (simp_all add: receiver_room_def open_connection_room mixed_frames_def named_opcode_def)
  ultimately show ?thesis
    using dispatch_refines_receiver [OF _ _ _ incomplete_Nil(1) _ r(1)] r(2,3) by fastforce
qed

text \<open>C18. A fragmented message is reassembled: the callback gets one message with the payloads of all fragments
  in order. Its \<open>isAscii\<close> flag is that of the last fragment, so a fragmented text message, whose last
  fragment is a continuation frame, is reported as binary.\<close>
theorem fragments_reassembled:
  assumes "buf_inv (mReceiveBuffer ws)" and "contents (mReceivedData ws) = []"
    and "fs \<noteq> []" and "\<forall>f \<in> set (fs @ [g]). frame_ok f \<and> is_data (fr_opcode f)"
    and "\<forall>f \<in> set fs. \<not> fr_fin f" and "fr_fin g" and "fr_opcode g = CONTINUATION"
    and "receiver_room (sum_list (map frame_cost (fs @ [g]))) ws"
    and "contents (mReceiveBuffer ws) = encode_frames (fs @ [g])"
  shows "\<exists>ws'. dispatchBinary True (ws, msgs)
      = Some (Inr (ws', msgs @ [(concat (map fr_payload (fs @ [g])), False)]))
    \<and> contents (mReceiveBuffer ws') = [] \<and> contents (mReceivedData ws') = []"
proof -
  have run: "receive_frames mk (fs @ [g]) r =
      (r\<lparr>rc_partial := [], rc_msgs := rc_msgs r @ [(rc_partial r @ concat (map fr_payload (fs @ [g])), False)]\<rparr>, [])"
    if "\<forall>f \<in> set fs. \<not> fr_fin f \<and> is_data (fr_opcode f)" for mk r
    using that
  proof (induction fs arbitrary: r)
    case Nil
    then show ?case using assms(6,7) by (simp add: receive_frame_def ends_session_def is_data_def)
  next
    case (Cons f fs)
    then show ?case by (simp add: receive_frame_def ends_session_def)
  qed
  from assms(4,5) have "\<forall>f \<in> set fs. \<not> fr_fin f \<and> is_data (fr_opcode f)" by simp
  note r = run [OF this, of "pong_of ws" "receiver_of ws msgs"]
  show ?thesis
    using dispatch_frames [OF receiver_rel_init [OF assms(1)] assms(8) _ incomplete_Nil(1) _ r] assms(2,4,9)
    by (auto simp: receiver_rel_def receiver_of_def)
qed

lemma fragments_reassembled_witness:
  "\<exists>ws'. dispatchBinary True
       (open_connection True (encode_frames [test_frame False TEXT_FRAME [72, 101], test_frame True CONTINUATION [121]]), [])
     = Some (Inr (ws', [([72, 101, 121], False)]))"
proof -
  let ?fs = "[test_frame False TEXT_FRAME [72, 101]]" and ?g = "test_frame True CONTINUATION [121]"
  let ?ws = "open_connection True (encode_frames (?fs @ [?g]))"
  have "length (encode_frames (?fs @ [?g])) \<le> 16384"
    by (simp add: length_encode_frame head_len_def expected_header_len_def named_opcode_def)
  note lb = loaded_buffer [OF this]
  have "receiver_room (sum_list (map frame_cost (?fs @ [?g]))) ?ws"
    by (simp add: receiver_room_def open_connection_room)
  with fragments_reassembled [of ?ws ?fs ?g "[]"] lb show ?thesis
    by (auto simp: named_opcode_def is_data_def)
qed

text \<open>A ping is answered: on a connection that may send, one pong frame with the payload of the ping is queued, and
  the callback gets nothing.\<close>
lemma ping_is_answered:
  assumes "buf_inv (mReceiveBuffer ws)" and "can_send ws" and "frame_ok f" and "fr_opcode f = PING"
    and "receiver_room (frame_cost f) ws" and "contents (mReceiveBuffer ws) = encode_frame f"
  shows "\<exists>ws'. dispatchBinary True (ws, msgs) = Some (Inr (ws', msgs))
    \<and> contents (mTransmitBuffer ws') = contents (mTransmitBuffer ws) @ encode_frame
        \<lparr>fr_fin = True, fr_opcode = PONG, fr_mask = mUseMask ws, fr_key = next_key ws, fr_payload = fr_payload f\<rparr>
    \<and> contents (mReceiveBuffer ws') = []"
proof -
  have "receive_frames (pong_of ws) [f] (receiver_of ws msgs) =
      ((receiver_of ws msgs)\<lparr>rc_keys := Suc (mRandomUsed ws), rc_sent := [pong_of ws (mRandomUsed ws) (fr_payload f)]\<rparr>, [])"
    using assms(2,4) by (simp add: receive_frame_def ends_session_def is_data_def receiver_of_def)
  from dispatch_frames [OF receiver_rel_init [OF assms(1)] _ _ incomplete_Nil(1) _ this] assms(3,5,6)
  show ?thesis by (auto simp: receiver_rel_def receiver_of_def pong_of_def next_key_def)
qed

text \<open>A close frame ends the conversation: the loop queues a close frame and stops, the connection is closing, and
  the frames behind the close frame are never delivered.\<close>
lemma close_frame_ends:
  assumes "buf_inv (mReceiveBuffer ws)" and "can_send ws" and "frame_ok f" and "fr_opcode f = CLOSE"
    and "receiver_room (frame_cost f) ws" and "contents (mReceiveBuffer ws) = encode_frame f @ rest"
  shows "\<exists>ws'. dispatchBinary True (ws, msgs) = Some (Inr (ws', msgs))
    \<and> contents (mTransmitBuffer ws') = contents (mTransmitBuffer ws) @ closeFrame \<and> \<not> can_send ws'"
proof -
  have ends: "ends_session f" using assms(4) by (simp add: ends_session_def is_data_def)
  from assms(5) have "receiver_room (frame_cost f + 0) ws" by simp
  from dispatch_step_frame [OF receiver_rel_init [OF assms(1), of msgs] this assms(3,6)] ends obtain ws' msgs' where
    "dispatch_step True (ws, msgs) = Break (Inr (ws', msgs'))"
    and rel: "receiver_rel (contents (mTransmitBuffer ws)) (receive_frame (pong_of ws) f (receiver_of ws msgs)) (ws', msgs')"
    by auto
  then have "dispatchBinary True (ws, msgs) = Some (Inr (ws', msgs'))"
    unfolding dispatchBinary_def by (intro run_loop_Break)
  with rel assms(2,4) show ?thesis
    by (auto simp: receiver_rel_def receive_frame_def receiver_of_def is_data_def encode_close_frame)
qed

end
