(* ===== verification/WsLoop.thy ===== *)
theory WsLoop
  imports WsDispatch
begin

text \<open>
  Termination of the loop of \<open>_dispatchBinary\<close> on arbitrary bytes. Every pass that goes on
  consumes \<open>frame_size\<close> bytes, a \<open>uint32_t\<close> sum that can wrap around to 0: the loop returns on
  every receive buffer in which no header has that size, and one ten-byte header of a pong
  frame makes it spin for ever.
\<close>

section \<open>What one pass leaves in the receive buffer\<close>

lemma sendData_receive_buffer:
  "sendData ws op p n = Inr ws' \<Longrightarrow> mReceiveBuffer ws' = mReceiveBuffer ws"
  by (auto simp: sendData_def getMaskingKey_eq Let_def ebind_Inr_iff
      dest!: logSend_same same_but_log_simps(2) split: if_splits)

lemma deliver_receive_buffer:
  "deliver st p n a = Inr (ws', msgs') \<Longrightarrow> mReceiveBuffer ws' = mReceiveBuffer (fst st)"
  by (auto simp: deliver_def ebind_Inr_iff dest!: logReceive_same same_but_log_simps(2))

lemma header_size_pos: "parse_header bytes = Some h \<Longrightarrow> 2 \<le> unat (ws_header_size h) \<and> unat (ws_header_size h) \<le> 14"
  by (auto simp: parse_header_def header_size_of_def Let_def split: if_splits prod.splits)

text \<open>Unmasking changes no byte behind the frame: a payload that wraps around is out of bounds.\<close>

lemma unmask_Inr:
  assumes inv: "buf_inv (mReceiveBuffer ws)" and u: "unmask ws h = Inr ws1"
    and h: "parse_header (contents (mReceiveBuffer ws)) = Some h" and le: "frame_size h \<le> getSize (mReceiveBuffer ws)"
  shows "buf_inv (consume (mReceiveBuffer ws1) (frame_size h)) \<and> contents (consume (mReceiveBuffer ws1) (frame_size h))
           = drop (unat (frame_size h)) (contents (mReceiveBuffer ws))"
proof (cases "ws_mask h")
  case False
  with u have "ws1 = ws" by (simp add: unmask_def)
  with consume_spec [OF inv] show ?thesis by simp
next
  case True
  let ?b = "mReceiveBuffer ws" and ?hs = "unat (ws_header_size h)" and ?n = "unat (ucast (ws_N h) :: u32)"
  note nat = buf_inv_nat [OF inv]
  from u True have bound: "unat (mStartLoc ?b) + ?hs + ?n \<le> blk_size (mBuffer ?b)"
    by (auto simp: unmask_def payload_ptr_def getData_def block_xor_def ebind_Inr_iff split: if_splits)
  then have fs: "unat (frame_size h) = ?hs + ?n"
    using nat unfolding frame_size_def by (intro unat_add_u32) simp
  define xs ys zs where "xs = take ?hs (contents ?b)" and "ys = take ?n (drop ?hs (contents ?b))"
    and "zs = drop ?n (drop ?hs (contents ?b))"
  have c: "contents ?b = xs @ ys @ zs" by (simp add: xs_def ys_def zs_def del: drop_drop)
  have len: "length xs = ?hs" "length ys = ?n"
    using le fs by (auto simp: xs_def ys_def word_le_nat_alt)
  have ws1: "mReceiveBuffer ws1 = ?b\<lparr>mBuffer := (mBuffer ?b)\<lparr>blk_mem :=
      xor_range (blk_mem (mBuffer ?b)) (unat (mStartLoc ?b) + length xs) (length ys) (ws_masking_key h)\<rparr>\<rparr>"
    using u True bound len
    by (auto simp: unmask_def payload_ptr_def getData_def block_xor_Inr)
  note xm = xor_middle [OF inv c ws1]
  have "drop (unat (frame_size h)) (contents (mReceiveBuffer ws1)) = drop (unat (frame_size h)) (contents ?b)"
    using len by (simp add: xm(2) c fs)
  with consume_spec [OF xm(1)] show ?thesis by simp
qed

lemma handle_data_buffer:
  assumes "handle_data cb st h = Inr (ws', msgs')"
  obtains ws1 where "unmask (fst st) h = Inr ws1"
    "mReceiveBuffer ws' = consume (mReceiveBuffer ws1) (frame_size h)"
proof -
  from assms obtain ws1 where u: "unmask (fst st) h = Inr ws1"
    by (auto simp: handle_data_def ebind_Inr_iff)
  have "mReceiveBuffer ws' = consume (mReceiveBuffer ws1) (frame_size h)"
    using assms unfolding handle_data_def u ebind.simps Let_def
    by (auto simp: consume_frame_def ebind_Inr_iff split: if_splits prod.splits
        dest!: deliver_receive_buffer)
  with u that show thesis by blast
qed

lemma handle_ping_buffer:
  assumes "handle_ping ws h = Inr ws'"
  obtains ws1 where "unmask ws h = Inr ws1"
    "mReceiveBuffer ws' = consume (mReceiveBuffer ws1) (frame_size h)"
  using assms
  by (auto simp: handle_ping_def consume_frame_def ebind_Inr_iff dest!: sendData_receive_buffer)

lemma handle_frame_buffer:
  assumes "handle_frame cb (ws, msgs) h = Inr (True, ws', msgs')"
  shows "mReceiveBuffer ws' = consume (mReceiveBuffer ws) (frame_size h) \<or>
    (\<exists>ws1. unmask ws h = Inr ws1 \<and> mReceiveBuffer ws' = consume (mReceiveBuffer ws1) (frame_size h))"
proof -
  from assms consider (data) "handle_data cb (ws, msgs) h = Inr (ws', msgs')"
    | (ping) "handle_ping ws h = Inr ws'" | (pong) "ws' = consume_frame ws h"
    by (auto simp: handle_frame_def ebind_Inr_iff split: if_splits)
  then show ?thesis
  proof cases
    case data
    then show ?thesis by (rule handle_data_buffer) auto
  next
    case ping
    then show ?thesis by (rule handle_ping_buffer) auto
  next
    case pong
    then show ?thesis by (simp add: consume_frame_def)
  qed
qed

lemma dispatch_step_Continue:
  assumes inv: "buf_inv (mReceiveBuffer ws)" and st: "dispatch_step cb (ws, msgs) = Continue (ws', msgs')"
  shows "\<exists>h. parse_header (contents (mReceiveBuffer ws)) = Some h
    \<and> unat (frame_size h) \<le> length (contents (mReceiveBuffer ws)) \<and> buf_inv (mReceiveBuffer ws')
    \<and> contents (mReceiveBuffer ws') = drop (unat (frame_size h)) (contents (mReceiveBuffer ws))"
proof -
  let ?b = "mReceiveBuffer ws"
  have rd: "blk_read (fst (getData ?b)) (unat (snd (getData ?b))) = Inr (contents ?b)"
    using read_getData [OF inv, of "unat (getSize ?b)"] by (simp add: getData_def)
  from st rd obtain h where h: "parse_header (contents ?b) = Some h" and le: "frame_size h \<le> getSize ?b"
    and hf: "handle_frame cb (ws, msgs) h = Inr (True, ws', msgs')"
    by (auto simp: dispatch_step_def case_prod_beta Let_def getData_def
        split: sum.splits option.splits if_splits bool.splits)
  note handle_frame_buffer [OF hf]
  with unmask_Inr [OF inv _ h le] consume_spec [OF inv] h le show ?thesis
    by (auto simp: word_le_nat_alt)
qed

section \<open>Termination and divergence\<close>

definition no_empty_frame :: "u8 list \<Rightarrow> bool" where
  "no_empty_frame bytes \<longleftrightarrow>
     (\<forall>k<length bytes. case parse_header (drop k bytes) of None \<Rightarrow> True | Some h \<Rightarrow> frame_size h \<noteq> 0)"

lemma no_empty_frame_drop: "no_empty_frame bytes \<Longrightarrow> no_empty_frame (drop n bytes)"
  unfolding no_empty_frame_def by (simp add: drop_drop less_diff_conv)

lemma parse_header_length: "parse_header bytes = Some h \<Longrightarrow> bytes \<noteq> []"
  by (auto simp: parse_header_def)

lemma no_empty_frameD:
  assumes "no_empty_frame bytes" and "parse_header bytes = Some h"
  shows "frame_size h \<noteq> 0"
proof -
  have "0 < length bytes" using parse_header_length [OF assms(2)] by simp
  with assms(1) have "case parse_header (drop 0 bytes) of None \<Rightarrow> True | Some h \<Rightarrow> frame_size h \<noteq> 0"
    unfolding no_empty_frame_def by blast
  with assms(2) show ?thesis by simp
qed

lemma dispatch_terminates:
  assumes "buf_inv (mReceiveBuffer ws)" and "no_empty_frame (contents (mReceiveBuffer ws))"
  shows "\<exists>r. dispatchBinary cb (ws, msgs) = Some r"
proof -
  let ?I = "\<lambda>(ws, msgs). buf_inv (mReceiveBuffer ws) \<and> no_empty_frame (contents (mReceiveBuffer ws))"
  have step: "?I s' \<and> length (contents (mReceiveBuffer (fst s'))) < length (contents (mReceiveBuffer (fst s)))"
    if "?I s" "dispatch_step cb s = Continue s'" for s s'
  proof -
    obtain ws msgs ws' msgs' where s: "s = (ws, msgs)" "s' = (ws', msgs')" by (cases s; cases s') auto
    with that obtain h where h: "parse_header (contents (mReceiveBuffer ws)) = Some h"
      "buf_inv (mReceiveBuffer ws')"
      "contents (mReceiveBuffer ws') = drop (unat (frame_size h)) (contents (mReceiveBuffer ws))"
      and nef: "no_empty_frame (contents (mReceiveBuffer ws))"
      using dispatch_step_Continue [of ws cb msgs ws' msgs'] by auto
    have ne: "contents (mReceiveBuffer ws) \<noteq> []" by (rule parse_header_length [OF h(1)])
    have "frame_size h \<noteq> 0" by (rule no_empty_frameD [OF nef h(1)])
    then have "0 < unat (frame_size h)" by (simp add: unat_gt_0)
    with ne have "length (contents (mReceiveBuffer ws')) < length (contents (mReceiveBuffer ws))"
      unfolding h(3) length_drop by (simp del: length_contents)
    then show ?thesis using h(2) no_empty_frame_drop [OF nef] by (simp add: s h(3))
  qed
  have "\<exists>r. run_loop (dispatch_step cb) (ws, msgs) = Some r \<and> True"
  proof (rule run_loop_total [where I = ?I and f = "\<lambda>s. length (contents (mReceiveBuffer (fst s)))"])
    show "?I (ws, msgs)" using assms by simp
  next
    fix s s' assume "?I s" "dispatch_step cb s = Continue s'"
    then show "?I s' \<and> length (contents (mReceiveBuffer (fst s'))) < length (contents (mReceiveBuffer (fst s)))"
      by (rule step)
  qed simp
  then show ?thesis by (simp add: dispatchBinary_def)
qed

text \<open>A pong header with payload length \<open>2 ^ 32 - 10\<close>.\<close>

definition pong_bomb :: "u8 list" where
  "pong_bomb = frame_header True PONG False 0xFFFFFFF6 []"

lemma pong_bomb_bytes:
  "pong_bomb = [0x8A, 0x7F, 0x00, 0x00, 0x00, 0x00, 0xFF, 0xFF, 0xFF, 0xF6]"
  by (simp add: pong_bomb_def frame_header_def byte_at_def)

lemma parse_pong_bomb:
  "parse_header (pong_bomb @ rest) = Some (written_header True PONG False 0xFFFFFFF6 [0, 0, 0, 0])"
proof -
  have eq: "pong_bomb = frame_header True PONG False 0xFFFFFFF6 [0, 0, 0, 0]"
    by (simp add: pong_bomb_def frame_header_def)
  show ?thesis
    unfolding eq by (rule parse_frame_header) (simp_all add: named_opcode_def)
qed

lemma consume_0: "contents b \<noteq> [] \<Longrightarrow> consume b 0 = b"
  by (auto simp: consume_def Let_def contents_def getSize_def)

lemma dispatch_pong_bomb:
  assumes inv: "buf_inv (mReceiveBuffer ws)" and c: "contents (mReceiveBuffer ws) = pong_bomb @ rest"
  shows "dispatchBinary cb (ws, msgs) = None"
proof -
  let ?b = "mReceiveBuffer ws" and ?h = "written_header True PONG False 0xFFFFFFF6 [0, 0, 0, 0]"
  have rd: "blk_read (fst (getData ?b)) (unat (snd (getData ?b))) = Inr (pong_bomb @ rest)"
    using read_getData [OF inv, of "unat (getSize ?b)"] c by (simp add: getData_def flip: length_contents)
  have fs: "frame_size ?h = 0"
    by (simp add: frame_size_def written_header_def expected_header_len_def)
  have "contents ?b \<noteq> []" using c by (simp add: pong_bomb_bytes)
  then have "consume_frame ws ?h = ws" by (simp add: consume_frame_def fs consume_0)
  then have "handle_frame cb (ws, msgs) ?h = Inr (True, ws, msgs)"
    by (simp add: handle_frame_def written_header_def)
  then have "dispatch_step cb (ws, msgs) = Continue (ws, msgs)"
    using rd parse_pong_bomb [of rest] fs by (simp add: dispatch_step_def case_prod_beta Let_def)
  then show ?thesis
    unfolding dispatchBinary_def
    by (intro run_loop_diverges [where I = "\<lambda>s. s = (ws, msgs)"]) auto
qed

section \<open>Properties\<close>



text \<open>C11. Ten bytes from the peer hang the program: a pong header with the payload length \<open>2 ^ 32 - 10\<close> has
  frame size 0, is consumed as 0 bytes, and the loop never returns.\<close>
theorem dispatch_hangs_on_wrapped_pong:
  assumes "buf_inv (mReceiveBuffer ws)"
    and "contents (mReceiveBuffer ws) = [0x8A, 0x7F, 0, 0, 0, 0, 0xFF, 0xFF, 0xFF, 0xF6] @ rest"
  shows "dispatchBinary cb (ws, msgs) = None"
  using dispatch_pong_bomb [OF assms(1)] assms(2) by (simp add: pong_bomb_bytes)

lemma dispatch_hangs_witness:
  "dispatchBinary True (open_connection True ([0x8A, 0x7F, 0, 0, 0, 0, 0xFF, 0xFF, 0xFF, 0xF6] @ []), []) = None"
  by (rule dispatch_hangs_on_wrapped_pong) (simp_all only: open_connection_simps loaded_buffer, simp_all add: loaded_buffer)

end
