(* ===== verification/WsSession.thy ===== *)
theory WsSession
  imports WsReceive WsLoop
begin

text \<open>
  Two connections end to end: what one program queues with \<open>sendText\<close> and \<open>sendBinary\<close> is what
  the callback of the other receives, once the bytes of the transmit buffer have arrived in its receive
  buffer.
\<close>

section \<open>A sequence of messages\<close>

definition send_message :: "'s web_socket \<Rightarrow> message \<Rightarrow> 's web_socket result" where
  "send_message ws m =
     (if snd m then sendText ws (Some (fst m))
      else sendBinary ws (Some (bytes_ptr (fst m))) (word_of_nat (length (fst m))))"

fun send_messages :: "'s web_socket \<Rightarrow> message list \<Rightarrow> 's web_socket result" where
  "send_messages ws [] = Inr ws"
| "send_messages ws (m # ms) = ebind (send_message ws m) (\<lambda>ws. send_messages ws ms)"

definition message_cost :: "message \<Rightarrow> nat" where
  "message_cost m = 14 + length (fst m)"

abbreviation texts :: "u8 list list \<Rightarrow> message list" where
  "texts ts \<equiv> map (\<lambda>t. (t, True)) ts"

text \<open>The parts of a connection that sending leaves alone.\<close>

definition same_receive_side :: "'s web_socket \<Rightarrow> 's web_socket \<Rightarrow> bool" where
  "same_receive_side ws ws' \<longleftrightarrow> mReceiveBuffer ws' = mReceiveBuffer ws \<and> mReceivedData ws' = mReceivedData ws
     \<and> mSocket ws' = mSocket ws \<and> mReadyState ws' = mReadyState ws"

lemma same_receive_side_refl [simp]: "same_receive_side ws ws"
  by (simp add: same_receive_side_def)

lemma same_receive_side_trans: "same_receive_side a b \<Longrightarrow> same_receive_side b c \<Longrightarrow> same_receive_side a c"
  by (simp add: same_receive_side_def)

text \<open>A final frame that carries one message.\<close>

definition carries :: "frame \<Rightarrow> message \<Rightarrow> bool" where
  "carries f m \<longleftrightarrow> frame_ok f \<and> fr_fin f \<and> fr_payload f = fst m \<and>
     fr_opcode f = (if snd m then TEXT_FRAME else BINARY_FRAME)"

lemma send_message_spec:
  assumes "can_send ws" and "append_room (mTransmitBuffer ws) (message_cost m + k)" and "length (fst m) < 2 ^ 30"
  shows "\<exists>ws' f. send_message ws m = Inr ws' \<and> can_send ws' \<and> append_room (mTransmitBuffer ws') k
    \<and> same_receive_side ws ws' \<and> same_limits (mTransmitBuffer ws) (mTransmitBuffer ws')
    \<and> contents (mTransmitBuffer ws') = contents (mTransmitBuffer ws) @ encode_frame f \<and> carries f m"
proof -
  define op where "op = (if snd m then TEXT_FRAME else BINARY_FRAME)"
  let ?n = "word_of_nat (length (fst m)) :: u64" and ?f = "sent_frame ws op (fst m)"
  have ok: "frame_ok ?f" using assms(3) by (auto simp: frame_ok_def sent_frame_def named_opcode_def op_def)
  have n: "unat (ucast ?n :: u32) = length (fst m)" "unat ?n = length (fst m)"
    using u64_length [OF ok] by (simp_all add: sent_frame_def)
  then have "ucast (word_of_nat (length (fst m)) :: u32) = ?n"
    using assms(3) by (intro word_unat_eq_iff [THEN iffD2]) (simp add: unsigned_ucast_eq take_bit_nat_eq_self)
  then have send: "send_message ws m = sendData ws op (Some (bytes_ptr (fst m))) ?n"
    by (simp add: send_message_def sendText_def sendBinary_def op_def)
  have "message_bytes (Some (bytes_ptr (fst m))) (ucast ?n) (fst m)" using n by (simp add: message_bytes_def)
  moreover have "append_room (mTransmitBuffer ws) (14 + length (fst m) + k)"
    using assms(2) by (simp add: message_cost_def)
  ultimately obtain ws' where "sendData ws op (Some (bytes_ptr (fst m))) ?n = Inr ws'" "after_send ws ws'"
    "append_room (mTransmitBuffer ws') k" "same_limits (mTransmitBuffer ws) (mTransmitBuffer ws')"
    "contents (mTransmitBuffer ws') = contents (mTransmitBuffer ws) @ encode_frame ?f"
    using sendData_spec [OF assms(1)] by blast
  moreover have "carries ?f m" using ok by (simp add: carries_def sent_frame_def op_def)
  moreover have "same_receive_side ws ws'" "can_send ws'"
    using after_sendD [OF calculation(2)] assms(1) by (simp_all add: same_receive_side_def)
  ultimately show ?thesis using send by auto
qed

lemma send_messages_spec:
  assumes "can_send ws" and "append_room (mTransmitBuffer ws) (sum_list (map message_cost ms))"
    and "\<forall>m \<in> set ms. length (fst m) < 2 ^ 30"
  shows "\<exists>ws' fs. send_messages ws ms = Inr ws' \<and> list_all2 carries fs ms
    \<and> same_receive_side ws ws' \<and> append_room (mTransmitBuffer ws') 0
    \<and> contents (mTransmitBuffer ws') = contents (mTransmitBuffer ws) @ encode_frames fs"
  using assms
proof (induction ms arbitrary: ws)
  case Nil
  then show ?case by (intro exI [of _ ws] exI [of _ "[]"]) simp
next
  case (Cons m ms)
  obtain ws1 f where s: "send_message ws m = Inr ws1" "can_send ws1"
    "append_room (mTransmitBuffer ws1) (sum_list (map message_cost ms))"
    "contents (mTransmitBuffer ws1) = contents (mTransmitBuffer ws) @ encode_frame f" "carries f m"
    "same_receive_side ws ws1"
    using send_message_spec [of ws m "sum_list (map message_cost ms)"] Cons.prems by auto
  from Cons.IH [OF s(2,3)] Cons.prems(3) obtain ws' fs where "send_messages ws1 ms = Inr ws'"
    "list_all2 carries fs ms" "same_receive_side ws1 ws'" "append_room (mTransmitBuffer ws') 0"
    "contents (mTransmitBuffer ws') = contents (mTransmitBuffer ws1) @ encode_frames fs" by auto
  with s show ?case
    by (intro exI [of _ ws'] exI [of _ "f # fs"]) (simp add: same_receive_side_trans [of ws ws1 ws'])
qed

lemma receive_carried:
  "list_all2 carries fs ms \<Longrightarrow> rc_partial r = [] \<Longrightarrow>
   receive_frames mk fs r = (r\<lparr>rc_msgs := rc_msgs r @ ms\<rparr>, [])"
proof (induction arbitrary: r rule: list_all2_induct)
  case (Cons f fs m ms)
  then show ?case
    by (cases m) (auto simp: carries_def receive_frame_def ends_session_def is_data_def)
qed simp

lemma carried_cost: "list_all2 carries fs ms \<Longrightarrow> sum_list (map frame_cost fs) = sum_list (map message_cost ms)"
  by (induction rule: list_all2_induct) (simp_all add: carries_def frame_cost_def message_cost_def)

lemma carried_length:
  "list_all2 carries fs ms \<Longrightarrow> length (encode_frames fs) \<le> sum_list (map message_cost ms)"
proof (induction rule: list_all2_induct)
  case (Cons f fs m ms)
  then show ?case
    using head_len_bounds(2) [of f] by (simp add: carries_def message_cost_def length_encode_frame)
qed simp

lemma carried_append:
  "list_all2 carries fs ms \<Longrightarrow> list_all2 carries gs ns \<Longrightarrow> list_all2 carries (fs @ gs) (ms @ ns)"
  by (rule list_all2_appendI)

lemma encode_frames_append [simp]: "encode_frames (fs @ gs) = encode_frames fs @ encode_frames gs"
  by (induction fs) simp_all

lemma carried_ok: "list_all2 carries fs ms \<Longrightarrow> \<forall>f \<in> set fs. frame_ok f"
  by (induction rule: list_all2_induct) (simp_all add: carries_def)

text \<open>
  Receiving a message that came in one frame touches nothing but the receive buffer (and the log).
\<close>

definition same_but_received :: "'s web_socket \<Rightarrow> 's web_socket \<Rightarrow> bool" where
  "same_but_received ws ws' \<longleftrightarrow> mTransmitBuffer ws' = mTransmitBuffer ws \<and> mReceivedData ws' = mReceivedData ws
     \<and> mSocket ws' = mSocket ws \<and> mReadyState ws' = mReadyState ws
     \<and> same_limits (mReceiveBuffer ws) (mReceiveBuffer ws')"

lemma same_but_received_trans: "same_but_received a b \<Longrightarrow> same_but_received b c \<Longrightarrow> same_but_received a c"
  by (auto simp: same_but_received_def intro: same_limits_trans)

lemma dispatch_step_carried:
  assumes inv: "buf_inv (mReceiveBuffer ws)" and rd: "contents (mReceivedData ws) = []"
    and f: "carries f m" and c: "contents (mReceiveBuffer ws) = encode_frame f @ rest"
  shows "\<exists>ws'. dispatch_step True (ws, msgs) = Continue (ws', msgs @ [m]) \<and> same_but_received ws ws'
    \<and> buf_inv (mReceiveBuffer ws') \<and> contents (mReceiveBuffer ws') = rest
    \<and> (rest = [] \<longrightarrow> mStartLoc (mReceiveBuffer ws') = 0)"
proof -
  let ?xs = "fr_payload f" and ?h = "header_of f"
  let ?n = "ucast (word_of_nat (length ?xs) :: u64) :: u32" and ?a = "fr_opcode f = TEXT_FRAME"
  have ok: "frame_ok f" and m: "m = (?xs, ?a)" "fr_fin f" and op: "fr_opcode f \<in> {TEXT_FRAME, BINARY_FRAME}"
    using f by (cases m; auto simp: carries_def)+
  obtain rb where u: "unmask ws ?h = Inr (ws\<lparr>mReceiveBuffer := rb\<rparr>)" "buf_inv rb"
    "drop (length (encode_frame f)) (contents rb) = rest"
    "blk_read (payload_ptr (ws\<lparr>mReceiveBuffer := rb\<rparr>) ?h) (length ?xs) = Inr ?xs"
    using unmask_frame [OF inv ok c] by blast
  let ?ws = "ws\<lparr>mReceiveBuffer := rb\<rparr>"
  have "mReceiveBuffer ?ws = rb" by simp
  with u(1) have lim: "same_limits (mReceiveBuffer ws) rb"
    by (auto simp: unmask_def ebind_Inr_iff same_limits_def split: if_splits dest!: arg_cong [where f = mReceiveBuffer])
  have "unat ?n = length ?xs" by (rule u64_length(2) [OF ok])
  with u(4) deliver_total [of "payload_ptr ?ws ?h" ?n ?xs "(?ws, msgs)" ?a] obtain ws1 where
    d: "deliver (?ws, msgs) (payload_ptr ?ws ?h) ?n ?a = Inr (ws1, msgs @ [(?xs, ?a)])" "same_but_log ?ws ws1" by auto
  note same = same_but_log_simps [OF d(2)]
  have "getSize (mReceivedData ws) = 0" using rd by (simp add: getSize_0_iff)
  then have "handle_frame True (ws, msgs) ?h = Inr (True, consume_frame ws1 ?h, msgs @ [m])"
    using u(1) d(1) m op by (auto simp: handle_frame_def handle_data_def)
  then have "dispatch_step True (ws, msgs) = Continue (consume_frame ws1 ?h, msgs @ [m])"
    by (simp add: dispatch_step_whole [OF inv ok c])
  moreover have i1: "buf_inv (mReceiveBuffer ws1)" using u(2) same by simp
  note consume_frame_spec [OF i1 ok]
  moreover have "rest = [] \<longrightarrow> mStartLoc (mReceiveBuffer (consume_frame ws1 ?h)) = 0"
    using consume_empty_start [OF _ i1, of "frame_size ?h"] consume_frame_spec(2) [OF i1 ok] u(3) same
    by (simp add: consume_frame_def)
  moreover have "same_but_received ws (consume_frame ws1 ?h)"
    using same lim consume_spec [OF u(2), of "frame_size ?h"]
    by (auto simp: same_but_received_def consume_frame_def intro: same_limits_trans)
  ultimately show ?thesis using u(3) same by auto
qed

lemma dispatch_carried:
  assumes "list_all2 carries fs ms" and "buf_inv (mReceiveBuffer ws)" and "contents (mReceivedData ws) = []"
    and "contents (mReceiveBuffer ws) = encode_frames fs"
  shows "\<exists>ws'. dispatchBinary True (ws, msgs) = Some (Inr (ws', msgs @ ms)) \<and> same_but_received ws ws'
    \<and> buf_inv (mReceiveBuffer ws') \<and> contents (mReceiveBuffer ws') = []
    \<and> ((fs = [] \<longrightarrow> mStartLoc (mReceiveBuffer ws) = 0) \<longrightarrow> mStartLoc (mReceiveBuffer ws') = 0)"
  using assms
proof (induction arbitrary: ws msgs rule: list_all2_induct)
  case Nil
  then have "dispatch_step True (ws, msgs) = Break (Inr (ws, msgs))"
    by (intro dispatch_step_incomplete) (simp_all add: incomplete_Nil)
  then have "dispatchBinary True (ws, msgs) = Some (Inr (ws, msgs))" unfolding dispatchBinary_def by (rule run_loop_Break)
  with Nil show ?case by (auto simp: same_but_received_def)
next
  case (Cons f fs m ms)
  from Cons.prems(3) have "contents (mReceiveBuffer ws) = encode_frame f @ encode_frames fs" by simp
  from dispatch_step_carried [OF Cons.prems(1,2) Cons.hyps(1) this, of msgs] obtain ws1 where
    s: "dispatch_step True (ws, msgs) = Continue (ws1, msgs @ [m])" "same_but_received ws ws1"
    "buf_inv (mReceiveBuffer ws1)" "contents (mReceiveBuffer ws1) = encode_frames fs"
    "encode_frames fs = [] \<longrightarrow> mStartLoc (mReceiveBuffer ws1) = 0" by blast
  moreover have "contents (mReceivedData ws1) = []" using s(2) Cons.prems(2) by (simp add: same_but_received_def)
  ultimately obtain ws' where "dispatchBinary True (ws1, msgs @ [m]) = Some (Inr (ws', (msgs @ [m]) @ ms))"
    "same_but_received ws1 ws'" "buf_inv (mReceiveBuffer ws')" "contents (mReceiveBuffer ws') = []"
    "mStartLoc (mReceiveBuffer ws') = 0" using Cons.IH [of ws1 "msgs @ [m]"] by auto
  moreover have "dispatchBinary True (ws, msgs) = dispatchBinary True (ws1, msgs @ [m])"
    unfolding dispatchBinary_def by (rule run_loop_Continue [where body = "dispatch_step True", OF s(1)])
  ultimately show ?case using same_but_received_trans [OF s(2)] by auto
qed

section \<open>Properties\<close>

text \<open>C4. End to end: any sequence of text and binary messages queued on one connection, masked or not, is delivered by
  the other connection's callback, with the same bytes, the same flags and in the same order, and leaves
  its receive buffer empty.\<close>
theorem messages_delivered:
  assumes "can_send s" and "contents (mTransmitBuffer s) = []"
    and "append_room (mTransmitBuffer s) (sum_list (map message_cost ms))"
    and "\<forall>m \<in> set ms. length (fst m) < 2 ^ 30"
    and "send_messages s ms = Inr s'"
    and "buf_inv (mReceiveBuffer r)" and "contents (mReceiveBuffer r) = contents (mTransmitBuffer s')"
    and "contents (mReceivedData r) = []"
  shows "\<exists>r'. dispatchBinary True (r, msgs) = Some (Inr (r', msgs @ ms))
    \<and> contents (mReceiveBuffer r') = [] \<and> contents (mTransmitBuffer r') = contents (mTransmitBuffer r)"
proof -
  from send_messages_spec [OF assms(1,3,4)] assms(2,5) obtain fs where
    fs: "list_all2 carries fs ms" "contents (mTransmitBuffer s') = encode_frames fs" by auto
  with dispatch_carried [OF fs(1) assms(6,8), of msgs] assms(7) show ?thesis
    by (auto simp: same_but_received_def)
qed

lemma messages_delivered_witness:
  "\<exists>s' r'. send_messages (open_connection True []) [([104, 105], True), ([0, 255], False)] = Inr s'
    \<and> dispatchBinary True (open_connection False (contents (mTransmitBuffer s')), [])
      = Some (Inr (r', [([104, 105], True), ([0, 255], False)]))"
proof -
  let ?s = "open_connection True []" and ?ms = "[([104, 105], True), ([0, 255], False)] :: message list"
  have room: "append_room (mTransmitBuffer ?s) (sum_list (map message_cost ?ms))"
    by (simp add: open_connection_room message_cost_def)
  obtain s' fs where s': "send_messages ?s ?ms = Inr s'" "list_all2 carries fs ?ms"
    "contents (mTransmitBuffer s') = encode_frames fs"
    using send_messages_spec [OF _ room] by auto
  let ?r = "open_connection False (contents (mTransmitBuffer s'))"
  have "length (encode_frames fs) \<le> 16384"
    using s'(2) by (auto simp: list_all2_Cons2 carries_def length_encode_frame head_len_def expected_header_len_def)
  note lb = loaded_buffer [OF this]
  from messages_delivered [of ?s ?ms s' ?r "[]", OF _ _ room _ s'(1)] s' lb show ?thesis by auto
qed

end
