(* ===== verification/WsConnect.thy ===== *)
theory WsConnect
  imports WebSocketImpl
begin

text \<open>
  \<open>ext/easywsclient/easywsclient.cpp\<close>: the opening handshake of \<open>WebSocketImpl\<close>. The client's
  constructor parses the URL and writes the request; \<open>processConnection\<close> reads the socket byte by
  byte and steps through the connection phases at the end of each line. Times are nanoseconds of
  the clock, \<open>Wsocket::create\<close> is the parameter \<open>create\<close>.
\<close>

section \<open>The client's constructor\<close>

definition fmt_host_port_path :: "directive list" where
  "fmt_host_port_path = lit ''ws://'' @ [Until (ascii '':/'')] @ lit '':'' @ [IntConv] @ lit ''/'' @ [StrConv]"

definition fmt_host_path :: "directive list" where
  "fmt_host_path = lit ''ws://'' @ [Until (ascii '':/'')] @ lit ''/'' @ [StrConv]"

definition fmt_host_port :: "directive list" where
  "fmt_host_port = lit ''ws://'' @ [Until (ascii '':/'')] @ lit '':'' @ [IntConv]"

definition fmt_host :: "directive list" where
  "fmt_host = lit ''ws://'' @ [Until (ascii '':/'')]"

text \<open>
  The four attempts, in order; \<open>None\<close> is an error message and \<open>port\<close> left at 0. The sizes of
  \<open>url\<close> and \<open>origin\<close> are checked first.
\<close>

definition parse_url :: "u8 list \<Rightarrow> (u8 list \<times> int \<times> u8 list) option" where
  "parse_url url =
     (case sscanf fmt_host_port_path url of
        [VStr host, VInt port, VStr path] \<Rightarrow> Some (host, port, path)
      | _ \<Rightarrow>
     (case sscanf fmt_host_path url of
        [VStr host, VStr path] \<Rightarrow> Some (host, 80, path)
      | _ \<Rightarrow>
     (case sscanf fmt_host_port url of
        [VStr host, VInt port] \<Rightarrow> Some (host, port, [])
      | _ \<Rightarrow>
     (case sscanf fmt_host url of
        [VStr host] \<Rightarrow> Some (host, 80, [])
      | _ \<Rightarrow> None))))"

definition crlf_bytes :: "u8 list" where
  "crlf_bytes = [0x0D, 0x0A]"

definition request_lines :: "u8 list \<Rightarrow> int \<Rightarrow> u8 list \<Rightarrow> u8 list \<Rightarrow> u8 list list" where
  "request_lines host port path origin =
     map (stringFormat 256)
      ([ascii ''GET /'' @ path @ ascii '' HTTP/1.1'' @ crlf_bytes,
        (if port = 80 then ascii ''Host: '' @ host @ crlf_bytes
         else ascii ''Host: '' @ host @ ascii '':'' @ ascii (format_int port) @ crlf_bytes),
        ascii ''Upgrade: websocket'' @ crlf_bytes,
        ascii ''Connection: Upgrade'' @ crlf_bytes]
       @ (if origin \<noteq> [] then [ascii ''Origin: '' @ origin @ crlf_bytes] else [])
       @ [ascii ''Sec-WebSocket-Key: x3JJHMbDL1EzLkh9GBhXDw=='' @ crlf_bytes,
          ascii ''Sec-WebSocket-Version: 13'' @ crlf_bytes,
          crlf_bytes])"

text \<open>The lines go to the socket one by one; the results of the sends are not looked at.\<close>

fun send_strings :: "'s wsocket_ops \<Rightarrow> 's \<Rightarrow> u8 list list \<Rightarrow> 's result" where
  "send_strings ops s [] = Inr s"
| "send_strings ops s (l # ls) = ebind (sock_send ops s l) (\<lambda>(_, s). send_strings ops s ls)"

definition new_client_connection ::
  "'s wsocket_ops \<Rightarrow> (u8 list \<Rightarrow> int \<Rightarrow> 's option) \<Rightarrow> allocator \<Rightarrow> endian \<Rightarrow> (nat \<Rightarrow> u64) \<Rightarrow>
   u8 list \<Rightarrow> int \<Rightarrow> u8 list \<Rightarrow> u8 list \<Rightarrow> bool \<Rightarrow> 's web_socket result" where
  "new_client_connection ops create h e rnd stale now url origin useMask =
     (let ws = \<lparr>mReceiveBuffer = create_buffer h DEFAULT_RECEIVE_BUFFER_SIZE DEFAULT_MAXIMUM_BUFFER_SIZE,
            mTransmitBuffer = create_buffer h DEFAULT_TRANSMIT_BUFFER_SIZE DEFAULT_MAXIMUM_BUFFER_SIZE,
            mReceivedData = create_buffer h DEFAULT_RECEIVE_BUFFER_SIZE DEFAULT_MAXIMUM_BUFFER_SIZE,
            mSocket = None, mReadyState = OPEN, mUseMask = useMask, mIsServerClient = False,
            mSendCount = 0, mReceiveCount = 0, mLogFile = None, mConnectionIndex = 0,
            mConnectionBuffer = stale, mConnectionTimer = now, mConnectionPhase = HTTP_STATUS,
            mRandomTimes = rnd, mRandomUsed = 0, mEndian = e\<rparr>
      in if length url \<ge> 128 then Inr ws
         else if length origin \<ge> 200 then Inr ws
         else
           case parse_url url of
             None \<Rightarrow> Inr ws
           | Some (host, port, path) \<Rightarrow>
               if port = 0 then Inr ws
               else
                 (case create host port of
                    None \<Rightarrow> Inr ws
                  | Some s \<Rightarrow>
                      let ws = ws\<lparr>mReadyState := CONNECTING\<rparr>
                      in ebind (send_strings ops s (request_lines host port path origin)) (\<lambda>s.
                         Inr (ws\<lparr>mSocket := Some s, mConnectionTimer := now\<rparr>))))"

section \<open>The connection phases\<close>

definition CONNECTION_TIME_OUT :: int where "CONNECTION_TIME_OUT = 60"

definition handshake_reply :: "u8 list list" where
  "handshake_reply =
     [ascii ''HTTP/1.1 101 Switching Protocols'' @ crlf_bytes,
      ascii ''HConnection: upgrade'' @ crlf_bytes,
      ascii ''HSec-WebSocket-Accept: HSmrc0sMlYUkAGmm5OPpG2HaGWk='' @ crlf_bytes,
      ascii ''HServer: WebSocket++/0.7.0'' @ crlf_bytes,
      ascii ''HUpgrade: websocket'' @ crlf_bytes,
      crlf_bytes]"

text \<open>\<open>mSocket->release(); mSocket = nullptr; mReadyState = CLOSED;\<close>\<close>

definition release_socket :: "'s web_socket \<Rightarrow> 's web_socket" where
  "release_socket ws = ws\<lparr>mSocket := None, mReadyState := CLOSED\<rparr>"

definition opened :: "'s wsocket_ops \<Rightarrow> 's web_socket \<Rightarrow> 's web_socket" where
  "opened ops ws =
     ws\<lparr>mReadyState := OPEN, mSocket := map_option (sock_disableNaglesAlgorithm ops) (mSocket ws)\<rparr>"

definition status_101 :: "u8 list \<Rightarrow> bool" where
  "status_101 line = (sscanf (lit ''HTTP/1.1 '' @ [IntConv]) line = [VInt 101])"

text \<open>The \<open>switch\<close> over the phase at the end of a line; the boolean is \<open>ok\<close>.\<close>

definition connection_line ::
  "'s wsocket_ops \<Rightarrow> 's web_socket \<Rightarrow> u8 list \<Rightarrow> (bool \<times> 's web_socket) result" where
  "connection_line ops ws line =
     (case mConnectionPhase ws of
        SERVER_CLIENT_STRINGS \<Rightarrow> Inr (True, if length line = 0 then opened ops ws else ws)
      | HTTP_STATUS \<Rightarrow>
          (if mIsServerClient ws then
             (if line = ascii ''GET / HTTP/1.1'' then
                ebind (case mSocket ws of None \<Rightarrow> Inr None
                       | Some s \<Rightarrow> ebind (send_strings ops s handshake_reply) (\<lambda>s. Inr (Some s)))
                  (\<lambda>s. Inr (True, ws\<lparr>mSocket := s, mConnectionPhase := SERVER_CLIENT_STRINGS\<rparr>))
              else Inr (False, ws))
           else if status_101 line then Inr (True, ws\<lparr>mConnectionPhase := HCONNECTION_UPGRADE\<rparr>)
           else Inr (False, ws))
      | HCONNECTION_UPGRADE \<Rightarrow> Inr (True, ws\<lparr>mConnectionPhase := HSEC_WEBSOCKET_ACCEPT\<rparr>)
      | HSEC_WEBSOCKET_ACCEPT \<Rightarrow> Inr (True, ws\<lparr>mConnectionPhase := HSERVER_WEBSOCKET\<rparr>)
      | HSERVER_WEBSOCKET \<Rightarrow> Inr (True, ws\<lparr>mConnectionPhase := HUPGRADE_WEBSOCKET\<rparr>)
      | HUPGRADE_WEBSOCKET \<Rightarrow> Inr (True, ws\<lparr>mConnectionPhase := H\<rparr>)
      | H \<Rightarrow> Inr (True, opened ops ws))"

text \<open>The byte that has just been stored at \<open>mConnectionIndex\<close>.\<close>

definition connection_byte :: "'s wsocket_ops \<Rightarrow> int \<Rightarrow> 's web_socket \<Rightarrow> 's web_socket result" where
  "connection_byte ops now ws =
     (let i = unat (mConnectionIndex ws); buf = mConnectionBuffer ws
      in if buf ! i = 0x0A then
           let buf = buf[i := 0];
               buf = (if i > 0 \<and> buf ! (i - 1) = 0x0D then buf[i - 1 := 0] else buf);
               line = takeWhile (\<lambda>c. c \<noteq> 0) buf;
               ws = ws\<lparr>mConnectionBuffer := buf, mConnectionIndex := 0\<rparr>
           in ebind (connection_line ops ws line) (\<lambda>(ok, ws).
              let ws = (if ok then ws else release_socket ws)
              in Inr (ws\<lparr>mConnectionTimer := now\<rparr>))
         else
           let ws = ws\<lparr>mConnectionIndex := mConnectionIndex ws + 1\<rparr>
           in Inr (if mConnectionIndex ws = 255 then release_socket ws else ws))"

text \<open>What \<open>receive\<close> stores at an index of \<open>mConnectionBuffer\<close>, with the bounds of the array.\<close>

definition store_bytes :: "u8 list \<Rightarrow> nat \<Rightarrow> u8 list \<Rightarrow> u8 list result" where
  "store_bytes buf i xs =
     (if i + length xs \<le> length buf then Inr (take i buf @ xs @ drop (i + length xs) buf)
      else Inl OutOfBounds)"

definition processConnection :: "'s wsocket_ops \<Rightarrow> int \<Rightarrow> 's web_socket \<Rightarrow> 's web_socket result" where
  "processConnection ops now ws =
     (case mSocket ws of
        None \<Rightarrow> Inr ws
      | Some s \<Rightarrow>
          if now - mConnectionTimer ws \<ge> CONNECTION_TIME_OUT * 1000000000 then Inr (release_socket ws)
          else
            ebind (sock_receive ops s 1) (\<lambda>(v, xs, s).
            ebind (store_bytes (mConnectionBuffer ws) (unat (mConnectionIndex ws)) xs) (\<lambda>buf.
            let ws = ws\<lparr>mSocket := Some s, mConnectionBuffer := buf\<rparr>
            in if v > 0 then connection_byte ops now ws else Inr ws)))"

end
