(* ===== verification/SocketSharedMemory.thy ===== *)
theory SocketSharedMemory
  imports SPSC Wsocket
begin

text \<open>
  \<open>ext/easywsclient/socketsharedmemory.cpp\<close>: the socket between a server and a client process
  over two mapped files, each with an \<open>SPSC\<close> ring. The server writes to the server file and
  reads from the client file, the client the other way round. The state holds both files as this
  process sees them; \<open>OsFiles\<close> maps them.
\<close>

section \<open>The code\<close>

definition SHARED_BUFFER_SIZE :: u32 where "SHARED_BUFFER_SIZE = 1024 * 16"

record shm_socket =
  shm_first :: bool
  shm_sequence :: u32
  shm_isServer :: bool
  shm_reader :: spsc
  shm_writer :: spsc
  shm_serverFile :: shared_header
  shm_clientFile :: shared_header

text \<open>The constructor, for two files that could be mapped, with their sizes.\<close>

definition shm_create :: "bool \<Rightarrow> shared_header \<Rightarrow> shared_header \<Rightarrow> u32 \<Rightarrow> u32 \<Rightarrow> shm_socket" where
  "shm_create isServer serverFile clientFile serverSize clientSize =
     (if isServer then
        let (_, w, serverFile) = spsc_init spsc_new serverFile serverSize True True;
            (_, r, clientFile) = spsc_init spsc_new clientFile clientSize False True
        in \<lparr>shm_first = True, shm_sequence = 0, shm_isServer = True, shm_reader = r, shm_writer = w,
            shm_serverFile = serverFile, shm_clientFile = clientFile\<rparr>
      else
        let (_, w, clientFile) = spsc_init spsc_new clientFile clientSize True False;
            (_, r, serverFile) = spsc_init spsc_new serverFile serverSize False False;
            (_, clientFile) = incrementSequenceNumber w clientFile
        in \<lparr>shm_first = True, shm_sequence = 0, shm_isServer = False, shm_reader = r, shm_writer = w,
            shm_serverFile = serverFile, shm_clientFile = clientFile\<rparr>)"

definition shm_in :: "shm_socket \<Rightarrow> shared_header" where
  "shm_in s = (if shm_isServer s then shm_clientFile s else shm_serverFile s)"

definition shm_out :: "shm_socket \<Rightarrow> shared_header" where
  "shm_out s = (if shm_isServer s then shm_serverFile s else shm_clientFile s)"

definition shm_set_in :: "shm_socket \<Rightarrow> shared_header \<Rightarrow> shm_socket" where
  "shm_set_in s f = (if shm_isServer s then s\<lparr>shm_clientFile := f\<rparr> else s\<lparr>shm_serverFile := f\<rparr>)"

definition shm_set_out :: "shm_socket \<Rightarrow> shared_header \<Rightarrow> shm_socket" where
  "shm_set_out s f = (if shm_isServer s then s\<lparr>shm_serverFile := f\<rparr> else s\<lparr>shm_clientFile := f\<rparr>)"

text \<open>\<open>pollServer\<close> returns this socket (\<open>True\<close>) when a client has connected for the first time.\<close>

definition shm_pollServer :: "shm_socket \<Rightarrow> bool \<times> shm_socket" where
  "shm_pollServer s =
     (if shm_isServer s \<and> getSequenceNumber (shm_reader s) (shm_in s) \<noteq> shm_sequence s \<and> shm_first s
      then (True, s\<lparr>shm_sequence := getSequenceNumber (shm_reader s) (shm_in s), shm_first := False\<rparr>)
      else (False, s))"

definition shm_receive :: "shm_socket \<Rightarrow> u32 \<Rightarrow> (int \<times> u8 list \<times> shm_socket) result" where
  "shm_receive s maxLen =
     ebind (spsc_read (shm_reader s) (shm_in s) maxLen) (\<lambda>(xs, f).
       let rcount = word_of_nat (length xs) :: u32
       in Inr (if rcount > 0 then sint rcount else -1, xs, shm_set_in s f))"

definition shm_send :: "shm_socket \<Rightarrow> u8 list \<Rightarrow> (int \<times> shm_socket) result" where
  "shm_send s data =
     ebind (spsc_write (shm_writer s) (shm_out s) (bytes_ptr data) (word_of_nat (length data))) (\<lambda>(scount, f).
       Inr (if scount > 0 then sint scount else -1, shm_set_out s f))"

definition shm_ops :: "shm_socket wsocket_ops" where
  "shm_ops = \<lparr>sock_receive = shm_receive, sock_send = shm_send, sock_close = (\<lambda>s. s),
     sock_wouldBlock = (\<lambda>_. True), sock_inProgress = (\<lambda>_. False), sock_nullSelect = (\<lambda>s _. s),
     sock_disableNaglesAlgorithm = (\<lambda>s. s)\<rparr>"

section \<open>The stream contract\<close>

text \<open>Both objects attached, with rings of less than two gigabytes.\<close>

definition shm_inv :: "shm_socket \<Rightarrow> bool" where
  "shm_inv s \<longleftrightarrow> ring_inv (shm_reader s) (shm_in s) \<and> \<not> mIsWriter (shm_reader s)
     \<and> ring_inv (shm_writer s) (shm_out s) \<and> mIsWriter (shm_writer s)
     \<and> unat (mCapacity (shm_reader s)) < 2 ^ 31 \<and> unat (mCapacity (shm_writer s)) < 2 ^ 31"

definition shm_incoming :: "shm_socket \<Rightarrow> u8 list" where
  "shm_incoming s = ring_contents (shm_reader s) (shm_in s)"

definition shm_outgoing :: "shm_socket \<Rightarrow> u8 list" where
  "shm_outgoing s = ring_contents (shm_writer s) (shm_out s)"

definition shm_window :: "shm_socket \<Rightarrow> nat" where
  "shm_window s = unat (mCapacity (shm_writer s)) - length (shm_outgoing s) - 2"

lemma shm_set_simps [simp]:
  "shm_in (shm_set_in s f) = f" "shm_out (shm_set_in s f) = shm_out s"
  "shm_out (shm_set_out s f) = f" "shm_in (shm_set_out s f) = shm_in s"
  "shm_reader (shm_set_in s f) = shm_reader s" "shm_writer (shm_set_in s f) = shm_writer s"
  "shm_reader (shm_set_out s f) = shm_reader s" "shm_writer (shm_set_out s f) = shm_writer s"
  by (simp_all add: shm_in_def shm_out_def shm_set_in_def shm_set_out_def)

lemma sint_small:
  assumes "unat (w :: u32) < 2 ^ 31"
  shows "sint w = int (unat w)"
proof -
  have "int (unat w) < int (2 ^ 31)" using assms by (simp only: of_nat_less_iff)
  then have "signed_take_bit 31 (uint w) = uint w"
    using uint_ge_0 [of w] by (intro signed_take_bit_int_eq_self) (auto intro: order_trans [of _ 0])
  then show ?thesis by (simp add: sint_uint)
qed

lemma ring_contents_le: "ring_inv q sh \<Longrightarrow> length (ring_contents q sh) \<le> unat (mCapacity q)"
  using ring_inv_nat(7) [of q sh] by auto

lemma shm_receive_spec:
  assumes "shm_inv s"
  shows "\<exists>s'. shm_receive s n =
      Inr (if take (unat n) (shm_incoming s) = [] then -1 else int (length (take (unat n) (shm_incoming s))),
           take (unat n) (shm_incoming s), s')
    \<and> shm_inv s' \<and> shm_incoming s' = drop (unat n) (shm_incoming s) \<and> shm_outgoing s' = shm_outgoing s
    \<and> shm_window s' = shm_window s"
proof -
  from assms spsc_read_spec [of "shm_reader s" "shm_in s" n] obtain f where
    f: "spsc_read (shm_reader s) (shm_in s) n = Inr (take (unat n) (shm_incoming s), f)"
    "ring_inv (shm_reader s) f" "ring_contents (shm_reader s) f = drop (unat n) (shm_incoming s)"
    by (auto simp: shm_inv_def shm_incoming_def)
  let ?xs = "take (unat n) (shm_incoming s)" and ?k = "word_of_nat (length (take (unat n) (shm_incoming s))) :: u32"
  have lt: "length ?xs < 2 ^ 31"
    using assms ring_contents_le [of "shm_reader s" "shm_in s"] by (auto simp: shm_inv_def shm_incoming_def)
  then have k: "unat ?k = length ?xs" by (intro unat_of_nat_u32) simp
  then have "sint ?k = int (length ?xs)" using lt sint_small [of ?k] by simp
  moreover have "0 < ?k \<longleftrightarrow> ?xs \<noteq> []" using k by (metis length_greater_0_conv unat_gt_0 word_gt_0)
  ultimately have "shm_receive s n = Inr (if ?xs = [] then -1 else int (length ?xs), ?xs, shm_set_in s f)"
    using f(1) by (auto simp: shm_receive_def Let_def)
  moreover have "shm_inv (shm_set_in s f)" using assms f(2) by (simp add: shm_inv_def)
  ultimately show ?thesis using f(3) by (auto simp: shm_incoming_def shm_outgoing_def shm_window_def)
qed

lemma shm_send_spec:
  assumes "shm_inv s" and "length xs < 2 ^ 31"
  shows "\<exists>k s'. shm_send s xs = Inr (if k = 0 then -1 else int k, s') \<and> k = min (length xs) (shm_window s)
    \<and> shm_writer s' = shm_writer s
    \<and> shm_inv s' \<and> shm_outgoing s' = shm_outgoing s @ take k xs \<and> shm_incoming s' = shm_incoming s"
proof -
  have n: "unat (word_of_nat (length xs) :: u32) = length xs" using assms(2) by simp
  from assms spsc_write_spec [of "shm_writer s" "shm_out s" "bytes_ptr xs" "word_of_nat (length xs)" xs] n
  obtain k f where f: "spsc_write (shm_writer s) (shm_out s) (bytes_ptr xs) (word_of_nat (length xs)) = Inr (k, f)"
    "unat k = min (length xs) (shm_window s)" "ring_inv (shm_writer s) f"
    "ring_contents (shm_writer s) f = shm_outgoing s @ take (unat k) xs"
    by (auto simp: shm_inv_def shm_outgoing_def shm_window_def write_count_def)
  have "sint k = int (unat k)" using f(2) assms(2) by (intro sint_small) simp
  moreover have "0 < k \<longleftrightarrow> unat k \<noteq> 0" by (simp add: word_less_nat_alt)
  ultimately have "shm_send s xs = Inr (if unat k = 0 then -1 else int (unat k), shm_set_out s f)"
    using f(1) by (auto simp: shm_send_def)
  moreover have "shm_inv (shm_set_out s f)" using assms(1) f(3) by (simp add: shm_inv_def)
  ultimately show ?thesis using f(2,4)
    by (intro exI [of _ "unat k"] exI [of _ "shm_set_out s f"]) (simp add: shm_incoming_def shm_outgoing_def)
qed

interpretation shm: prompt_socket shm_ops shm_inv shm_incoming shm_outgoing shm_window
proof (unfold_locales, goal_cases)
  case (1 s n ret xs s')
  with shm_receive_spec [OF 1(1), of n] show ?case by (auto simp: shm_ops_def split: if_splits)
next
  case (2 s n)
  with shm_receive_spec [OF 2, of n] show ?case by (auto simp: shm_ops_def)
next
  case (3 s xs ret s')
  with shm_send_spec [OF 3(1,2)] show ?case by (auto simp: shm_ops_def split: if_splits)
next
  case (4 s xs)
  with shm_send_spec [OF 4] show ?case by (fastforce simp: shm_ops_def)
next
  case (8 s n ret xs s')
  with shm_receive_spec [OF 8(1), of n] show ?case by (auto simp: shm_ops_def split: if_splits)
next
  case (9 s xs ret s')
  with shm_send_spec [OF 9(1,2)] show ?case by (auto simp: shm_ops_def split: if_splits)
next
  case (14 s n ret xs s')
  with shm_receive_spec [OF 14(1), of n] show ?case by (auto simp: shm_ops_def unat_gt_0 word_gt_0 split: if_splits)
next
  case (15 s n ret xs s')
  with shm_receive_spec [OF 15(1), of n] show ?case by (auto simp: shm_ops_def)
next
  case (16 s n ret xs s')
  with shm_receive_spec [OF 16(1), of n] show ?case by (auto simp: shm_ops_def)
next
  case (17 s xs ret s')
  from shm_send_spec [OF 17(1,3)] obtain s2 where "shm_send s xs = Inr (int (length xs), s2)"
    "shm_writer s2 = shm_writer s" "shm_outgoing s2 = shm_outgoing s @ xs"
    using 17(2,4) by auto
  with 17(4,5) show ?case by (auto simp: shm_ops_def shm_window_def)
qed (simp_all add: shm_ops_def)

text \<open>The same contract for one socket: its two ends of the rings stay the ones it has been given.\<close>

definition same_rings :: "shm_socket \<Rightarrow> shm_socket \<Rightarrow> bool" where
  "same_rings s s' \<longleftrightarrow> shm_isServer s' = shm_isServer s \<and> shm_reader s' = shm_reader s \<and> shm_writer s' = shm_writer s"

lemma same_rings_refl [simp]: "same_rings s s"
  by (simp add: same_rings_def)

lemma same_rings_trans: "same_rings a b \<Longrightarrow> same_rings b c \<Longrightarrow> same_rings a c"
  by (simp add: same_rings_def)

lemma same_rings_set: "same_rings s (shm_set_in s f)" "same_rings s (shm_set_out s f)"
  by (simp_all add: same_rings_def shm_set_in_def shm_set_out_def)

lemma same_rings_receive: "sock_receive shm_ops s n = Inr (ret, xs, s') \<Longrightarrow> same_rings s s'"
  using same_rings_set(1) [of s] by (fastforce simp: shm_ops_def shm_receive_def ebind_Inr_iff Let_def)

lemma same_rings_send: "sock_send shm_ops s data = Inr (k, s') \<Longrightarrow> same_rings s s'"
  using same_rings_set(2) [of s] by (fastforce simp: shm_ops_def shm_send_def ebind_Inr_iff)

lemma same_rings_others:
  "same_rings s (sock_close shm_ops s)" "same_rings s (sock_nullSelect shm_ops s t)"
  "same_rings s (sock_disableNaglesAlgorithm shm_ops s)"
  by (simp_all add: shm_ops_def)

interpretation rings: prompt_socket shm_ops "\<lambda>s. shm_inv s \<and> same_rings s0 s" shm_incoming shm_outgoing shm_window
  for s0
proof (unfold_locales, goal_cases)
  case (1 s n ret xs s')
  with shm.receive_law [of s n] same_rings_trans [of s0 s s'] same_rings_receive show ?case by blast
next
  case (3 s xs ret s')
  with shm.send_law [of s xs] same_rings_trans [of s0 s s'] same_rings_send show ?case by blast
next
  case (14 s n ret xs s')
  from shm.receive_ready [OF conjunct1 [OF 14(1)] 14(2-4)] show ?case .
next
  case (15 s n ret xs s')
  from shm.receive_idle [OF conjunct1 [OF 15(1)] 15(2,3)] show ?case .
next
  case (17 s xs ret s')
  from shm.send_ready [OF conjunct1 [OF 17(1)] 17(2-5)] show ?case .
qed (use same_rings_others same_rings_trans in \<open>simp_all add: shm.receive_total shm.send_total shm.close_law shm.select_law
    shm.nagle_law shm.receive_stream shm.send_stream shm.close_stream shm.nagle_stream shm.receive_window shm.nagle_window\<close>,
  blast+)

section \<open>Sockets to test with\<close>

text \<open>A mapped file whose ring holds the given bytes, and a client socket that can read them.\<close>

definition ring_file :: "u8 list \<Rightarrow> shared_header" where
  "ring_file xs =
     \<lparr>mVersionNumber = 100, mBufferSize = 16384, mReadIndex = 0, mWriteIndex = word_of_nat (length xs),
      mSequenceNumber = 0,
      mBaseMemory = \<lparr>blk_addr = 0, blk_size = 16352, blk_mem = put (\<lambda>_. 0) 0 xs\<rparr>\<rparr>"

definition client_socket :: "u8 list \<Rightarrow> shm_socket" where
  "client_socket xs = shm_create False (ring_file xs) (ring_file []) SHARED_BUFFER_SIZE SHARED_BUFFER_SIZE"

lemma client_socket_eq:
  "client_socket xs =
     \<lparr>shm_first = True, shm_sequence = 0, shm_isServer = False, shm_reader = ring_reader 16352,
      shm_writer = ring_writer 16352, shm_serverFile = ring_file xs,
      shm_clientFile = (ring_file [])\<lparr>mSequenceNumber := 1\<rparr>\<rparr>"
  by (simp add: client_socket_def shm_create_def spsc_init_def spsc_new_def SHARED_BUFFER_SIZE_def
      sizeof_header_def cSharedMemoryVersion_def ring_file_def incrementSequenceNumber_def
      ring_reader_def ring_writer_def word_less_nat_alt)

lemma client_socket:
  assumes "length xs \<le> 16350"
  shows "shm_inv (client_socket xs)" "shm_incoming (client_socket xs) = xs"
    "shm_outgoing (client_socket xs) = []" "shm_window (client_socket xs) = 16350"
proof -
  have n: "unat (word_of_nat (length xs) :: u32) = length xs" using assms by simp
  have c: "ring_contents (ring_writer 16352) (ring_file xs) = xs" "ring_inv (ring_writer 16352) (ring_file xs)"
    if "length xs \<le> 16350" for xs
    using that
    by (simp_all add: ring_contents_def ring_file_def ring_used_def ring_slice_linear ring_inv_def Let_def
        ring_writer_def)
  have c0: "ring_contents (ring_writer 16352) ((ring_file [])\<lparr>mSequenceNumber := 1\<rparr>) = []"
    "ring_inv (ring_writer 16352) ((ring_file [])\<lparr>mSequenceNumber := 1\<rparr>)"
    by (simp_all add: ring_contents_def ring_file_def ring_used_def ring_inv_def Let_def ring_writer_def)
  show "shm_inv (client_socket xs)"
    using c(2) [OF assms] c0(2) by (simp add: shm_inv_def client_socket_eq shm_in_def shm_out_def)
  show "shm_incoming (client_socket xs) = xs"
    using c(1) [OF assms] by (simp add: shm_incoming_def client_socket_eq shm_in_def)
  show o: "shm_outgoing (client_socket xs) = []"
    using c0(1) by (simp add: shm_outgoing_def client_socket_eq shm_out_def)
  show "shm_window (client_socket xs) = 16350"
    unfolding shm_window_def o by (simp add: client_socket_eq)
qed

section \<open>Properties\<close>

text \<open>The shared-memory socket is a byte stream: \<open>receive\<close> takes the oldest bytes of the ring it reads from, and
  answers -1 only when there are none; \<open>send\<close> appends as many bytes as fit to the ring it writes to, and
  neither touches the other ring.\<close>
lemma shm_socket_is_stream:
  assumes "shm_inv s" and "length xs < 2 ^ 31"
  shows "(\<exists>s'. shm_receive s n =
        Inr (if take (unat n) (shm_incoming s) = [] then -1 else int (length (take (unat n) (shm_incoming s))),
             take (unat n) (shm_incoming s), s')
      \<and> shm_inv s' \<and> shm_incoming s' = drop (unat n) (shm_incoming s) \<and> shm_outgoing s' = shm_outgoing s)
    \<and> (\<exists>k s'. shm_send s xs = Inr (if k = 0 then -1 else int k, s') \<and> k = min (length xs) (shm_window s)
      \<and> shm_inv s' \<and> shm_outgoing s' = shm_outgoing s @ take k xs \<and> shm_incoming s' = shm_incoming s)"
  using shm_receive_spec [OF assms(1), of n] shm_send_spec [OF assms] by blast

lemma shm_socket_is_stream_witness:
  "(\<exists>s'. shm_receive (client_socket [1, 2, 3]) 2 = Inr (2, [1, 2], s') \<and> shm_incoming s' = [3])
   \<and> (\<exists>k s'. shm_send (client_socket [1, 2, 3]) [7] = Inr (if k = 0 then -1 else int k, s') \<and> shm_outgoing s' = [7])"
  using shm_socket_is_stream [OF client_socket(1) [of "[1, 2, 3]"], of "[7]" 2] client_socket [of "[1, 2, 3]"]
  by auto

text \<open>\<open>pollServer\<close> reports a client exactly once: after the first client has raised the sequence number of the
  ring the server reads, every later call answers null.\<close>
theorem pollServer_once:
  assumes "shm_isServer s" and "shm_pollServer s = (True, s')"
  shows "getSequenceNumber (shm_reader s) (shm_in s) \<noteq> shm_sequence s
    \<and> shm_sequence s' = getSequenceNumber (shm_reader s) (shm_in s)
    \<and> (\<forall>f. shm_pollServer (s'\<lparr>shm_clientFile := f\<rparr>) = (False, s'\<lparr>shm_clientFile := f\<rparr>))"
  using assms by (auto simp: shm_pollServer_def split: if_splits)

definition server_socket :: shm_socket where
  "server_socket = shm_create True (ring_file []) (ring_file []) SHARED_BUFFER_SIZE SHARED_BUFFER_SIZE"

lemma pollServer_once_witness:
  "\<exists>s'. shm_pollServer (server_socket\<lparr>shm_clientFile := shm_clientFile (client_socket [])\<rparr>) = (True, s')
     \<and> (\<forall>f. shm_pollServer (s'\<lparr>shm_clientFile := f\<rparr>) = (False, s'\<lparr>shm_clientFile := f\<rparr>))"
proof -
  let ?s = "server_socket\<lparr>shm_clientFile := shm_clientFile (client_socket [])\<rparr>"
  have s: "shm_isServer ?s" "\<exists>s'. shm_pollServer ?s = (True, s')"
    by (simp_all add: server_socket_def shm_create_def spsc_init_def spsc_new_def SHARED_BUFFER_SIZE_def
        sizeof_header_def word_less_nat_alt shm_pollServer_def getSequenceNumber_def shm_in_def client_socket_eq Let_def)
  then obtain s' where "shm_pollServer ?s = (True, s')" by blast
  from pollServer_once [OF s(1) this] this show ?thesis by blast
qed

end
