(* ===== verification/WsPoll.thy ===== *)
theory WsPoll
  imports WsDispatch WsConnect SocketSharedMemory
begin

text \<open>
  \<open>ext/easywsclient/easywsclient.cpp\<close>, \<open>WebSocketImpl::poll\<close>: read everything the socket has into
  the receive buffer, write the transmit buffer to the socket, finish a closing connection and
  dispatch the received frames. The \<open>#if 0\<close> block (a \<open>select\<close>) is not compiled.
\<close>

section \<open>The code\<close>

text \<open>The socket is in a bad state: close it.\<close>

definition drop_connection :: "'s wsocket_ops \<Rightarrow> 's web_socket \<Rightarrow> 's web_socket" where
  "drop_connection ops ws =
     ws\<lparr>mSocket := map_option (sock_close ops) (mSocket ws), mReadyState := CLOSED\<rparr>"

text \<open>
  One pass through the receive loop. \<open>receive\<close> writes the bytes it read to the address
  \<open>confirmCapacity\<close> returned; \<open>addBuffer(nullptr, ret)\<close> then advances the end of the buffer.
\<close>

definition receive_step ::
  "'s wsocket_ops \<Rightarrow> 's web_socket \<Rightarrow> ('s web_socket, 's web_socket result) control" where
  "receive_step ops ws =
     (case confirmCapacity (mReceiveBuffer ws) DEFAULT_MAX_READ_SIZE of
        Inl e \<Rightarrow> Break (Inl e)
      | Inr (None, rb) \<Rightarrow> Break (Inr (ws\<lparr>mReceiveBuffer := rb\<rparr>))
      | Inr (Some rbuffer, rb) \<Rightarrow>
          (case mSocket ws of
             None \<Rightarrow> Break (Inl NullDeref)
           | Some s \<Rightarrow>
               (case sock_receive ops s DEFAULT_MAX_READ_SIZE of
                  Inl e \<Rightarrow> Break (Inl e)
                | Inr (ret, xs, s) \<Rightarrow>
                    (case blk_write rbuffer xs of
                       Inl e \<Rightarrow> Break (Inl e)
                     | Inr blk \<Rightarrow>
                         let ws = ws\<lparr>mReceiveBuffer := rb\<lparr>mBuffer := blk\<rparr>, mSocket := Some s\<rparr>
                         in if ret < 0 \<and> (sock_wouldBlock ops s \<or> sock_inProgress ops s) then Break (Inr ws)
                            else if ret \<le> 0 then Break (Inr (drop_connection ops ws))
                            else case addBuffer (mReceiveBuffer ws) None (word_of_int ret) of
                                   Inl e \<Rightarrow> Break (Inl e)
                                 | Inr (_, rb) \<Rightarrow> Continue (ws\<lparr>mReceiveBuffer := rb\<rparr>)))))"

definition send_step ::
  "'s wsocket_ops \<Rightarrow> 's web_socket \<Rightarrow> ('s web_socket, 's web_socket result) control" where
  "send_step ops ws =
     (if getSize (mTransmitBuffer ws) = 0 then Break (Inr ws)
      else
        let (buffer, dataLen) = getData (mTransmitBuffer ws)
        in case blk_read buffer (unat dataLen) of
             Inl e \<Rightarrow> Break (Inl e)
           | Inr bytes \<Rightarrow>
               (case mSocket ws of
                  None \<Rightarrow> Break (Inl NullDeref)
                | Some s \<Rightarrow>
                    (case sock_send ops s bytes of
                       Inl e \<Rightarrow> Break (Inl e)
                     | Inr (ret, s) \<Rightarrow>
                         let ws = ws\<lparr>mSocket := Some s\<rparr>
                         in if ret < 0 \<and> (sock_wouldBlock ops s \<or> sock_inProgress ops s) then Break (Inr ws)
                            else if ret \<le> 0 then Break (Inr (drop_connection ops ws))
                            else Continue (ws\<lparr>mTransmitBuffer :=
                                   consume (mTransmitBuffer ws) (word_of_int ret)\<rparr>))))"

definition receive_loop :: "'s wsocket_ops \<Rightarrow> 's web_socket \<Rightarrow> 's web_socket result option" where
  "receive_loop ops ws = run_loop (receive_step ops) ws"

definition send_loop :: "'s wsocket_ops \<Rightarrow> 's web_socket \<Rightarrow> 's web_socket result option" where
  "send_loop ops ws = run_loop (send_step ops) ws"

text \<open>The end of \<open>poll\<close>: the closing handshake is complete when the transmit buffer is empty.\<close>

definition finish_closing :: "'s wsocket_ops \<Rightarrow> 's web_socket \<Rightarrow> 's web_socket" where
  "finish_closing ops ws =
     (if getSize (mTransmitBuffer ws) = 0 \<and> mReadyState ws = CLOSING then drop_connection ops ws else ws)"

definition poll ::
  "'s wsocket_ops \<Rightarrow> int \<Rightarrow> bool \<Rightarrow> int \<Rightarrow> 's web_socket \<times> message list \<Rightarrow>
   ('s web_socket \<times> message list) result option" where
  "poll ops now callback timeout st =
     (let (ws, msgs) = st
      in case mSocket ws of
           None \<Rightarrow> Some (Inr (ws, msgs))
         | Some s \<Rightarrow>
             if mReadyState ws = CONNECTING then
               Some (ebind (processConnection ops now ws) (\<lambda>ws. Inr (ws, msgs)))
             else if mReadyState ws = CLOSED then
               Some (Inr (if timeout > 0 then ws\<lparr>mSocket := Some (sock_nullSelect ops s timeout)\<rparr> else ws, msgs))
             else
               lbind (receive_loop ops ws) (\<lambda>ws.
               if mReadyState ws = CLOSED then Some (Inr (ws, msgs))
               else
                 lbind (send_loop ops ws) (\<lambda>ws.
                 if mReadyState ws = CLOSED then Some (Inr (ws, msgs))
                 else
                   let ws = finish_closing ops ws
                   in if callback then dispatchBinary True (ws, msgs) else Some (Inr (ws, msgs)))))"

section \<open>The receive and send loops against the contract of the socket\<close>

lemma max_read: "unat DEFAULT_MAX_READ_SIZE = 4096" "0 < DEFAULT_MAX_READ_SIZE"
  by (simp_all add: DEFAULT_MAX_READ_SIZE_def)

lemma receive_into_buffer:
  assumes inv: "buf_inv b" and cap: "confirmCapacity b DEFAULT_MAX_READ_SIZE = Inr (Some p, b1)"
    and xs: "length xs \<le> 4096"
  shows "\<exists>blk b2. blk_write p xs = Inr blk
    \<and> addBuffer (b1\<lparr>mBuffer := blk\<rparr>) None (word_of_nat (length xs)) = Inr (True, b2)
    \<and> buf_inv b2 \<and> contents b2 = contents b @ xs \<and> (xs = [] \<longrightarrow> b1\<lparr>mBuffer := blk\<rparr> = b1)
    \<and> same_limits b b2 \<and> (mStartLoc b = 0 \<longrightarrow> mStartLoc b2 = 0)"
proof -
  from confirmCapacity_Inr [OF inv _ cap] max_read have b1: "buf_inv b1" "contents b1 = contents b"
    "\<not> needs_grow b1 DEFAULT_MAX_READ_SIZE" "p = (mBuffer b1, unat (mEndLoc b1))" "same_limits b b1" by auto
  have st: "mStartLoc b = 0 \<Longrightarrow> mStartLoc b1 = 0"
    using cap make_room_start [of b DEFAULT_MAX_READ_SIZE b1] by (auto simp: confirmCapacity_make_room ebind_Inr_iff)
  note nat = buf_inv_nat [OF b1(1)]
  let ?n = "word_of_nat (length xs) :: u32"
  let ?blk = "(mBuffer b1)\<lparr>blk_mem := put (blk_mem (mBuffer b1)) (unat (mEndLoc b1)) xs\<rparr>"
  have n: "unat ?n = length xs" using xs by simp
  have room: "length xs \<le> unat (mMaxLen b1) - unat (mEndLoc b1)"
    using b1(3) nat xs max_read by (simp add: needs_grow_def word_less_nat_alt not_less)
  have w: "blk_write p xs = Inr ?blk" using b1(4) nat room by (simp add: blk_write_def)
  have "\<not> needs_grow (b1\<lparr>mBuffer := ?blk\<rparr>) ?n"
    using room nat n by (simp add: needs_grow_def word_less_nat_alt)
  then have "addBuffer (b1\<lparr>mBuffer := ?blk\<rparr>) None ?n = Inr (True, b1\<lparr>mBuffer := ?blk, mEndLoc := mEndLoc b1 + ?n\<rparr>)"
    using addBuffer_null [of "b1\<lparr>mBuffer := ?blk\<rparr>" ?n] b1(1) by (simp add: buf_inv_def)
  moreover note put_end_inv [OF b1(1) n room refl]
  ultimately show ?thesis using w b1(2,5) st by (auto simp: same_limits_def)
qed

text \<open>What a step of the two loops leaves alone.\<close>

definition after_receive :: "'s web_socket \<Rightarrow> 's web_socket \<Rightarrow> bool" where
  "after_receive ws ws' \<longleftrightarrow>
     ws' = ws\<lparr>mReceiveBuffer := mReceiveBuffer ws', mSocket := mSocket ws', mReadyState := mReadyState ws'\<rparr>"

definition after_transmit :: "'s web_socket \<Rightarrow> 's web_socket \<Rightarrow> bool" where
  "after_transmit ws ws' \<longleftrightarrow>
     ws' = ws\<lparr>mTransmitBuffer := mTransmitBuffer ws', mSocket := mSocket ws', mReadyState := mReadyState ws'\<rparr>"

lemma after_receive_trans: "after_receive a b \<Longrightarrow> after_receive b c \<Longrightarrow> after_receive a c"
  unfolding after_receive_def by (cases a; cases b; cases c) simp

lemma after_transmit_trans: "after_transmit a b \<Longrightarrow> after_transmit b c \<Longrightarrow> after_transmit a c"
  unfolding after_transmit_def by (cases a; cases b; cases c) simp

lemma after_refl [simp]: "after_receive a a" "after_transmit a a"
  by (simp_all add: after_receive_def after_transmit_def)

lemma after_receiveD:
  assumes "after_receive ws ws'"
  shows "mTransmitBuffer ws' = mTransmitBuffer ws" "mReceivedData ws' = mReceivedData ws"
    "mRandomUsed ws' = mRandomUsed ws" "mUseMask ws' = mUseMask ws" "mEndian ws' = mEndian ws"
    "mRandomTimes ws' = mRandomTimes ws" "mReadyState ws' = mReadyState ws \<Longrightarrow> can_send ws' = can_send ws"
proof -
  obtain b so r where e: "ws' = ws\<lparr>mReceiveBuffer := b, mSocket := so, mReadyState := r\<rparr>"
    using assms unfolding after_receive_def by blast
  show "mTransmitBuffer ws' = mTransmitBuffer ws" "mReceivedData ws' = mReceivedData ws"
    "mRandomUsed ws' = mRandomUsed ws" "mUseMask ws' = mUseMask ws" "mEndian ws' = mEndian ws"
    "mRandomTimes ws' = mRandomTimes ws" "mReadyState ws' = mReadyState ws \<Longrightarrow> can_send ws' = can_send ws"
    by (simp_all add: e can_send_def)
qed

lemma after_transmitD:
  assumes "after_transmit ws ws'"
  shows "mReceiveBuffer ws' = mReceiveBuffer ws" "mReceivedData ws' = mReceivedData ws"
proof -
  obtain b so r where e: "ws' = ws\<lparr>mTransmitBuffer := b, mSocket := so, mReadyState := r\<rparr>"
    using assms unfolding after_transmit_def by blast
  show "mReceiveBuffer ws' = mReceiveBuffer ws" "mReceivedData ws' = mReceivedData ws"
    by (simp_all add: e)
qed

context wsocket_contract begin

text \<open>One receive pass: the bytes of one \<open>receive\<close> are appended to the receive buffer.\<close>

lemma receive_step_cases:
  assumes inv: "buf_inv (mReceiveBuffer ws)" and s: "mSocket ws = Some s" "sinv s"
  obtains (more) xs s' ret ws' where "receive_step ops ws = Continue ws'" "after_receive ws ws'"
      "sock_receive ops s DEFAULT_MAX_READ_SIZE = Inr (ret, xs, s')" "xs \<noteq> []"
      "mSocket ws' = Some s'" "sinv s'" "mReadyState ws' = mReadyState ws"
      "buf_inv (mReceiveBuffer ws')" "contents (mReceiveBuffer ws') = contents (mReceiveBuffer ws) @ xs"
      "same_limits (mReceiveBuffer ws) (mReceiveBuffer ws')"
      "mStartLoc (mReceiveBuffer ws) = 0 \<longrightarrow> mStartLoc (mReceiveBuffer ws') = 0"
  | (wait) s' ret ws' where "receive_step ops ws = Break (Inr ws')" "after_receive ws ws'"
      "sock_receive ops s DEFAULT_MAX_READ_SIZE = Inr (ret, [], s')"
      "mSocket ws' = Some s'" "sinv s'" "mReadyState ws' = mReadyState ws"
      "buf_inv (mReceiveBuffer ws')" "contents (mReceiveBuffer ws') = contents (mReceiveBuffer ws)"
      "same_limits (mReceiveBuffer ws) (mReceiveBuffer ws')"
      "mStartLoc (mReceiveBuffer ws) = 0 \<longrightarrow> mStartLoc (mReceiveBuffer ws') = 0"
  | (full) ws' where "receive_step ops ws = Break (Inr ws')" "after_receive ws ws'"
      "confirmCapacity (mReceiveBuffer ws) DEFAULT_MAX_READ_SIZE = Inr (None, mReceiveBuffer ws')"
      "mSocket ws' = Some s" "mReadyState ws' = mReadyState ws"
      "buf_inv (mReceiveBuffer ws')" "contents (mReceiveBuffer ws') = contents (mReceiveBuffer ws)"
  | (dropped) s' ret ws' where "receive_step ops ws = Break (Inr ws')" "after_receive ws ws'"
      "sock_receive ops s DEFAULT_MAX_READ_SIZE = Inr (ret, [], s')"
      "mSocket ws' = Some (sock_close ops s')" "sinv (sock_close ops s')" "mReadyState ws' = CLOSED"
      "\<not> (ret < 0 \<and> (sock_wouldBlock ops s' \<or> sock_inProgress ops s'))"
      "buf_inv (mReceiveBuffer ws')" "contents (mReceiveBuffer ws') = contents (mReceiveBuffer ws)"
  | (fault) "receive_step ops ws = Break (Inl OverlappingCopy)"
      "shift_overlaps (mReceiveBuffer ws) DEFAULT_MAX_READ_SIZE"
proof (cases "confirmCapacity (mReceiveBuffer ws) DEFAULT_MAX_READ_SIZE")
  case (Inl e)
  with confirmCapacity_Inl [OF inv _ Inl] max_read show ?thesis
    by (intro fault) (auto simp: receive_step_def)
next
  case (Inr r)
  obtain q b1 where r: "r = (q, b1)" by (cases r)
  note cc = Inr [unfolded r]
  from confirmCapacity_Inr [OF inv _ cc] max_read have b1: "buf_inv b1" "contents b1 = contents (mReceiveBuffer ws)"
    "same_limits (mReceiveBuffer ws) b1" by auto
  have start: "mStartLoc (mReceiveBuffer ws) = 0 \<longrightarrow> mStartLoc b1 = 0"
    using cc make_room_start [of "mReceiveBuffer ws" DEFAULT_MAX_READ_SIZE b1]
    by (auto simp: confirmCapacity_make_room ebind_Inr_iff)
  show ?thesis
  proof (cases q)
    case None
    with cc b1 s show ?thesis
      by (intro full [of "ws\<lparr>mReceiveBuffer := b1\<rparr>"]) (simp_all add: receive_step_def after_receive_def)
  next
    case (Some p)
    obtain ret xs s' where rc: "sock_receive ops s DEFAULT_MAX_READ_SIZE = Inr (ret, xs, s')"
      using receive_total [OF s(2)] by blast
    from receive_law [OF s(2) max_read(2) rc] have law: "sinv s'" "length xs = nat ret" "nat ret \<le> 4096"
      using max_read(1) by auto
    then have len: "length xs \<le> 4096" by simp
    from receive_into_buffer [OF inv cc [unfolded Some] len] obtain blk b2 where
      w: "blk_write p xs = Inr blk" and a: "addBuffer (b1\<lparr>mBuffer := blk\<rparr>) None (word_of_nat (length xs)) = Inr (True, b2)"
      and b2: "buf_inv b2" "contents b2 = contents (mReceiveBuffer ws) @ xs" "xs = [] \<longrightarrow> b1\<lparr>mBuffer := blk\<rparr> = b1"
        "same_limits (mReceiveBuffer ws) b2" "mStartLoc (mReceiveBuffer ws) = 0 \<longrightarrow> mStartLoc b2 = 0"
      by blast
    let ?ws = "ws\<lparr>mReceiveBuffer := b1\<lparr>mBuffer := blk\<rparr>, mSocket := Some s'\<rparr>"
    note step = cc [unfolded Some] s(1) rc w
    show ?thesis
    proof (cases "ret \<le> 0")
      case True
      then have xs: "xs = []" using law(2) by simp
      then have eq: "b1\<lparr>mBuffer := blk\<rparr> = b1" using b2(3) by simp
      show ?thesis
      proof (cases "ret < 0 \<and> (sock_wouldBlock ops s' \<or> sock_inProgress ops s')")
        case w: True
        with step xs b1 law(1) start show ?thesis
          by (intro wait [of ?ws ret s']) (simp_all add: receive_step_def Let_def after_receive_def eq)
      next
        case nw: False
        from nw step have "receive_step ops ws = Break (Inr (drop_connection ops ?ws))"
          using True by (auto simp: receive_step_def Let_def)
        with nw xs rc b1 close_law [OF law(1)] show ?thesis
          by (intro dropped [of "drop_connection ops ?ws" ret s'])
            (simp_all add: drop_connection_def after_receive_def eq)
      qed
    next
      case False
      then have xs: "xs \<noteq> []" "(word_of_int ret :: u32) = word_of_nat (length xs)" using law(2) by auto
      have "receive_step ops ws = Continue (?ws\<lparr>mReceiveBuffer := b2\<rparr>)"
        using step a xs False by (simp add: receive_step_def Let_def)
      with rc xs b2 law(1) show ?thesis
        by (intro more [of "?ws\<lparr>mReceiveBuffer := b2\<rparr>" ret xs s']) (simp_all add: after_receive_def)
    qed
  qed
qed


text \<open>The receive loop returns for every peer: each pass adds to a buffer of bounded size.\<close>

definition recv_ok :: "'s web_socket \<Rightarrow> bool" where
  "recv_ok ws \<longleftrightarrow> buf_inv (mReceiveBuffer ws) \<and> (\<exists>s. mSocket ws = Some s \<and> sinv s)"

lemma receive_loop_total:
  assumes "recv_ok ws"
  shows "\<exists>r. receive_loop ops ws = Some r \<and>
    (case r of Inl e \<Rightarrow> e = OverlappingCopy
     | Inr ws' \<Rightarrow> recv_ok ws' \<and> after_receive ws ws' \<and> (mReadyState ws' = mReadyState ws \<or> mReadyState ws' = CLOSED))"
  unfolding receive_loop_def
proof (rule run_loop_total [where I = "\<lambda>w. recv_ok w \<and> after_receive ws w \<and> mReadyState w = mReadyState ws"
        and f = "\<lambda>w. 2 ^ 30 - length (contents (mReceiveBuffer w))"])
  show "recv_ok ws \<and> after_receive ws ws \<and> mReadyState ws = mReadyState ws" using assms by simp
next
  fix w w' assume I: "recv_ok w \<and> after_receive ws w \<and> mReadyState w = mReadyState ws"
    and st: "receive_step ops w = Continue w'"
  from I obtain s where s: "buf_inv (mReceiveBuffer w)" "mSocket w = Some s" "sinv s"
    by (auto simp: recv_ok_def)
  show "(recv_ok w' \<and> after_receive ws w' \<and> mReadyState w' = mReadyState ws) \<and>
      2 ^ 30 - length (contents (mReceiveBuffer w')) < 2 ^ 30 - length (contents (mReceiveBuffer w))"
  proof (cases rule: receive_step_cases [OF s, case_names more wait full dropped fault])
    case (more xs s' ret w2)
    then have w2: "w2 = w'" using st by simp
    have "length (contents (mReceiveBuffer w')) = length (contents (mReceiveBuffer w)) + length xs"
      using more(9) unfolding w2 by (simp del: length_contents)
    moreover have "0 < length xs" using more(4) by simp
    ultimately have "2 ^ 30 - length (contents (mReceiveBuffer w')) < 2 ^ 30 - length (contents (mReceiveBuffer w))"
      using contents_bound [of "mReceiveBuffer w'"] more(8) unfolding w2 by linarith
    with more I show ?thesis unfolding w2 by (auto simp: recv_ok_def intro: after_receive_trans)
  qed (use st in auto)
next
  fix w r assume I: "recv_ok w \<and> after_receive ws w \<and> mReadyState w = mReadyState ws"
    and st: "receive_step ops w = Break r"
  from I obtain s where s: "buf_inv (mReceiveBuffer w)" "mSocket w = Some s" "sinv s"
    by (auto simp: recv_ok_def)
  show "case r of Inl e \<Rightarrow> e = OverlappingCopy
     | Inr ws' \<Rightarrow> recv_ok ws' \<and> after_receive ws ws' \<and> (mReadyState ws' = mReadyState ws \<or> mReadyState ws' = CLOSED)"
    by (cases rule: receive_step_cases [OF s, case_names more wait full dropped fault])
      (use st I s in \<open>auto simp: recv_ok_def intro: after_receive_trans\<close>)
qed

text \<open>One send pass.\<close>

definition send_ok :: "'s web_socket \<Rightarrow> bool" where
  "send_ok ws \<longleftrightarrow> buf_inv (mTransmitBuffer ws) \<and> (\<exists>s. mSocket ws = Some s \<and> sinv s)"

lemma send_step_cases:
  assumes inv: "buf_inv (mTransmitBuffer ws)" and s: "mSocket ws = Some s" "sinv s"
  obtains (more) k s' ws' where "send_step ops ws = Continue ws'" "after_transmit ws ws'"
      "sock_send ops s (contents (mTransmitBuffer ws)) = Inr (int k, s')" "0 < k"
      "k \<le> length (contents (mTransmitBuffer ws))"
      "mSocket ws' = Some s'" "sinv s'" "mReadyState ws' = mReadyState ws" "buf_inv (mTransmitBuffer ws')"
      "contents (mTransmitBuffer ws') = drop k (contents (mTransmitBuffer ws))"
      "same_limits (mTransmitBuffer ws) (mTransmitBuffer ws')"
      "contents (mTransmitBuffer ws') = [] \<longrightarrow> mStartLoc (mTransmitBuffer ws') = 0"
  | (idle) "send_step ops ws = Break (Inr ws)" "contents (mTransmitBuffer ws) = []"
  | (wait) s' ret ws' where "send_step ops ws = Break (Inr ws')" "after_transmit ws ws'" "ret \<le> 0"
      "sock_send ops s (contents (mTransmitBuffer ws)) = Inr (ret, s')"
      "mSocket ws' = Some s'" "sinv s'" "mReadyState ws' = mReadyState ws"
      "mTransmitBuffer ws' = mTransmitBuffer ws" "contents (mTransmitBuffer ws) \<noteq> []"
  | (dropped) s' ret ws' where "send_step ops ws = Break (Inr ws')" "after_transmit ws ws'" "ret \<le> 0"
      "sock_send ops s (contents (mTransmitBuffer ws)) = Inr (ret, s')"
      "mSocket ws' = Some (sock_close ops s')" "sinv (sock_close ops s')" "mReadyState ws' = CLOSED"
      "\<not> (ret < 0 \<and> (sock_wouldBlock ops s' \<or> sock_inProgress ops s'))"
      "mTransmitBuffer ws' = mTransmitBuffer ws" "contents (mTransmitBuffer ws) \<noteq> []"
proof (cases "contents (mTransmitBuffer ws) = []")
  case True
  then show ?thesis by (intro idle) (simp_all add: send_step_def flip: getSize_0_iff)
next
  case False
  let ?tb = "mTransmitBuffer ws" and ?xs = "contents (mTransmitBuffer ws)"
  have len: "length ?xs < 2 ^ 31" using contents_bound [OF inv] by (simp del: length_contents)
  obtain ret s' where sd: "sock_send ops s ?xs = Inr (ret, s')" using send_total [OF s(2) len] by blast
  from send_law [OF s(2) len sd] have law: "sinv s'" "nat ret \<le> length ?xs" by auto
  have rd: "blk_read (fst (getData ?tb)) (unat (snd (getData ?tb))) = Inr ?xs"
    using read_getData [OF inv, of "unat (getSize ?tb)"] by (simp add: getData_def)
  have ne: "getSize ?tb \<noteq> 0" using False by (simp add: getSize_0_iff)
  let ?ws = "ws\<lparr>mSocket := Some s'\<rparr>"
  have step: "send_step ops ws =
      (if ret < 0 \<and> (sock_wouldBlock ops s' \<or> sock_inProgress ops s') then Break (Inr ?ws)
       else if ret \<le> 0 then Break (Inr (drop_connection ops ?ws))
       else Continue (?ws\<lparr>mTransmitBuffer := consume ?tb (word_of_int ret)\<rparr>))"
    using ne rd s(1) sd by (auto simp: send_step_def case_prod_beta Let_def)
  show ?thesis
  proof (cases "ret \<le> 0")
    case True
    show ?thesis
    proof (cases "ret < 0 \<and> (sock_wouldBlock ops s' \<or> sock_inProgress ops s')")
      case w: True
      with step True sd law False show ?thesis
        by (intro wait [of ?ws ret s']) (simp_all add: after_transmit_def)
    next
      case nw: False
      have "send_step ops ws = Break (Inr (drop_connection ops ?ws))"
        unfolding step using nw True by auto
      with nw True sd close_law [OF law(1)] False show ?thesis
        by (intro dropped [of "drop_connection ops ?ws" ret s'])
          (simp_all add: drop_connection_def after_transmit_def)
    qed
  next
    case F: False
    define k where "k = nat ret"
    have k: "ret = int k" "0 < k" "k \<le> length ?xs" using F law(2) by (auto simp: k_def)
    have "k < 4294967296" using k(3) len by simp
    then have uk: "unat (word_of_int ret :: u32) = k" by (simp add: k(1))
    have "send_step ops ws = Continue (?ws\<lparr>mTransmitBuffer := consume ?tb (word_of_int ret)\<rparr>)"
      unfolding step using F by auto
    then show ?thesis
      using sd k law(1) consume_spec [OF inv, of "word_of_int ret"] consume_empty_start [OF _ inv, of "word_of_int ret"] uk
      by (intro more [of "?ws\<lparr>mTransmitBuffer := consume ?tb (word_of_int ret)\<rparr>" k s'])
        (simp_all add: after_transmit_def)
  qed
qed

lemma send_loop_total:
  assumes "send_ok ws"
  shows "\<exists>ws'. send_loop ops ws = Some (Inr ws') \<and> send_ok ws' \<and> after_transmit ws ws'
    \<and> (mReadyState ws' = mReadyState ws \<or> mReadyState ws' = CLOSED)"
proof -
  have "\<exists>r. send_loop ops ws = Some r \<and> (\<exists>ws'. r = Inr ws' \<and> send_ok ws' \<and> after_transmit ws ws'
    \<and> (mReadyState ws' = mReadyState ws \<or> mReadyState ws' = CLOSED))"
    unfolding send_loop_def
  proof (rule run_loop_total [where I = "\<lambda>w. send_ok w \<and> after_transmit ws w \<and> mReadyState w = mReadyState ws"
        and f = "\<lambda>w. length (contents (mTransmitBuffer w))"])
    show "send_ok ws \<and> after_transmit ws ws \<and> mReadyState ws = mReadyState ws" using assms by simp
  next
    fix w w' assume I: "send_ok w \<and> after_transmit ws w \<and> mReadyState w = mReadyState ws"
      and st: "send_step ops w = Continue w'"
    from I obtain s where s: "buf_inv (mTransmitBuffer w)" "mSocket w = Some s" "sinv s"
      by (auto simp: send_ok_def)
    show "(send_ok w' \<and> after_transmit ws w' \<and> mReadyState w' = mReadyState ws) \<and>
        length (contents (mTransmitBuffer w')) < length (contents (mTransmitBuffer w))"
    proof (cases rule: send_step_cases [OF s, case_names more idle wait dropped])
      case (more k s' w2)
      then have w2: "w2 = w'" using st by simp
      have "length (contents (mTransmitBuffer w')) < length (contents (mTransmitBuffer w))"
        using more(4,5,10) unfolding w2 by (simp del: length_contents)
      with more I show ?thesis unfolding w2 by (auto simp: send_ok_def intro: after_transmit_trans)
    qed (use st in auto)
  next
    fix w r assume I: "send_ok w \<and> after_transmit ws w \<and> mReadyState w = mReadyState ws"
      and st: "send_step ops w = Break r"
    from I obtain s where s: "buf_inv (mTransmitBuffer w)" "mSocket w = Some s" "sinv s"
      by (auto simp: send_ok_def)
    show "\<exists>ws'. r = Inr ws' \<and> send_ok ws' \<and> after_transmit ws ws'
        \<and> (mReadyState ws' = mReadyState ws \<or> mReadyState ws' = CLOSED)"
      by (cases rule: send_step_cases [OF s, case_names more idle wait dropped])
        (use st I s in \<open>auto simp: send_ok_def intro: after_transmit_trans\<close>)
  qed
  then show ?thesis by blast
qed

end

end
