(* ===== verification/WsPollStream.thy ===== *)
theory WsPollStream
  imports WsPoll WsSession SocketSharedMemory
begin

text \<open>
  \<open>poll\<close> on a socket that is a byte stream: no byte is lost, duplicated or reordered between the
  socket and the buffers, and a \<open>poll\<close> of an open connection delivers every message whose bytes
  have arrived.
\<close>

section \<open>Conservation of bytes\<close>

context stream_socket begin

lemma receive_loop_stream:
  assumes "recv_ok ws" and "mSocket ws = Some s" and "receive_loop ops ws = Some (Inr ws')"
  shows "\<exists>s'. mSocket ws' = Some s' \<and> sinv s'
    \<and> contents (mReceiveBuffer ws') @ incoming s' = contents (mReceiveBuffer ws) @ incoming s
    \<and> outgoing s' = outgoing s"
proof -
  let ?I = "\<lambda>w. buf_inv (mReceiveBuffer w) \<and> (\<exists>t. mSocket w = Some t \<and> sinv t
    \<and> contents (mReceiveBuffer w) @ incoming t = contents (mReceiveBuffer ws) @ incoming s
    \<and> outgoing t = outgoing s)"
  let ?Q = "\<lambda>r. \<forall>w. r = Inr w \<longrightarrow> ?I w"
  have "?Q (Inr ws' :: 'a web_socket result)"
  proof (rule run_loop_partial [OF assms(3) [unfolded receive_loop_def], where I = ?I])
    show "?I ws" using assms(1,2) by (auto simp: recv_ok_def)
  next
    fix w w' assume I: "?I w" and st: "receive_step ops w = Continue w'"
    then obtain t where t: "buf_inv (mReceiveBuffer w)" "mSocket w = Some t" "sinv t" by auto
    show "?I w'"
    proof (cases rule: receive_step_cases [OF t, case_names more wait full dropped fault])
      case (more xs s' ret w2)
      with receive_stream [OF t(3) more(3)] I st t show ?thesis by auto
    qed (use st in auto)
  next
    fix w r assume I: "?I w" and st: "receive_step ops w = Break r"
    then obtain t where t: "buf_inv (mReceiveBuffer w)" "mSocket w = Some t" "sinv t" by auto
    show "?Q r"
    proof (cases rule: receive_step_cases [OF t, case_names more wait full dropped fault])
      case (wait s' ret w2)
      with receive_stream [OF t(3) wait(3)] I st t show ?thesis by auto
    next
      case (dropped s' ret w2)
      with receive_stream [OF t(3) dropped(3)] I st t show ?thesis by (auto simp: close_stream)
    qed (use st I t in auto)
  qed
  then show ?thesis by auto
qed

lemma send_loop_stream:
  assumes "send_ok ws" and "mSocket ws = Some s" and "send_loop ops ws = Some (Inr ws')"
  shows "\<exists>s'. mSocket ws' = Some s' \<and> sinv s'
    \<and> outgoing s' @ contents (mTransmitBuffer ws') = outgoing s @ contents (mTransmitBuffer ws)
    \<and> incoming s' = incoming s"
proof -
  let ?I = "\<lambda>w. buf_inv (mTransmitBuffer w) \<and> (\<exists>t. mSocket w = Some t \<and> sinv t
    \<and> outgoing t @ contents (mTransmitBuffer w) = outgoing s @ contents (mTransmitBuffer ws)
    \<and> incoming t = incoming s)"
  let ?Q = "\<lambda>r. \<forall>w. r = Inr w \<longrightarrow> ?I w"
  have len: "length (contents (mTransmitBuffer w)) < 2 ^ 31" if "buf_inv (mTransmitBuffer w)"
    for w :: "'a web_socket"
    using contents_bound [OF that] by (simp del: length_contents)
  have "?Q (Inr ws' :: 'a web_socket result)"
  proof (rule run_loop_partial [OF assms(3) [unfolded send_loop_def], where I = ?I])
    show "?I ws" using assms(1,2) by (auto simp: send_ok_def)
  next
    fix w w' assume I: "?I w" and st: "send_step ops w = Continue w'"
    then obtain t where t: "buf_inv (mTransmitBuffer w)" "mSocket w = Some t" "sinv t" by auto
    show "?I w'"
    proof (cases rule: send_step_cases [OF t, case_names more idle wait dropped])
      case (more k s' w2)
      with send_stream [OF t(3) len [OF t(1)] more(3)] I st t show ?thesis by auto
    qed (use st in auto)
  next
    fix w r assume I: "?I w" and st: "send_step ops w = Break r"
    then obtain t where t: "buf_inv (mTransmitBuffer w)" "mSocket w = Some t" "sinv t" by auto
    show "?Q r"
    proof (cases rule: send_step_cases [OF t, case_names more idle wait dropped])
      case (wait s' ret w2)
      with send_stream [OF t(3) len [OF t(1)] wait(4)] I st t show ?thesis by auto
    next
      case (dropped s' ret w2)
      with send_stream [OF t(3) len [OF t(1)] dropped(4)] I st t show ?thesis by (auto simp: close_stream)
    qed (use st I t in auto)
  qed
  then show ?thesis by auto
qed

end

text \<open>With room in the receive buffer, the receive loop takes everything that has arrived.\<close>

lemma append_room_confirm:
  assumes "append_room b (unat n)"
  shows "\<exists>p b'. confirmCapacity b n = Inr (Some p, b')"
proof -
  obtain b' where "make_room b n = Inr b'" "\<not> needs_grow b' n" using make_room_total [OF assms] by blast
  then show ?thesis by (simp add: confirmCapacity_make_room needs_grow_def)
qed

context prompt_socket begin

lemma receive_all:
  assumes s: "mSocket ws = Some s" "sinv s"
    and room: "append_room (mReceiveBuffer ws) (length (incoming s) + 4096)"
  shows "\<exists>ws' s'. receive_loop ops ws = Some (Inr ws') \<and> after_receive ws ws'
    \<and> mSocket ws' = Some s' \<and> sinv s' \<and> incoming s' = [] \<and> outgoing s' = outgoing s
    \<and> mReadyState ws' = mReadyState ws \<and> buf_inv (mReceiveBuffer ws')
    \<and> contents (mReceiveBuffer ws') = contents (mReceiveBuffer ws) @ incoming s \<and> window s' = window s
    \<and> same_limits (mReceiveBuffer ws) (mReceiveBuffer ws') \<and> mStartLoc (mReceiveBuffer ws') = 0"
  using assms
proof (induction "length (incoming s)" arbitrary: ws s rule: less_induct)
  case less
  have inv: "buf_inv (mReceiveBuffer ws)" and start: "mStartLoc (mReceiveBuffer ws) = 0"
    using less.prems(3) by (auto simp: append_room_def)
  have cap: "\<exists>p b'. confirmCapacity (mReceiveBuffer ws) DEFAULT_MAX_READ_SIZE = Inr (Some p, b')"
    using append_room_confirm append_roomD(3) [OF less.prems(3), of 4096] max_read(1) by simp
  show ?case
  proof (cases rule: receive_step_cases [OF inv less.prems(1,2), case_names more wait full dropped fault])
    case (more xs s' ret ws')
    note str = receive_stream [OF less.prems(2) more(3)]
    from str more(4) have lt: "length (incoming s') < length (incoming s)" by auto
    have "append_room (mReceiveBuffer ws') (length (incoming s') + 4096)"
      using less.prems(3) more(8-11) start str
      by (auto simp: append_room_def same_limits_def simp del: length_contents)
    from less.hyps [OF lt more(5,6) this] obtain w t where w: "receive_loop ops ws' = Some (Inr w)"
      "after_receive ws' w" "mSocket w = Some t" "sinv t" "incoming t = []" "outgoing t = outgoing s'"
      "mReadyState w = mReadyState ws'" "buf_inv (mReceiveBuffer w)"
      "contents (mReceiveBuffer w) = contents (mReceiveBuffer ws') @ incoming s'" "window t = window s'"
      "same_limits (mReceiveBuffer ws') (mReceiveBuffer w)" "mStartLoc (mReceiveBuffer w) = 0" by blast
    moreover have "receive_loop ops ws = receive_loop ops ws'"
      unfolding receive_loop_def by (rule run_loop_Continue [where body = "receive_step ops", OF more(1)])
    ultimately show ?thesis
      using more str after_receive_trans [OF more(2) w(2)] receive_window [OF less.prems(2) more(3)]
        same_limits_trans [OF more(10) w(11)] by fastforce
  next
    case (wait s' ret ws')
    note str = receive_stream [OF less.prems(2) wait(3)]
    have "incoming s = []"
    proof (rule ccontr)
      assume "incoming s \<noteq> []"
      then have "0 < ret" by (rule receive_ready [OF less.prems(2) max_read(2) _ wait(3)])
      with receive_law [OF less.prems(2) max_read(2) wait(3)] show False by simp
    qed
    moreover have "receive_loop ops ws = Some (Inr ws')"
      unfolding receive_loop_def by (rule run_loop_Break [where body = "receive_step ops", OF wait(1)])
    ultimately show ?thesis using wait str start receive_window [OF less.prems(2) wait(3)] by auto
  next
    case (full ws')
    with cap show ?thesis by auto
  next
    case (dropped s' ret ws')
    have law: "nat ret = 0" "ret \<le> 0" using receive_law [OF less.prems(2) max_read(2) dropped(3)] by auto
    then have "incoming s = []"
      using receive_ready [OF less.prems(2) max_read(2) _ dropped(3)] by fastforce
    from receive_idle [OF less.prems(2) this dropped(3)]
    have "ret < 0 \<and> (sock_wouldBlock ops s' \<or> sock_inProgress ops s')" .
    with dropped(7) show ?thesis by simp
  next
    case fault
    with start show ?thesis by (simp add: shift_overlaps_def word_less_nat_alt)
  qed
qed

end

section \<open>Polling an open connection\<close>

text \<open>An open connection that has handled everything it has received, with buffers of some size.\<close>

definition at_rest :: "nat \<Rightarrow> nat \<Rightarrow> 's web_socket \<Rightarrow> bool" where
  "at_rest n m ws \<longleftrightarrow> mReadyState ws = OPEN \<and> contents (mReceiveBuffer ws) = [] \<and> contents (mReceivedData ws) = []
     \<and> total_room (mReceiveBuffer ws) n \<and> total_room (mTransmitBuffer ws) m"

lemma at_rest_send:
  assumes "at_rest n m ws" and "length (contents (mTransmitBuffer ws)) + message_cost msg \<le> m"
    and "length (fst msg) < 2 ^ 30"
  shows "\<exists>ws' f. send_message ws msg = Inr ws' \<and> at_rest n m ws' \<and> mSocket ws' = mSocket ws \<and> carries f msg
    \<and> contents (mTransmitBuffer ws') = contents (mTransmitBuffer ws) @ encode_frame f"
proof -
  note r = assms(1) [unfolded at_rest_def]
  have "can_send ws" using r by (simp add: can_send_def)
  moreover have "append_room (mTransmitBuffer ws) (message_cost msg + 0)"
    using r assms(2) by (auto intro: total_room_append)
  ultimately obtain ws' f where s: "send_message ws msg = Inr ws'" "append_room (mTransmitBuffer ws') 0"
    "same_receive_side ws ws'" "same_limits (mTransmitBuffer ws) (mTransmitBuffer ws')" "carries f msg"
    "contents (mTransmitBuffer ws') = contents (mTransmitBuffer ws) @ encode_frame f"
    using send_message_spec [OF _ _ assms(3)] by blast
  have "total_room (mTransmitBuffer ws') m"
    using total_room_keep [OF _ s(4) append_roomD(1,2) [OF s(2)]] r by blast
  with s r show ?thesis by (auto simp: at_rest_def same_receive_side_def)
qed

context prompt_socket begin

lemma send_loop_idle:
  assumes "buf_inv (mTransmitBuffer ws)" and "mSocket ws = Some s" and "sinv s" and "contents (mTransmitBuffer ws) = []"
  shows "send_loop ops ws = Some (Inr ws)"
proof -
  have "getSize (mTransmitBuffer ws) = 0" using assms(4) by (simp add: getSize_0_iff)
  then have "send_step ops ws = Break (Inr ws)" by (simp add: send_step_def)
  then show ?thesis
    unfolding send_loop_def by (rule run_loop_Break [where body = "send_step ops"])
qed

lemma poll_open:
  assumes s: "mSocket ws = Some s" "sinv s" and state: "mReadyState ws = OPEN"
    and room: "append_room (mReceiveBuffer ws) (length (incoming s) + 4096)"
      "receiver_room (sum_list (map frame_cost fs)) ws"
    and tx: "contents (mTransmitBuffer ws) = []"
    and frames: "\<forall>f \<in> set fs. frame_ok f" "incomplete rest"
    and bytes: "contents (mReceiveBuffer ws) @ incoming s = encode_frames fs @ rest"
    and run: "receive_frames (pong_of ws) fs (receiver_of ws msgs) = (r, left)"
  shows "\<exists>ws' s'. poll ops now True t (ws, msgs) = Some (Inr (ws', rc_msgs r))
    \<and> mSocket ws' = Some s' \<and> sinv s' \<and> incoming s' = [] \<and> outgoing s' = outgoing s
    \<and> contents (mReceiveBuffer ws') = encode_frames left @ rest
    \<and> contents (mReceivedData ws') = rc_partial r
    \<and> contents (mTransmitBuffer ws') = encode_frames (rc_sent r) \<and> can_send ws' = rc_open r"
proof -
  from receive_all [OF s room(1)] obtain w t where w: "receive_loop ops ws = Some (Inr w)" "after_receive ws w"
    "mSocket w = Some t" "sinv t" "incoming t = []" "outgoing t = outgoing s" "mReadyState w = OPEN"
    "buf_inv (mReceiveBuffer w)" "contents (mReceiveBuffer w) = encode_frames fs @ rest"
    using bytes state by auto
  note ar = after_receiveD [OF w(2)]
  have same: "mTransmitBuffer w = mTransmitBuffer ws" "mReceivedData w = mReceivedData ws"
    "mRandomUsed w = mRandomUsed ws" "pong_of w = pong_of ws" "can_send w = can_send ws"
    using ar w(7) state unfolding pong_of_def by simp_all
  have room2: "receiver_room (sum_list (map frame_cost fs)) w"
    using room(2) by (simp add: receiver_room_def same)
  have run2: "receive_frames (pong_of w) fs (receiver_of w msgs) = (r, left)"
    using run by (simp add: receiver_of_def same)
  from dispatch_frames [OF receiver_rel_init [OF w(8)] room2 frames w(9) run2] tx same(1) obtain ws' where
    d: "dispatchBinary True (w, msgs) = Some (Inr (ws', rc_msgs r))" "mSocket ws' = Some t"
    "contents (mReceiveBuffer ws') = encode_frames left @ rest" "contents (mReceivedData ws') = rc_partial r"
    "contents (mTransmitBuffer ws') = encode_frames (rc_sent r)" "can_send ws' = rc_open r"
    using w(3) by (auto simp: receiver_rel_def same_setup_def)
  have "send_loop ops w = Some (Inr w)"
    using room(2) tx w by (intro send_loop_idle) (simp_all add: same receiver_room_def append_room_def)
  then have "poll ops now True t' (ws, msgs) = dispatchBinary True (w, msgs)" for t'
    using s(1) state w(1,7) by (simp add: poll_def finish_closing_def Let_def)
  with d w(4-6) show ?thesis by auto
qed

text \<open>The window of the socket is large enough for the whole transmit buffer.\<close>

lemma send_loop_all:
  assumes s: "mSocket ws = Some s" "sinv s" and inv: "buf_inv (mTransmitBuffer ws)"
    and fits: "length (contents (mTransmitBuffer ws)) \<le> window s"
  shows "\<exists>ws' s'. send_loop ops ws = Some (Inr ws') \<and> after_transmit ws ws' \<and> mSocket ws' = Some s'
    \<and> sinv s' \<and> mReadyState ws' = mReadyState ws \<and> buf_inv (mTransmitBuffer ws')
    \<and> contents (mTransmitBuffer ws') = []
    \<and> outgoing s' = outgoing s @ contents (mTransmitBuffer ws) \<and> incoming s' = incoming s
    \<and> same_limits (mTransmitBuffer ws) (mTransmitBuffer ws')
    \<and> (mStartLoc (mTransmitBuffer ws) = 0 \<longrightarrow> mStartLoc (mTransmitBuffer ws') = 0)"
proof (cases "contents (mTransmitBuffer ws) = []")
  case True
  with send_loop_idle [OF inv s True] s inv show ?thesis by (intro exI [of _ ws]) auto
next
  case False
  have len: "length (contents (mTransmitBuffer ws)) < 2 ^ 31"
    using contents_bound [OF inv] by (simp del: length_contents)
  have pos: "0 < int (length (contents (mTransmitBuffer ws)))"
    using False by (simp only: of_nat_0_less_iff length_greater_0_conv not_False_eq_True)
  show ?thesis
  proof (cases rule: send_step_cases [OF inv s, case_names more idle wait dropped])
    case (more k t w)
    from send_ready [OF s(2) False len fits more(3)]
    have "int k = int (length (contents (mTransmitBuffer ws)))" by (rule conjunct1)
    then have "k = length (contents (mTransmitBuffer ws))" by (simp only: of_nat_eq_iff)
    then have e: "contents (mTransmitBuffer w) = []" "outgoing t = outgoing s @ contents (mTransmitBuffer ws)"
      "incoming t = incoming s"
      using more(10) send_stream [OF s(2) len more(3)] by auto
    have "send_loop ops ws = send_loop ops w"
      unfolding send_loop_def by (rule run_loop_Continue [where body = "send_step ops", OF more(1)])
    then show ?thesis using send_loop_idle [OF more(9,6,7) e(1)] more e by auto
  next
    case idle
    with False show ?thesis by simp
  next
    case (wait t ret w)
    with conjunct1 [OF send_ready [OF s(2) False len fits wait(4)]] pos show ?thesis by linarith
  next
    case (dropped t ret w)
    with conjunct1 [OF send_ready [OF s(2) False len fits dropped(4)]] pos show ?thesis by linarith
  qed
qed

text \<open>
  A \<open>poll\<close> in both directions: what was queued goes out, the messages that have arrived are
  delivered, and the buffers keep their room.
\<close>

lemma poll_at_rest:
  assumes s: "mSocket ws = Some s" "sinv s" and rest: "at_rest n m ws" and n: "length (incoming s) + 4096 \<le> n"
    and tx: "length (contents (mTransmitBuffer ws)) \<le> window s"
    and fs: "list_all2 carries fs ms" "incoming s = encode_frames fs"
  shows "\<exists>ws' s'. poll ops now True t (ws, msgs) = Some (Inr (ws', msgs @ ms))
    \<and> mSocket ws' = Some s' \<and> sinv s' \<and> incoming s' = [] \<and> outgoing s' = outgoing s @ contents (mTransmitBuffer ws)
    \<and> contents (mTransmitBuffer ws') = [] \<and> at_rest n m ws'"
proof -
  note r = rest [unfolded at_rest_def]
  have "append_room (mReceiveBuffer ws) (length (incoming s) + 4096)"
    using r n by (auto intro: total_room_append)
  from receive_all [OF s this] obtain w a where w: "receive_loop ops ws = Some (Inr w)" "after_receive ws w"
    "mSocket w = Some a" "sinv a" "incoming a = []" "outgoing a = outgoing s" "mReadyState w = OPEN"
    "buf_inv (mReceiveBuffer w)" "contents (mReceiveBuffer w) = encode_frames fs" "window a = window s"
    "same_limits (mReceiveBuffer ws) (mReceiveBuffer w)" "mStartLoc (mReceiveBuffer w) = 0"
    using r fs(2) by auto
  note ar = after_receiveD [OF w(2)]
  have inv: "buf_inv (mTransmitBuffer w)" using r ar by (simp add: total_room_def)
  from send_loop_all [OF w(3,4) inv] obtain v b where v: "send_loop ops w = Some (Inr v)" "after_transmit w v"
    "mSocket v = Some b" "sinv b" "mReadyState v = OPEN" "contents (mTransmitBuffer v) = []"
    "outgoing b = outgoing s @ contents (mTransmitBuffer ws)" "incoming b = []" "buf_inv (mTransmitBuffer v)"
    "same_limits (mTransmitBuffer w) (mTransmitBuffer v)"
    "mStartLoc (mTransmitBuffer w) = 0 \<longrightarrow> mStartLoc (mTransmitBuffer v) = 0"
    using tx w ar by auto
  note same = after_transmitD [OF v(2)]
  have tr: "total_room (mTransmitBuffer w) m" using r ar by simp
  then have "mStartLoc (mTransmitBuffer w) = 0" by (simp add: total_room_def)
  with v(11) have "mStartLoc (mTransmitBuffer v) = 0" by blast
  with total_room_keep [OF tr v(10,9)] have "total_room (mTransmitBuffer v) m" .
  moreover obtain u where u: "dispatchBinary True (v, msgs) = Some (Inr (u, msgs @ ms))" "same_but_received v u"
    "buf_inv (mReceiveBuffer u)" "contents (mReceiveBuffer u) = []" "mStartLoc (mReceiveBuffer u) = 0"
    using dispatch_carried [OF fs(1), of v msgs] w(8,9,12) r ar same by auto
  moreover have "same_limits (mReceiveBuffer w) (mReceiveBuffer u)"
    using u(2) same(1) by (simp add: same_but_received_def)
  then have "total_room (mReceiveBuffer u) n"
    using total_room_keep [of "mReceiveBuffer ws" n, OF _ same_limits_trans [OF w(11)] u(3,5)] r by blast
  moreover have "poll ops now True t (ws, msgs) = dispatchBinary True (v, msgs)"
    using s(1) r w(1,7) v(1,5) by (simp add: poll_def finish_closing_def Let_def)
  ultimately show ?thesis using v(3-8) r ar same by (auto simp: at_rest_def same_but_received_def)
qed

lemma poll_exchange:
  assumes s: "mSocket ws = Some s" "sinv s" and state: "mReadyState ws = OPEN"
    and rb: "contents (mReceiveBuffer ws) = []" "append_room (mReceiveBuffer ws) (length (incoming s) + 4096)"
    and rd: "contents (mReceivedData ws) = []" and room: "append_room (mTransmitBuffer ws) k"
    and tx: "length (contents (mTransmitBuffer ws)) \<le> window s"
    and fs: "list_all2 carries fs ms" "incoming s = encode_frames fs"
  shows "\<exists>ws' s'. poll ops now True t (ws, msgs) = Some (Inr (ws', msgs @ ms))
    \<and> mSocket ws' = Some s' \<and> sinv s' \<and> incoming s' = [] \<and> outgoing s' = outgoing s @ contents (mTransmitBuffer ws)
    \<and> contents (mTransmitBuffer ws') = [] \<and> append_room (mTransmitBuffer ws') k \<and> can_send ws'"
proof -
  have "at_rest (length (incoming s) + 4096) k ws"
    using state rb rd room by (auto simp: at_rest_def append_room_def total_room_def)
  from poll_at_rest [OF s this order_refl tx fs, of now t msgs] show ?thesis
    by (auto simp: at_rest_def can_send_def intro: total_room_empty)
qed

text \<open>A \<open>poll\<close> with nothing to receive moves the transmit buffer into the stream.\<close>

lemma receive_loop_empty:
  assumes "mSocket ws = Some s" and "sinv s" and "incoming s = []" and "append_room (mReceiveBuffer ws) 4096"
  shows "\<exists>w t. receive_loop ops ws = Some (Inr w) \<and> after_receive ws w \<and> mSocket w = Some t \<and> sinv t
    \<and> incoming t = [] \<and> outgoing t = outgoing s \<and> window t = window s \<and> mReadyState w = mReadyState ws
    \<and> buf_inv (mReceiveBuffer w) \<and> contents (mReceiveBuffer w) = contents (mReceiveBuffer ws)"
proof -
  have inv: "buf_inv (mReceiveBuffer ws)" and start: "mStartLoc (mReceiveBuffer ws) = 0"
    using assms(4) by (auto simp: append_room_def)
  have cap: "\<exists>p b'. confirmCapacity (mReceiveBuffer ws) DEFAULT_MAX_READ_SIZE = Inr (Some p, b')"
    using append_room_confirm assms(4) max_read(1) by simp
  show ?thesis
  proof (cases rule: receive_step_cases [OF inv assms(1,2), case_names more wait full dropped fault])
    case (more xs t ret w)
    with receive_stream [OF assms(2) more(3)] assms(3) show ?thesis by simp
  next
    case (wait t ret w)
    have "receive_loop ops ws = Some (Inr w)"
      unfolding receive_loop_def by (rule run_loop_Break [where body = "receive_step ops", OF wait(1)])
    with wait receive_stream [OF assms(2) wait(3)] receive_window [OF assms(2) wait(3)] assms(3)
    show ?thesis by auto
  next
    case (full w)
    with cap show ?thesis by auto
  next
    case (dropped t ret w)
    with receive_idle [OF assms(2,3) dropped(3)] show ?thesis by simp
  next
    case fault
    with start show ?thesis by (simp add: shift_overlaps_def word_less_nat_alt)
  qed
qed

lemma poll_sends:
  assumes s: "mSocket ws = Some s" "sinv s" "incoming s = []" and state: "mReadyState ws = OPEN"
    and rb: "append_room (mReceiveBuffer ws) 4096" "contents (mReceiveBuffer ws) = []"
    and tx: "buf_inv (mTransmitBuffer ws)" "length (contents (mTransmitBuffer ws)) \<le> window s"
  shows "\<exists>ws' s'. poll ops now True t (ws, msgs) = Some (Inr (ws', msgs)) \<and> mSocket ws' = Some s' \<and> sinv s'
    \<and> contents (mTransmitBuffer ws') = []
    \<and> outgoing s' = outgoing s @ contents (mTransmitBuffer ws) \<and> incoming s' = []"
proof -
  from receive_loop_empty [OF s rb(1)] obtain w t where w: "receive_loop ops ws = Some (Inr w)"
    "after_receive ws w" "mSocket w = Some t" "sinv t" "incoming t = []" "outgoing t = outgoing s"
    "window t = window s" "mReadyState w = OPEN" "buf_inv (mReceiveBuffer w)" "contents (mReceiveBuffer w) = []"
    using rb state by auto
  note txw = after_receiveD(1) [OF w(2)]
  from send_loop_all [of w t] w tx txw obtain v u where v: "send_loop ops w = Some (Inr v)" "after_transmit w v"
    "mSocket v = Some u" "sinv u" "mReadyState v = OPEN" "contents (mTransmitBuffer v) = []"
    "outgoing u = outgoing s @ contents (mTransmitBuffer ws)" "incoming u = []" by auto
  note rbv = after_transmitD(1) [OF v(2)]
  have "dispatch_step True (v, msgs) = Break (Inr (v, msgs))"
    using w(9,10) by (intro dispatch_step_incomplete) (simp_all add: rbv incomplete_Nil)
  then have "dispatchBinary True (v, msgs) = Some (Inr (v, msgs))"
    unfolding dispatchBinary_def by (rule run_loop_Break)
  then have "poll ops now True t' (ws, msgs) = Some (Inr (v, msgs))" for t'
    using s(1) state w(1,8) v(1,5) by (simp add: poll_def finish_closing_def Let_def)
  with v show ?thesis by auto
qed

end

section \<open>Properties\<close>

text \<open>An open connection over the shared-memory socket, to test with.\<close>

definition shm_connection :: "bool \<Rightarrow> u8 list \<Rightarrow> u8 list \<Rightarrow> shm_socket web_socket" where
  "shm_connection useMask received incoming =
     (new_server_connection zero_heap LittleEndian (\<lambda>k. word_of_nat k + 1) [] 0
        (Some (client_socket incoming)) useMask)
       \<lparr>mReadyState := OPEN, mReceiveBuffer := loaded_buffer received\<rparr>"

lemma shm_connection_simps [simp]:
  "mSocket (shm_connection m xs ys) = Some (client_socket ys)"
  "mReceiveBuffer (shm_connection m xs ys) = loaded_buffer xs"
  "mReadyState (shm_connection m xs ys) = OPEN" "can_send (shm_connection m xs ys)"
  "contents (mTransmitBuffer (shm_connection m xs ys)) = []"
  "contents (mReceivedData (shm_connection m xs ys)) = []"
  by (simp_all add: shm_connection_def new_server_connection_def can_send_def)

lemma loaded_buffer_room:
  "length xs \<le> 16384 \<Longrightarrow> k \<le> 100000000 \<Longrightarrow> append_room (loaded_buffer xs) k"
  using loaded_buffer [of xs] by (simp add: append_room_def flip: length_contents) (simp add: loaded_buffer_def)

lemma at_rest_shm_connection:
  assumes "n \<le> 100000000"
  shows "at_rest n n (shm_connection m [] ys)"
proof -
  have "total_room (loaded_buffer []) n" using loaded_buffer_room [of "[]" n] assms loaded_buffer [of "[]"] by (simp add: append_room_total)
  moreover have "total_room (mTransmitBuffer (shm_connection m [] ys)) n"
    using open_connection_room [of n m "[]"] assms
    by (simp add: append_room_total shm_connection_def open_connection_def new_server_connection_def)
  ultimately show ?thesis using loaded_buffer [of "[]"] by (simp add: at_rest_def)
qed

lemma shm_connection_room:
  "k \<le> 100000000 \<Longrightarrow> receiver_room k (shm_connection m xs ys)"
  using open_connection_room [of k m xs]
  by (simp add: receiver_room_def shm_connection_def open_connection_def new_server_connection_def)

text \<open>Both loops of \<open>poll\<close> return, whatever the peer sends and however little the socket takes: the receive loop
  because the receive buffer is bounded, the send loop because it drains a finite buffer. The only fault is
  the overlapping copy of a compaction.\<close>
theorem poll_loops_return:
  assumes "mSocket ws = Some s" and "shm_inv s" and "buf_inv (mReceiveBuffer ws)" and "buf_inv (mTransmitBuffer ws)"
  shows "(\<exists>r. receive_loop shm_ops ws = Some r \<and>
      (case r of Inl e \<Rightarrow> e = OverlappingCopy
       | Inr ws' \<Rightarrow> buf_inv (mReceiveBuffer ws') \<and> mTransmitBuffer ws' = mTransmitBuffer ws))
    \<and> (\<exists>ws'. send_loop shm_ops ws = Some (Inr ws') \<and> buf_inv (mTransmitBuffer ws')
      \<and> mReceiveBuffer ws' = mReceiveBuffer ws)"
proof -
  have "shm.recv_ok ws" "shm.send_ok ws" using assms by (auto simp: shm.recv_ok_def shm.send_ok_def)
  from shm.receive_loop_total [OF this(1)] shm.send_loop_total [OF this(2)] obtain r w where
    r: "receive_loop shm_ops ws = Some r" "case r of Inl e \<Rightarrow> e = OverlappingCopy
      | Inr ws' \<Rightarrow> shm.recv_ok ws' \<and> after_receive ws ws' \<and> (mReadyState ws' = mReadyState ws \<or> mReadyState ws' = CLOSED)"
    and w: "send_loop shm_ops ws = Some (Inr w)" "shm.send_ok w" "after_transmit ws w" by blast
  have "case r of Inl e \<Rightarrow> e = OverlappingCopy
       | Inr ws' \<Rightarrow> buf_inv (mReceiveBuffer ws') \<and> mTransmitBuffer ws' = mTransmitBuffer ws"
    using r(2) by (cases r) (auto simp: shm.recv_ok_def dest: after_receiveD(1))
  with r(1) w show ?thesis by (auto simp: shm.send_ok_def dest: after_transmitD(1))
qed

lemma poll_loops_return_witness:
  "\<exists>r ws'. receive_loop shm_ops (shm_connection True [] [0x81, 0]) = Some r
    \<and> send_loop shm_ops (shm_connection True [] [0x81, 0]) = Some (Inr ws')"
proof -
  let ?ws = "shm_connection True [] [0x81, 0]"
  have "buf_inv (mReceiveBuffer ?ws)" "buf_inv (mTransmitBuffer ?ws)"
    using loaded_buffer(1) [of "[]"] shm_connection_room [of 0 True "[]" "[0x81, 0]"]
    by (simp_all add: receiver_room_def append_room_def)
  with poll_loops_return [of ?ws "client_socket [0x81, 0]"] client_socket(1) [of "[0x81, 0]"]
  show ?thesis by auto
qed





text \<open>An open connection with nothing buffered and room for \<open>n\<close> bytes of frames.\<close>

definition idle_endpoint :: "shm_socket web_socket \<Rightarrow> shm_socket \<Rightarrow> nat \<Rightarrow> bool" where
  "idle_endpoint ws s n \<longleftrightarrow> mReadyState ws = OPEN \<and> mSocket ws = Some s \<and> shm_inv s
     \<and> contents (mReceiveBuffer ws) = [] \<and> contents (mReceivedData ws) = [] \<and> contents (mTransmitBuffer ws) = []
     \<and> append_room (mReceiveBuffer ws) (n + 4096) \<and> receiver_room n ws"

text \<open>C3. Two programs over shared memory: the messages queued on one connection leave its transmit buffer with one
  \<open>poll\<close>, and the \<open>poll\<close> of the peer whose ring holds those bytes hands exactly these messages to its
  callback, in order.\<close>
theorem messages_over_shared_memory:
  assumes "idle_endpoint a sa (sum_list (map message_cost ms))" and "shm_incoming sa = []"
    and "sum_list (map message_cost ms) \<le> shm_window sa" and "\<forall>m \<in> set ms. length (fst m) < 2 ^ 30"
    and "idle_endpoint b sb (sum_list (map message_cost ms))"
    and "send_messages a ms = Inr a1" and "shm_incoming sb = contents (mTransmitBuffer a1)"
  shows "(\<exists>a2 sa2. poll shm_ops now True t (a1, out) = Some (Inr (a2, out)) \<and> mSocket a2 = Some sa2
      \<and> contents (mTransmitBuffer a2) = []
      \<and> shm_outgoing sa2 = shm_outgoing sa @ contents (mTransmitBuffer a1))
    \<and> (\<exists>b2 sb2. poll shm_ops now True t (b, msgs) = Some (Inr (b2, msgs @ ms)) \<and> mSocket b2 = Some sb2
      \<and> contents (mReceiveBuffer b2) = [] \<and> shm_incoming sb2 = [])"
proof -
  let ?n = "sum_list (map message_cost ms)"
  note a = assms(1) [unfolded idle_endpoint_def] and b = assms(5) [unfolded idle_endpoint_def]
  from send_messages_spec [of a ms] a assms(4,6) obtain fs where
    fs: "list_all2 carries fs ms" "same_receive_side a a1" "append_room (mTransmitBuffer a1) 0"
      "contents (mTransmitBuffer a1) = encode_frames fs"
    by (auto simp: can_send_def receiver_room_def)
  note len = carried_length [OF fs(1)]
  have "append_room (mReceiveBuffer a1) 4096" "buf_inv (mTransmitBuffer a1)"
    using a fs(2,3) by (auto simp: same_receive_side_def append_room_def)
  with shm.poll_sends [of a1 sa now t out] a fs(2,4) assms(2,3) len have
    "\<exists>a2 sa2. poll shm_ops now True t (a1, out) = Some (Inr (a2, out)) \<and> mSocket a2 = Some sa2
      \<and> contents (mTransmitBuffer a2) = [] \<and> shm_outgoing sa2 = shm_outgoing sa @ contents (mTransmitBuffer a1)"
    by (auto simp: same_receive_side_def)
  moreover have "append_room (mReceiveBuffer b) (length (shm_incoming sb) + 4096)"
    using b len fs(4) assms(7) by (auto simp: append_room_def)
  moreover have "receive_frames (pong_of b) fs (receiver_of b msgs) =
      ((receiver_of b msgs)\<lparr>rc_msgs := rc_msgs (receiver_of b msgs) @ ms\<rparr>, [])"
    by (rule receive_carried [OF fs(1)]) (simp add: receiver_of_def b)
  ultimately show ?thesis
    using shm.poll_open [where ws = b and s = sb and fs = fs and rest = "[]" and msgs = msgs and now = now and t = t] b fs(4) assms(7) carried_cost [OF fs(1)] carried_ok [OF fs(1)]
    by (auto simp: receiver_of_def incomplete_Nil(1))
qed

lemma idle_shm_connection:
  "n \<le> 100000 \<Longrightarrow> length ys \<le> 16350 \<Longrightarrow> idle_endpoint (shm_connection m [] ys) (client_socket ys) n"
  using client_socket [of ys] loaded_buffer [of "[]"] loaded_buffer_room [of "[]"] shm_connection_room
  by (simp add: idle_endpoint_def)

lemma messages_over_shared_memory_witness:
  "\<exists>a1 a2 sa2 b2. send_messages (shm_connection True [] []) [([104, 105], True), ([0, 255], False)] = Inr a1
    \<and> poll shm_ops 0 True 1 (a1, []) = Some (Inr (a2, [])) \<and> mSocket a2 = Some sa2
    \<and> poll shm_ops 0 True 1 (shm_connection False [] (shm_outgoing sa2), [])
      = Some (Inr (b2, [([104, 105], True), ([0, 255], False)]))"
proof -
  let ?a = "shm_connection True [] []" and ?ms = "[([104, 105], True), ([0, 255], False)] :: message list"
  let ?n = "sum_list (map message_cost ?ms)"
  have cost: "?n \<le> 100" by (simp add: message_cost_def)
  then have idle: "idle_endpoint ?a (client_socket []) ?n" by (intro idle_shm_connection) simp_all
  then have room: "append_room (mTransmitBuffer ?a) ?n" by (simp add: idle_endpoint_def receiver_room_def)
  obtain a1 fs where a1: "send_messages ?a ?ms = Inr a1" "list_all2 carries fs ?ms"
    "contents (mTransmitBuffer a1) = encode_frames fs"
    using send_messages_spec [OF _ room] by auto
  have len: "length (encode_frames fs) \<le> 16350" using carried_length [OF a1(2)] cost by simp
  let ?b = "shm_connection False [] (encode_frames fs)" and ?sb = "client_socket (encode_frames fs)"
  have "idle_endpoint ?b ?sb ?n" using cost len by (intro idle_shm_connection) simp_all
  note m = messages_over_shared_memory [OF idle _ _ _ this a1(1), where now = 0 and t = 1 and out = "[]" and msgs = "[]"]
  show ?thesis using m client_socket [of "[]"] client_socket(2) [OF len] cost a1 by auto
qed

end
