(* ===== verification/WsHandshake.thy ===== *)
theory WsHandshake
  imports WsPoll
begin

text \<open>
  The opening handshake over a socket: what \<open>poll\<close> does to a connecting \<open>WebSocketImpl\<close>, byte by
  byte and then line by line, for a socket that meets the contract of \<open>Wsocket\<close>. One \<open>poll\<close> takes
  at most one byte, so a line of \<open>n\<close> bytes is complete after \<open>n\<close> polls.
\<close>

section \<open>Polling again and again\<close>

fun polls ::
  "'s wsocket_ops \<Rightarrow> int \<Rightarrow> int list \<Rightarrow> 's web_socket \<times> message list \<Rightarrow>
   ('s web_socket \<times> message list) result option" where
  "polls ops timeout [] st = Some (Inr st)"
| "polls ops timeout (now # nows) st = lbind (poll ops now True timeout st) (polls ops timeout nows)"

lemma polls_append:
  "polls ops t (xs @ ys) st = lbind (polls ops t xs st) (polls ops t ys)"
proof (induction xs arbitrary: st)
  case (Cons x xs)
  then show ?case
    by (cases "(poll ops x True t st, polls ops t xs)" rule: lbind.cases) auto
qed simp

lemma polls_Nil: "polls ops t [] = (\<lambda>st. Some (Inr st))"
  by (rule ext) simp

lemma lbind_connection:
  "lbind (Some (ebind (ebind m (\<lambda>(ok, ws). Inr (f ok ws))) (\<lambda>ws. Inr (ws, msgs)))) (\<lambda>st. Some (Inr st)) =
   Some (ebind m (\<lambda>(ok, ws). Inr (f ok ws, msgs)))"
  by (cases m) auto

lemma poll_connecting:
  "mReadyState ws = CONNECTING \<Longrightarrow> mSocket ws = Some s \<Longrightarrow>
   poll ops now cb t (ws, msgs) = Some (ebind (processConnection ops now ws) (\<lambda>ws. Inr (ws, msgs)))"
  by (simp add: poll_def)

section \<open>Well-formed connections\<close>

text \<open>
  The array has 256 bytes and a connection with a socket has an index below 255; a server waits
  for the first line and then for header lines, a client walks through the other phases.
\<close>

definition connection_wf :: "'s web_socket \<Rightarrow> bool" where
  "connection_wf ws \<longleftrightarrow> length (mConnectionBuffer ws) = 256
     \<and> (mSocket ws \<noteq> None \<longrightarrow> unat (mConnectionIndex ws) < 255)
     \<and> (mConnectionPhase ws \<noteq> HTTP_STATUS \<longrightarrow>
          mIsServerClient ws = (mConnectionPhase ws = SERVER_CLIENT_STRINGS))
     \<and> (mReadyState ws = CONNECTING \<longrightarrow> mSocket ws \<noteq> None)"

definition in_time :: "int \<Rightarrow> int list \<Rightarrow> bool" where
  "in_time start nows \<longleftrightarrow> sorted (start # nows) \<and>
     (\<forall>now \<in> set nows. now < start + CONNECTION_TIME_OUT * 1000000000)"

lemma in_time_append:
  assumes "in_time start (xs @ ys)"
  shows "in_time start xs" "xs \<noteq> [] \<Longrightarrow> in_time (last xs) ys"
    "xs \<noteq> [] \<Longrightarrow> in_time start [last xs]" "in_time start ys"
proof -
  note s = assms [unfolded in_time_def]
  show "in_time start xs" "in_time start ys" using s by (auto simp: in_time_def sorted_append)
  assume "xs \<noteq> []"
  then have "last xs \<in> set xs" by simp
  with s have "start \<le> last xs" "\<forall>y \<in> set ys. last xs \<le> y" "last xs < start + CONNECTION_TIME_OUT * 1000000000"
    by (auto simp: sorted_append)
  moreover have "y < last xs + CONNECTION_TIME_OUT * 1000000000" if "y \<in> set ys" for y
  proof -
    have "y < start + CONNECTION_TIME_OUT * 1000000000" using s that by simp
    with \<open>start \<le> last xs\<close> show ?thesis by linarith
  qed
  ultimately show "in_time (last xs) ys" "in_time start [last xs]"
    using s by (simp_all add: in_time_def sorted_append)
qed

lemma in_time_Cons: "in_time start (x # xs) \<Longrightarrow> in_time start [x] \<and> in_time start xs"
  by (auto simp: in_time_def)

text \<open>A line as it can be stored: it fits, and no byte ends it early.\<close>

definition plain_line :: "u8 list \<Rightarrow> bool" where
  "plain_line l \<longleftrightarrow> length l \<le> 253 \<and> 0 \<notin> set l \<and> 0x0A \<notin> set l"

definition same_buffers :: "'s web_socket \<Rightarrow> 's web_socket \<Rightarrow> bool" where
  "same_buffers ws ws' \<longleftrightarrow> mReceiveBuffer ws' = mReceiveBuffer ws \<and> mTransmitBuffer ws' = mTransmitBuffer ws
     \<and> mReceivedData ws' = mReceivedData ws \<and> mUseMask ws' = mUseMask ws \<and> mIsServerClient ws' = mIsServerClient ws"

lemma store_byte: "i < length buf \<Longrightarrow> store_bytes buf i [c] = Inr (buf[i := c])"
  by (simp add: store_bytes_def upd_conv_take_nth_drop)

definition wire_lines :: "u8 list list \<Rightarrow> u8 list" where
  "wire_lines ls = concat (map (\<lambda>l. l @ crlf_bytes) ls)"

lemma wire_lines_simps [simp]:
  "wire_lines [] = []" "wire_lines (l # ls) = l @ crlf_bytes @ wire_lines ls"
  "wire_lines (xs @ ys) = wire_lines xs @ wire_lines ys"
  by (simp_all add: wire_lines_def)

lemma length_crlf [simp]: "length crlf_bytes = 2"
  by (simp add: crlf_bytes_def)

text \<open>The client: one line for each of its phases.\<close>

fun next_phase :: "connection_phase \<Rightarrow> connection_phase" where
  "next_phase HTTP_STATUS = HCONNECTION_UPGRADE"
| "next_phase HCONNECTION_UPGRADE = HSEC_WEBSOCKET_ACCEPT"
| "next_phase HSEC_WEBSOCKET_ACCEPT = HSERVER_WEBSOCKET"
| "next_phase HSERVER_WEBSOCKET = HUPGRADE_WEBSOCKET"
| "next_phase HUPGRADE_WEBSOCKET = H"
| "next_phase p = p"

fun lines_left :: "connection_phase \<Rightarrow> nat" where
  "lines_left HTTP_STATUS = 6"
| "lines_left HCONNECTION_UPGRADE = 5"
| "lines_left HSEC_WEBSOCKET_ACCEPT = 4"
| "lines_left HSERVER_WEBSOCKET = 3"
| "lines_left HUPGRADE_WEBSOCKET = 2"
| "lines_left H = 1"
| "lines_left SERVER_CLIENT_STRINGS = 0"

lemma not_255: "unat (w :: u32) \<noteq> 255 \<Longrightarrow> w \<noteq> 255"
  by auto

definition socket_ok :: "('s \<Rightarrow> bool) \<Rightarrow> 's web_socket \<Rightarrow> bool" where
  "socket_ok good ws \<longleftrightarrow> (\<forall>s. mSocket ws = Some s \<longrightarrow> good s)"

lemma unat_not_255:
  assumes "w \<noteq> (255 :: u32)"
  shows "unat w \<noteq> 255"
proof
  assume "unat w = 255"
  then have "unat w = unat (255 :: u32)" by simp
  with assms show False by (simp only: word_unat_eq_iff)
qed

text \<open>One call of \<open>processConnection\<close> keeps a connection well formed, whatever the socket delivers.\<close>

context wsocket_contract begin

lemma send_strings_total:
  "sinv s \<Longrightarrow> \<forall>l \<in> set ls. length l < 2 ^ 31 \<Longrightarrow> \<exists>s'. send_strings ops s ls = Inr s' \<and> sinv s'"
proof (induction ls arbitrary: s)
  case (Cons l ls)
  then have l: "length l < 2 ^ 31" by simp
  obtain ret s1 where r: "sock_send ops s l = Inr (ret, s1)" using send_total [OF Cons.prems(1) l] by blast
  with send_law [OF Cons.prems(1) l r] Cons show ?case by auto
qed simp

lemma connection_line_wf:
  assumes "connection_wf ws" and "mSocket ws = Some s" and "sinv s"
  shows "\<exists>ok ws'. connection_line ops ws l = Inr (ok, ws') \<and> connection_wf ws' \<and> socket_ok sinv ws'"
proof -
  have "\<forall>l \<in> set handshake_reply. length l < 2 ^ 31" by (simp add: handshake_reply_def)
  from send_strings_total [OF assms(3) this] obtain s' where s': "send_strings ops s handshake_reply = Inr s'" "sinv s'"
    by blast
  show ?thesis
    using assms s' nagle_law
    by (cases "mConnectionPhase ws") (auto simp: connection_line_def connection_wf_def opened_def socket_ok_def)
qed

lemma connection_byte_wf:
  assumes "connection_wf ws" and "mSocket ws = Some s" and "sinv s"
  shows "\<exists>ws'. connection_byte ops now ws = Inr ws' \<and> connection_wf ws' \<and> socket_ok sinv ws'"
proof -
  let ?i = "unat (mConnectionIndex ws)" and ?buf = "mConnectionBuffer ws"
  have i: "?i < 255" "length ?buf = 256" using assms(1,2) by (auto simp: connection_wf_def)
  show ?thesis
  proof (cases "?buf ! ?i = 0x0A")
    case True
    let ?buf' = "if ?i > 0 \<and> (?buf[?i := 0]) ! (?i - 1) = 0x0D then ?buf[?i := 0, ?i - 1 := 0] else ?buf[?i := 0]"
    let ?ws = "ws\<lparr>mConnectionBuffer := ?buf', mConnectionIndex := 0\<rparr>"
    have "connection_wf ?ws" using assms(1) by (simp add: connection_wf_def)
    from connection_line_wf [OF this, of s "takeWhile (\<lambda>c. c \<noteq> 0) ?buf'"] assms(2,3) obtain ok ws' where
      w: "connection_line ops ?ws (takeWhile (\<lambda>c. c \<noteq> 0) ?buf') = Inr (ok, ws')" "connection_wf ws'" "socket_ok sinv ws'"
      by auto
    let ?r = "(if ok then ws' else release_socket ws')\<lparr>mConnectionTimer := now\<rparr>"
    have "connection_byte ops now ws = Inr ?r"
      using True w(1) unfolding connection_byte_def Let_def by simp
    moreover have "connection_wf ?r" "socket_ok sinv ?r"
      using w(2,3) by (auto simp: connection_wf_def release_socket_def socket_ok_def)
    ultimately show ?thesis by blast
  next
    case False
    have n: "unat (mConnectionIndex ws + 1) = ?i + 1" using i(1) by (simp add: unat_plus_if')
    let ?ws = "ws\<lparr>mConnectionIndex := mConnectionIndex ws + 1\<rparr>"
    have "connection_byte ops now ws = Inr (if mConnectionIndex ws + 1 = 255 then release_socket ?ws else ?ws)"
      using False by (simp add: connection_byte_def)
    moreover have "connection_wf ?ws" if "mConnectionIndex ws + 1 \<noteq> 255"
    proof -
      have "unat (mConnectionIndex ws + 1) \<noteq> 255" using that by (rule unat_not_255)
      then show ?thesis using n i assms(1,2) by (auto simp: connection_wf_def)
    qed
    moreover have "connection_wf (release_socket ?ws)" using assms(1) by (simp add: connection_wf_def release_socket_def)
    ultimately show ?thesis using assms(2,3) by (auto simp: release_socket_def socket_ok_def)
  qed
qed

lemma processConnection_wf:
  assumes "connection_wf ws" and "socket_ok sinv ws"
  shows "\<exists>ws'. processConnection ops now ws = Inr ws' \<and> connection_wf ws' \<and> socket_ok sinv ws'"
proof (cases "mSocket ws")
  case (Some s)
  show ?thesis
  proof (cases "now - mConnectionTimer ws \<ge> CONNECTION_TIME_OUT * 1000000000")
    case True
    then show ?thesis using Some assms
      by (auto simp: processConnection_def release_socket_def connection_wf_def socket_ok_def)
  next
    case False
    have s: "sinv s" "length (mConnectionBuffer ws) = 256" "unat (mConnectionIndex ws) < 255"
      using assms Some by (auto simp: connection_wf_def socket_ok_def)
    obtain v xs s' where r: "sock_receive ops s 1 = Inr (v, xs, s')" using receive_total [OF s(1)] by blast
    from receive_law [OF s(1) _ r] have l: "sinv s'" "nat v \<le> 1" "length xs = nat v" by auto
    let ?i = "unat (mConnectionIndex ws)"
    define buf where "buf = take ?i (mConnectionBuffer ws) @ xs @ drop (?i + length xs) (mConnectionBuffer ws)"
    let ?ws = "ws\<lparr>mSocket := Some s', mConnectionBuffer := buf\<rparr>"
    have st: "store_bytes (mConnectionBuffer ws) ?i xs = Inr buf" using l s by (simp add: store_bytes_def buf_def)
    have "length buf = 256" using l s by (simp add: buf_def)
    then have wf: "connection_wf ?ws" using assms(1) s(3) by (auto simp: connection_wf_def)
    from connection_byte_wf [OF wf, of s' now] l(1) obtain w where
      "connection_byte ops now ?ws = Inr w" "connection_wf w" "socket_ok sinv w" by auto
    then show ?thesis using Some False r st wf l(1)
      by (cases "v > 0") (auto simp: processConnection_def socket_ok_def)
  qed
qed (use assms in \<open>simp add: processConnection_def\<close>)

end

context prompt_socket begin

text \<open>A byte that has arrived is taken by one \<open>receive\<close> of length 1.\<close>

lemma receive_one:
  assumes "sinv s" and "incoming s = c # cs"
  obtains s' where "sock_receive ops s 1 = Inr (1, [c], s')" "sinv s'" "incoming s' = cs"
    "outgoing s' = outgoing s" "window s' = window s"
proof -
  obtain ret xs s' where r: "sock_receive ops s 1 = Inr (ret, xs, s')"
    using receive_total [OF assms(1)] by blast
  from receive_law [OF assms(1) _ r] have l: "sinv s'" "nat ret \<le> 1" "length xs = nat ret" by auto
  moreover have "0 < ret" using receive_ready [OF assms(1) _ _ r] assms(2) by simp
  ultimately have ret: "ret = 1" "length xs = 1" by linarith+
  then obtain x where "xs = [x]" by (auto simp: length_Suc_conv)
  with receive_stream [OF assms(1) r] receive_window [OF assms(1) r] assms(2) r l(1) ret(1)
  show ?thesis by (auto intro: that)
qed

lemma poll_byte:
  assumes "mSocket ws = Some s" and "sinv s" and "mReadyState ws = CONNECTING" and "in_time (mConnectionTimer ws) [now]"
    and "length (mConnectionBuffer ws) = 256" and "unat (mConnectionIndex ws) < 255" and "incoming s = c # cs"
  obtains s' where "sinv s'" "incoming s' = cs" "outgoing s' = outgoing s" "window s' = window s"
    "\<And>msgs. poll ops now True t (ws, msgs) =
       Some (ebind (connection_byte ops now (ws\<lparr>mSocket := Some s',
           mConnectionBuffer := (mConnectionBuffer ws)[unat (mConnectionIndex ws) := c]\<rparr>)) (\<lambda>ws. Inr (ws, msgs)))"
proof -
  from receive_one [OF assms(2,7)] obtain s' where s': "sock_receive ops s 1 = Inr (1, [c], s')"
    "sinv s'" "incoming s' = cs" "outgoing s' = outgoing s" "window s' = window s" by blast
  have "processConnection ops now ws = connection_byte ops now (ws\<lparr>mSocket := Some s',
      mConnectionBuffer := (mConnectionBuffer ws)[unat (mConnectionIndex ws) := c]\<rparr>)"
    using assms s'(1) by (simp add: processConnection_def in_time_def store_byte)
  then show ?thesis using s' assms(1,3) by (auto intro!: that simp: poll_connecting)
qed

text \<open>The bytes of a line before its end are stored one after the other.\<close>

lemma polls_line_bytes:
  assumes "mSocket ws = Some s" and "sinv s" and "mReadyState ws = CONNECTING" and "in_time (mConnectionTimer ws) nows"
    and "length (mConnectionBuffer ws) = 256" and "unat (mConnectionIndex ws) + length xs < 255"
    and "incoming s = xs @ cs" and "0x0A \<notin> set xs" and "length nows = length xs"
  obtains s' buf where "sinv s'" "incoming s' = cs" "outgoing s' = outgoing s" "window s' = window s"
    "length buf = 256" "take (unat (mConnectionIndex ws) + length xs) buf =
       take (unat (mConnectionIndex ws)) (mConnectionBuffer ws) @ xs"
    "\<And>msgs. polls ops t nows (ws, msgs) = Some (Inr (ws\<lparr>mSocket := Some s', mConnectionBuffer := buf,
       mConnectionIndex := mConnectionIndex ws + word_of_nat (length xs)\<rparr>, msgs))"
proof -
  have "\<exists>s' buf. sinv s' \<and> incoming s' = cs \<and> outgoing s' = outgoing s \<and> window s' = window s \<and>
    length buf = 256 \<and> take (unat (mConnectionIndex ws) + length xs) buf =
       take (unat (mConnectionIndex ws)) (mConnectionBuffer ws) @ xs \<and>
    (\<forall>msgs. polls ops t nows (ws, msgs) = Some (Inr (ws\<lparr>mSocket := Some s', mConnectionBuffer := buf,
       mConnectionIndex := mConnectionIndex ws + word_of_nat (length xs)\<rparr>, msgs)))"
    using assms
  proof (induction xs arbitrary: ws s nows)
    case Nil
    then show ?case by (intro exI [of _ s] exI [of _ "mConnectionBuffer ws"]) simp
  next
    case (Cons c xs)
    from Cons.prems(9) obtain now nows' where n: "nows = now # nows'" "length nows' = length xs"
      by (auto simp: length_Suc_conv)
    let ?i = "unat (mConnectionIndex ws)"
    have i: "?i < 255" "length ((mConnectionBuffer ws)[?i := c]) = 256" "?i < length (mConnectionBuffer ws)"
      using Cons.prems(5,6) by simp_all
    have "in_time (mConnectionTimer ws) [now]" "in_time (mConnectionTimer ws) nows'" using Cons.prems(4) in_time_Cons [of _ now nows'] n by simp_all
    from poll_byte [OF Cons.prems(1-3) this(1) Cons.prems(5) i(1), of c "xs @ cs" t] Cons.prems(7)
    obtain s1 where s1: "sinv s1" "incoming s1 = xs @ cs" "outgoing s1 = outgoing s" "window s1 = window s"
      "\<And>msgs. poll ops now True t (ws, msgs) =
       Some (ebind (connection_byte ops now (ws\<lparr>mSocket := Some s1,
           mConnectionBuffer := (mConnectionBuffer ws)[?i := c]\<rparr>)) (\<lambda>ws. Inr (ws, msgs)))" by auto
    let ?ws1 = "ws\<lparr>mSocket := Some s1, mConnectionBuffer := (mConnectionBuffer ws)[?i := c],
        mConnectionIndex := mConnectionIndex ws + 1\<rparr>"
    have i1: "unat (mConnectionIndex ws + 1) = ?i + 1" using i(1) by (simp add: unat_plus_if')
    have "unat (mConnectionIndex ws + 1) \<noteq> 255"
      using i1 Cons.prems(6) by simp
    then have "mConnectionIndex ws + 1 \<noteq> 255" by (rule not_255)
    then have p: "poll ops now True t (ws, msgs) = Some (Inr (?ws1, msgs))" for msgs
      using s1(5) Cons.prems(8) i by (simp add: connection_byte_def)
    have "in_time (mConnectionTimer ?ws1) nows'" using \<open>in_time (mConnectionTimer ws) nows'\<close> by simp
    with Cons.IH [of ?ws1 s1 nows'] s1 Cons.prems(3,6,8) i i1 n(2) obtain s' buf where
      "sinv s'" "incoming s' = cs" "outgoing s' = outgoing s" "window s' = window s" "length buf = 256"
      "take (?i + 1 + length xs) buf = take (?i + 1) ((mConnectionBuffer ws)[?i := c]) @ xs"
      "\<forall>msgs. polls ops t nows' (?ws1, msgs) = Some (Inr (?ws1\<lparr>mSocket := Some s', mConnectionBuffer := buf,
         mConnectionIndex := mConnectionIndex ws + 1 + word_of_nat (length xs)\<rparr>, msgs))"
      by (auto simp: add.assoc)
    then show ?case using i p n(1)
      by (intro exI [of _ s'] exI [of _ buf]) (simp add: take_Suc_conv_app_nth add.assoc)
  qed
  then show ?thesis using that by blast
qed

text \<open>The end of the line runs the step of the current phase.\<close>

lemma polls_line:
  assumes "mSocket ws = Some s" and "sinv s" and "mReadyState ws = CONNECTING" and "in_time (mConnectionTimer ws) nows"
    and "length (mConnectionBuffer ws) = 256" and "mConnectionIndex ws = 0" and "plain_line l"
    and "incoming s = l @ crlf_bytes @ cs" and "length nows = length l + 2"
  obtains s' buf where "sinv s'" "incoming s' = cs" "outgoing s' = outgoing s" "window s' = window s"
    "length buf = 256"
    "\<And>msgs. polls ops t nows (ws, msgs) =
       Some (ebind (connection_line ops (ws\<lparr>mSocket := Some s', mConnectionBuffer := buf\<rparr>) l) (\<lambda>(ok, ws).
         Inr ((if ok then ws else release_socket ws)\<lparr>mConnectionTimer := last nows\<rparr>, msgs)))"
proof -
  let ?n = "length l"
  define ns where "ns = butlast nows"
  have "nows \<noteq> []" using assms(9) by auto
  then have ns: "nows = ns @ [last nows]" unfolding ns_def by (rule append_butlast_last_id [symmetric])
  have len: "length ns = ?n + 1" using assms(9) by (simp add: ns_def)
  have l: "?n \<le> 253" "0x0A \<notin> set (l @ [0x0D])" "0 \<notin> set l" using assms(7) by (auto simp: plain_line_def)
  have t: "in_time (mConnectionTimer ws) ns" "in_time (mConnectionTimer ws) [last nows]" using in_time_append(1,4) [of _ ns "[last nows]"] assms(4) ns by simp_all
  have "incoming s = (l @ [0x0D]) @ 0x0A # cs" using assms(8) by (simp add: crlf_bytes_def)
  from polls_line_bytes [OF assms(1-3) t(1) assms(5) _ this l(2), of t] l(1) assms(6) len
  obtain s1 buf where s1: "sinv s1" "incoming s1 = 0x0A # cs" "outgoing s1 = outgoing s" "window s1 = window s"
    "length buf = 256" "take (?n + 1) buf = l @ [0x0D]"
    "\<And>msgs. polls ops t ns (ws, msgs) = Some (Inr (ws\<lparr>mSocket := Some s1, mConnectionBuffer := buf,
       mConnectionIndex := word_of_nat (?n + 1)\<rparr>, msgs))" by auto
  let ?i = "word_of_nat (?n + 1) :: u32"
  let ?ws1 = "ws\<lparr>mSocket := Some s1, mConnectionBuffer := buf, mConnectionIndex := ?i\<rparr>"
  have i: "unat ?i = ?n + 1" using l(1) by (intro unat_of_nat_u32) simp
  have "in_time (mConnectionTimer ?ws1) [last nows]" using t(2) by simp
  from poll_byte [of ?ws1 s1, OF _ s1(1) _ this, of "0x0A" cs t] s1(2,5) assms(3) i l(1)
  obtain s2 where s2: "sinv s2" "incoming s2 = cs" "outgoing s2 = outgoing s" "window s2 = window s"
    "\<And>msgs. poll ops (last nows) True t (?ws1, msgs) =
       Some (ebind (connection_byte ops (last nows) (?ws1\<lparr>mSocket := Some s2,
           mConnectionBuffer := buf[?n + 1 := 0x0A]\<rparr>)) (\<lambda>ws. Inr (ws, msgs)))"
    using s1(3,4) by auto
  let ?buf = "buf[?n + 1 := 0, ?n := 0]"
  have at: "buf ! ?n = 0x0D" using s1(6) by (metis nth_append_length nth_take less_add_one)
  have pre: "take ?n buf = l" using s1(6) by (metis append_eq_conv_conj butlast_conv_take butlast_snoc diff_add_inverse2 length_append_singleton take_take min.absorb1 le_add1)
  have line: "takeWhile (\<lambda>c. c \<noteq> 0) ?buf = l"
  proof -
    have "?buf = l @ 0 # 0 # drop (?n + 2) buf"
      using pre s1(5) l(1) by (simp add: upd_conv_take_nth_drop take_update_swap list_update_append)
    moreover have "\<forall>c \<in> set l. c \<noteq> 0" using l(3) by metis
    ultimately show ?thesis
      using takeWhile_dropWhile_stop(1) [of l "\<lambda>c. c \<noteq> 0" "0 # 0 # drop (?n + 2) buf"] by simp
  qed
  have "connection_byte ops (last nows) (?ws1\<lparr>mSocket := Some s2, mConnectionBuffer := buf[?n + 1 := 0x0A]\<rparr>) =
      ebind (connection_line ops (ws\<lparr>mSocket := Some s2, mConnectionBuffer := ?buf, mConnectionIndex := 0\<rparr>) l)
        (\<lambda>(ok, ws). Inr ((if ok then ws else release_socket ws)\<lparr>mConnectionTimer := last nows\<rparr>))"
    using i at s1(5) l(1) line by (simp add: connection_byte_def Let_def)
  moreover have "ws\<lparr>mSocket := Some s2, mConnectionBuffer := ?buf, mConnectionIndex := 0\<rparr> =
      ws\<lparr>mSocket := Some s2, mConnectionBuffer := ?buf\<rparr>" using assms(6) by (cases ws) simp
  ultimately have "polls ops t nows (ws, msgs) =
       Some (ebind (connection_line ops (ws\<lparr>mSocket := Some s2, mConnectionBuffer := ?buf\<rparr>) l) (\<lambda>(ok, ws).
         Inr ((if ok then ws else release_socket ws)\<lparr>mConnectionTimer := last nows\<rparr>, msgs)))" for msgs
    using s1(7) s2(5) by (subst ns) (simp add: polls_append polls_Nil lbind_connection)
  then show ?thesis using s2 s1(5) by (intro that [of s2 ?buf]) simp_all
qed

section \<open>The lines of the two sides\<close>

lemma send_strings_all:
  assumes "sinv s" and "\<forall>l \<in> set ls. l \<noteq> []" and "length (concat ls) \<le> window s" and "length (concat ls) < 2 ^ 31"
  shows "\<exists>s'. send_strings ops s ls = Inr s' \<and> sinv s' \<and> incoming s' = incoming s
    \<and> outgoing s' = outgoing s @ concat ls \<and> window s' = window s - length (concat ls)"
  using assms
proof (induction ls arbitrary: s)
  case (Cons l ls)
  then have l: "length l < 2 ^ 31" "l \<noteq> []" "length l \<le> window s" by auto
  obtain ret s1 where r: "sock_send ops s l = Inr (ret, s1)"
    using send_total [OF Cons.prems(1) l(1)] by blast
  from send_law [OF Cons.prems(1) l(1) r] send_stream [OF Cons.prems(1) l(1) r]
    send_ready [OF Cons.prems(1) l(2,1,3) r]
  have s1: "sinv s1" "outgoing s1 = outgoing s @ l" "incoming s1 = incoming s" "window s1 = window s - length l"
    by auto
  with Cons.IH [of s1] Cons.prems r show ?case by (auto simp: algebra_simps)
qed simp

text \<open>The header lines of the client: the server ignores them up to the first empty one.\<close>

lemma polls_header_lines:
  assumes "mSocket ws = Some s" and "sinv s" and "mReadyState ws = CONNECTING"
    and "in_time (mConnectionTimer ws) nows" and "length (mConnectionBuffer ws) = 256"
    and "mConnectionIndex ws = 0" and "mConnectionPhase ws = SERVER_CLIENT_STRINGS"
    and "\<forall>l \<in> set ls. plain_line l \<and> l \<noteq> []" and "incoming s = wire_lines (ls @ [[]]) @ cs"
    and "length nows = length (wire_lines (ls @ [[]]))"
  shows "\<exists>ws' s'. (\<forall>msgs. polls ops t nows (ws, msgs) = Some (Inr (ws', msgs))) \<and> mReadyState ws' = OPEN
    \<and> mSocket ws' = Some s' \<and> sinv s' \<and> incoming s' = cs \<and> outgoing s' = outgoing s
    \<and> same_buffers ws ws'"
  using assms
proof (induction ls arbitrary: ws s nows)
  case Nil
  have "plain_line []" "incoming s = [] @ crlf_bytes @ cs" "length nows = length ([] :: u8 list) + 2"
    using Nil.prems(9,10) by (simp_all add: plain_line_def)
  from polls_line [OF Nil.prems(1-6) this, of t] obtain s' buf where
    s': "sinv s'" "incoming s' = cs" "outgoing s' = outgoing s"
    "\<And>msgs. polls ops t nows (ws, msgs) =
       Some (ebind (connection_line ops (ws\<lparr>mSocket := Some s', mConnectionBuffer := buf\<rparr>) []) (\<lambda>(ok, ws).
         Inr ((if ok then ws else release_socket ws)\<lparr>mConnectionTimer := last nows\<rparr>, msgs)))"
    by blast
  let ?ws = "(opened ops (ws\<lparr>mSocket := Some s', mConnectionBuffer := buf\<rparr>))\<lparr>mConnectionTimer := last nows\<rparr>"
  have "polls ops t nows (ws, msgs) = Some (Inr (?ws, msgs))" for msgs
    using s'(4) Nil.prems(7) by (simp add: connection_line_def)
  then show ?case using s' nagle_law nagle_stream
    by (intro exI [of _ ?ws] exI [of _ "sock_disableNaglesAlgorithm ops s'"]) (simp add: opened_def same_buffers_def)
next
  case (Cons l ls)
  let ?k = "length l + 2"
  define n1 n2 where n: "n1 = take ?k nows" "n2 = drop ?k nows"
  have nows: "nows = n1 @ n2" "length n1 = ?k" "length n2 = length (wire_lines (ls @ [[]]))" "n1 \<noteq> []"
    using Cons.prems(10) by (auto simp: n)
  note time = in_time_append [OF Cons.prems(4) [unfolded nows(1)]]
  have "plain_line l" "incoming s = l @ crlf_bytes @ wire_lines (ls @ [[]]) @ cs"
    using Cons.prems(8,9) by simp_all
  from polls_line [OF Cons.prems(1-3) time(1) Cons.prems(5,6) this nows(2), of t] obtain s' buf where
    s': "sinv s'" "incoming s' = wire_lines (ls @ [[]]) @ cs" "outgoing s' = outgoing s" "length buf = 256"
    "\<And>msgs. polls ops t n1 (ws, msgs) =
       Some (ebind (connection_line ops (ws\<lparr>mSocket := Some s', mConnectionBuffer := buf\<rparr>) l) (\<lambda>(ok, ws).
         Inr ((if ok then ws else release_socket ws)\<lparr>mConnectionTimer := last n1\<rparr>, msgs)))"
    by blast
  let ?ws = "ws\<lparr>mSocket := Some s', mConnectionBuffer := buf, mConnectionTimer := last n1\<rparr>"
  have "polls ops t n1 (ws, msgs) = Some (Inr (?ws, msgs))" for msgs
    using s'(5) Cons.prems(7,8) by (simp add: connection_line_def)
  moreover from Cons.IH [of ?ws s' n2] s' Cons.prems nows(3) time(2) [OF nows(4)] obtain ws' s2 where
    "\<forall>msgs. polls ops t n2 (?ws, msgs) = Some (Inr (ws', msgs))" "mReadyState ws' = OPEN"
    "mSocket ws' = Some s2" "sinv s2" "incoming s2 = cs" "outgoing s2 = outgoing s'" "same_buffers ?ws ws'"
    by auto
  ultimately show ?case using s'(3) nows(1)
    by (intro exI [of _ ws'] exI [of _ s2]) (simp add: polls_append same_buffers_def)
qed

text \<open>The server: the request line, the reply, the header lines, the empty line.\<close>

lemma polls_server:
  assumes "mSocket ws = Some s" and "sinv s" and "mReadyState ws = CONNECTING"
    and "in_time (mConnectionTimer ws) nows" and "length (mConnectionBuffer ws) = 256"
    and "mConnectionIndex ws = 0" and "mConnectionPhase ws = HTTP_STATUS" and "mIsServerClient ws"
    and "\<forall>l \<in> set ls. plain_line l \<and> l \<noteq> []"
    and "incoming s = wire_lines (ascii ''GET / HTTP/1.1'' # ls @ [[]]) @ cs"
    and "length nows = length (wire_lines (ascii ''GET / HTTP/1.1'' # ls @ [[]]))"
    and "length (concat handshake_reply) \<le> window s"
  shows "\<exists>ws' s'. (\<forall>msgs. polls ops t nows (ws, msgs) = Some (Inr (ws', msgs))) \<and> mReadyState ws' = OPEN
    \<and> mSocket ws' = Some s' \<and> sinv s' \<and> incoming s' = cs \<and> outgoing s' = outgoing s @ concat handshake_reply
    \<and> same_buffers ws ws'"
proof -
  let ?l = "ascii ''GET / HTTP/1.1''"
  let ?k = "length ?l + 2"
  define n1 n2 where n: "n1 = take ?k nows" "n2 = drop ?k nows"
  have nows: "nows = n1 @ n2" "length n1 = ?k" "length n2 = length (wire_lines (ls @ [[]]))" "n1 \<noteq> []"
    using assms(11) by (auto simp: n)
  note time = in_time_append [OF assms(4) [unfolded nows(1)]]
  have "plain_line ?l" by (simp add: plain_line_def)
  moreover have "incoming s = ?l @ crlf_bytes @ wire_lines (ls @ [[]]) @ cs" using assms(10) by simp
  ultimately obtain s1 buf where
    s1: "sinv s1" "incoming s1 = wire_lines (ls @ [[]]) @ cs" "outgoing s1 = outgoing s" "window s1 = window s"
    "length buf = 256"
    "\<And>msgs. polls ops t n1 (ws, msgs) =
       Some (ebind (connection_line ops (ws\<lparr>mSocket := Some s1, mConnectionBuffer := buf\<rparr>) ?l) (\<lambda>(ok, ws).
         Inr ((if ok then ws else release_socket ws)\<lparr>mConnectionTimer := last n1\<rparr>, msgs)))"
    by (rule polls_line [OF assms(1-3) time(1) assms(5,6) _ _ nows(2)]) blast
  have "\<forall>l \<in> set handshake_reply. l \<noteq> []" "length (concat handshake_reply) < 2 ^ 31"
    by (simp_all add: handshake_reply_def crlf_bytes_def)
  with send_strings_all [OF s1(1), of handshake_reply] assms(12) s1(4) obtain s2 where
    s2: "send_strings ops s1 handshake_reply = Inr s2" "sinv s2" "incoming s2 = wire_lines (ls @ [[]]) @ cs"
    "outgoing s2 = outgoing s @ concat handshake_reply" using s1(2,3) by auto
  let ?ws = "ws\<lparr>mSocket := Some s2, mConnectionBuffer := buf, mConnectionPhase := SERVER_CLIENT_STRINGS,
      mConnectionTimer := last n1\<rparr>"
  have "polls ops t n1 (ws, msgs) = Some (Inr (?ws, msgs))" for msgs
    using s1(6) assms(7,8) s2(1) by (simp add: connection_line_def)
  moreover from polls_header_lines [of ?ws s2 n2 ls cs t] s2 s1(5) assms(3,6,9) time(2) [OF nows(4)] nows(3)
  obtain ws' s' where "\<forall>msgs. polls ops t n2 (?ws, msgs) = Some (Inr (ws', msgs))" "mReadyState ws' = OPEN"
    "mSocket ws' = Some s'" "sinv s'" "incoming s' = cs" "outgoing s' = outgoing s2" "same_buffers ?ws ws'" by auto
  ultimately show ?thesis using s2(4) nows(1)
    by (intro exI [of _ ws'] exI [of _ s']) (simp add: polls_append same_buffers_def)
qed

text \<open>Any other request line ends the connection without an answer.\<close>

lemma polls_server_refuses:
  assumes "mSocket ws = Some s" and "sinv s" and "mReadyState ws = CONNECTING"
    and "in_time (mConnectionTimer ws) nows" and "length (mConnectionBuffer ws) = 256"
    and "mConnectionIndex ws = 0" and "mConnectionPhase ws = HTTP_STATUS" and "mIsServerClient ws"
    and "plain_line l" and "l \<noteq> ascii ''GET / HTTP/1.1''"
    and "incoming s = l @ crlf_bytes @ cs" and "length nows = length l + 2"
  shows "\<exists>ws'. (\<forall>msgs. polls ops t nows (ws, msgs) = Some (Inr (ws', msgs)))
    \<and> mReadyState ws' = CLOSED \<and> mSocket ws' = None"
proof -
  obtain s1 buf where
    "\<And>msgs. polls ops t nows (ws, msgs) =
       Some (ebind (connection_line ops (ws\<lparr>mSocket := Some s1, mConnectionBuffer := buf\<rparr>) l) (\<lambda>(ok, ws).
         Inr ((if ok then ws else release_socket ws)\<lparr>mConnectionTimer := last nows\<rparr>, msgs)))"
    by (rule polls_line [OF assms(1-6,9,11,12)]) blast
  then show ?thesis using assms(7,8,10) by (auto simp: connection_line_def release_socket_def)
qed

lemma polls_client:
  assumes "mSocket ws = Some s" and "sinv s" and "mReadyState ws = CONNECTING"
    and "in_time (mConnectionTimer ws) nows" and "length (mConnectionBuffer ws) = 256"
    and "mConnectionIndex ws = 0" and "\<not> mIsServerClient ws"
    and "ls \<noteq> []" and "length ls = lines_left (mConnectionPhase ws)"
    and "mConnectionPhase ws = HTTP_STATUS \<longrightarrow> status_101 (hd ls)" and "\<forall>l \<in> set ls. plain_line l"
    and "incoming s = wire_lines ls @ cs" and "length nows = length (wire_lines ls)"
  shows "\<exists>ws' s'. (\<forall>msgs. polls ops t nows (ws, msgs) = Some (Inr (ws', msgs))) \<and> mReadyState ws' = OPEN
    \<and> mSocket ws' = Some s' \<and> sinv s' \<and> incoming s' = cs \<and> outgoing s' = outgoing s \<and> same_buffers ws ws'"
  using assms
proof (induction ls arbitrary: ws s nows)
  case (Cons l ls)
  let ?k = "length l + 2"
  define n1 n2 where n: "n1 = take ?k nows" "n2 = drop ?k nows"
  have nows: "nows = n1 @ n2" "length n1 = ?k" "length n2 = length (wire_lines ls)" "n1 \<noteq> []"
    using Cons.prems(13) by (auto simp: n)
  note time = in_time_append [OF Cons.prems(4) [unfolded nows(1)]]
  have "plain_line l" "incoming s = l @ crlf_bytes @ wire_lines ls @ cs"
    using Cons.prems(11,12) by simp_all
  from polls_line [OF Cons.prems(1-3) time(1) Cons.prems(5,6) this nows(2), of t] obtain s' buf where
    s': "sinv s'" "incoming s' = wire_lines ls @ cs" "outgoing s' = outgoing s" "length buf = 256"
    "\<And>msgs. polls ops t n1 (ws, msgs) =
       Some (ebind (connection_line ops (ws\<lparr>mSocket := Some s', mConnectionBuffer := buf\<rparr>) l) (\<lambda>(ok, ws).
         Inr ((if ok then ws else release_socket ws)\<lparr>mConnectionTimer := last n1\<rparr>, msgs)))"
    by blast
  show ?case
  proof (cases "mConnectionPhase ws = H")
    case True
    let ?ws = "(opened ops (ws\<lparr>mSocket := Some s', mConnectionBuffer := buf\<rparr>))\<lparr>mConnectionTimer := last n1\<rparr>"
    have "ls = []" using Cons.prems(9) True by simp
    moreover have "polls ops t n1 (ws, msgs) = Some (Inr (?ws, msgs))" for msgs
      using s'(5) True by (simp add: connection_line_def)
    ultimately show ?thesis using s' nagle_law nagle_stream nows(1,3)
      by (intro exI [of _ ?ws] exI [of _ "sock_disableNaglesAlgorithm ops s'"])
        (simp add: opened_def same_buffers_def)
  next
    case False
    let ?ws = "ws\<lparr>mSocket := Some s', mConnectionBuffer := buf, mConnectionPhase := next_phase (mConnectionPhase ws),
        mConnectionTimer := last n1\<rparr>"
    have p: "polls ops t n1 (ws, msgs) = Some (Inr (?ws, msgs))" for msgs
      using s'(5) False Cons.prems(7,9,10) by (cases "mConnectionPhase ws") (simp_all add: connection_line_def)
    have "length ls = lines_left (next_phase (mConnectionPhase ws))" "ls \<noteq> []"
      "next_phase (mConnectionPhase ws) \<noteq> HTTP_STATUS"
      using False Cons.prems(9) by (cases "mConnectionPhase ws"; auto)+
    with Cons.IH [of ?ws s' n2] s' Cons.prems(3,6,7,11) nows(3) time(2) [OF nows(4)] obtain ws' s2 where
      "\<forall>msgs. polls ops t n2 (?ws, msgs) = Some (Inr (ws', msgs))" "mReadyState ws' = OPEN"
      "mSocket ws' = Some s2" "sinv s2" "incoming s2 = cs" "outgoing s2 = outgoing s'" "same_buffers ?ws ws'"
      by auto
    then show ?thesis using s'(3) nows(1) p
      by (intro exI [of _ ws'] exI [of _ s2]) (simp add: polls_append same_buffers_def)
  qed
qed simp

end

end
