(* ===== verification/WsOpening.thy ===== *)
theory WsOpening
  imports WsHandshake
begin

text \<open>
  The opening handshake from the URL to the open connection: what the URL parser accepts, that the
  request fits the 256-byte lines it is formatted into, and that a client and a server over shared
  memory open each other.
\<close>

section \<open>What \<open>sscanf\<close> assigns\<close>

fun scanned_length :: "scanned \<Rightarrow> nat" where
  "scanned_length (VStr t) = length t"
| "scanned_length (VInt n) = length (format_int n)"

lemma decimal_length: "0 < k \<Longrightarrow> n < 10 ^ k \<Longrightarrow> length (decimal n) \<le> k"
proof (induction n arbitrary: k rule: decimal.induct)
  case (1 n)
  show ?case
  proof (cases "n < 10")
    case True
    with 1(2) show ?thesis by (simp add: decimal.simps [of n])
  next
    case False
    with 1(2,3) have "k \<noteq> 0" "k \<noteq> 1" by auto
    then obtain j where j: "k = Suc j" "0 < j" by (cases k) auto
    with 1(3) have "n div 10 < 10 ^ j" by (simp add: less_mult_imp_div_less)
    with 1(1) [OF False j(2)] j show ?thesis by (simp add: decimal.simps [of n] False)
  qed
qed

lemma digits_value_less:
  assumes "\<forall>c \<in> set ds. is_digit c"
  shows "digits_value ds < 10 ^ length ds"
  using assms
proof (induction ds rule: rev_induct)
  case (snoc c ds)
  then have "unat c - 48 \<le> 9" by (auto simp: is_digit_def word_le_nat_alt)
  with snoc show ?case by (simp add: digits_value_def)
qed (simp add: digits_value_def)

lemma scan_unsigned_length:
  assumes "scan_unsigned s = Some (n, r)"
  shows "length (decimal n) + length r \<le> length s"
proof -
  let ?ds = "takeWhile is_digit s"
  have n: "?ds \<noteq> []" "n = digits_value ?ds" "r = dropWhile is_digit s"
    using assms by (auto simp: scan_unsigned_def split: if_splits)
  have "n < 10 ^ length ?ds" unfolding n(2) by (rule digits_value_less) (auto dest: set_takeWhileD)
  with n(1) have "length (decimal n) \<le> length ?ds" by (intro decimal_length) simp_all
  moreover have "length ?ds + length r = length s"
    unfolding n(3) by (metis length_append takeWhile_dropWhile_id)
  ultimately show ?thesis by linarith
qed

lemma scan_int_length:
  assumes "scan_int s = Some (n, r)"
  shows "length (format_int n) + length r \<le> length s"
  using assms
  by (cases s) (auto simp: scan_int_def format_int_def dest!: scan_unsigned_length split: if_splits)

lemma sscanf_length: "sum_list (map scanned_length (sscanf fmt s)) \<le> length s"
proof (induction fmt s rule: sscanf.induct)
  case (2 c fmt s)
  then show ?case by (cases s) (auto intro: le_SucI)
next
  case (3 fmt s)
  then show ?case using length_dropWhile_le [of is_space s] by simp
next
  case (4 stop fmt s)
  have "length (takeWhile (\<lambda>c. c \<notin> set stop) s) + length (dropWhile (\<lambda>c. c \<notin> set stop) s) = length s"
    by (metis length_append takeWhile_dropWhile_id)
  with 4 show ?case by (auto simp: Let_def)
next
  case (5 fmt s)
  let ?s = "dropWhile is_space s"
  have "length (takeWhile (\<lambda>c. \<not> is_space c) ?s) + length (dropWhile (\<lambda>c. \<not> is_space c) ?s) = length ?s"
    by (metis length_append takeWhile_dropWhile_id)
  with 5 [OF refl refl] length_dropWhile_le [of is_space s] show ?case by (auto simp: Let_def)
next
  case (6 fmt s)
  show ?case
  proof (cases "scan_int (dropWhile is_space s)")
    case (Some p)
    obtain n r where p: "p = (n, r)" by (cases p)
    with 6 [OF Some p [symmetric]] scan_int_length [of "dropWhile is_space s" n r] Some
      length_dropWhile_le [of is_space s] show ?thesis by simp
  qed simp
qed simp

lemma set_dropWhile: "c \<in> set (dropWhile P s) \<Longrightarrow> c \<in> set s"
  by (metis UnCI set_append takeWhile_dropWhile_id)

lemma scan_int_set: "scan_int s = Some (n, r) \<Longrightarrow> set r \<subseteq> set s"
  by (cases s) (auto simp: scan_int_def scan_unsigned_def dest: set_dropWhile split: if_splits)

lemma sscanf_set: "VStr t \<in> set (sscanf fmt s) \<Longrightarrow> set t \<subseteq> set s"
proof (induction fmt s rule: sscanf.induct)
  case (2 c fmt s)
  then show ?case by (cases s) (auto split: if_splits)
next
  case (3 fmt s)
  then show ?case by (auto dest: set_dropWhile)
next
  case (4 stop fmt s)
  then show ?case by (auto simp: Let_def dest: set_dropWhile set_takeWhileD split: if_splits)
next
  case (5 fmt s)
  then show ?case by (fastforce simp: Let_def dest: set_dropWhile set_takeWhileD split: if_splits)
next
  case (6 fmt s)
  show ?case
  proof (cases "scan_int (dropWhile is_space s)")
    case (Some p)
    obtain n r where p: "p = (n, r)" by (cases p)
    with 6(1) [OF Some p [symmetric]] 6(2) Some scan_int_set [of "dropWhile is_space s" n r]
    show ?thesis by (auto dest: set_dropWhile)
  qed (use 6 in simp)
qed simp

section \<open>The URL\<close>

lemma fmt_simps:
  "sscanf fmt_host_port_path (ascii ''ws://'' @ s) =
     sscanf ([Until [58, 47], Lit 58, IntConv, Lit 47, StrConv]) s"
  "sscanf fmt_host_path (ascii ''ws://'' @ s) = sscanf ([Until [58, 47], Lit 47, StrConv]) s"
  "sscanf fmt_host_port (ascii ''ws://'' @ s) = sscanf ([Until [58, 47], Lit 58, IntConv]) s"
  "sscanf fmt_host (ascii ''ws://'' @ s) = sscanf [Until [58, 47]] s"
  by (simp_all add: fmt_host_port_path_def fmt_host_path_def fmt_host_port_def fmt_host_def lit_def is_space_def)

lemma scan_until:
  assumes "host \<noteq> []" and "58 \<notin> set host" "47 \<notin> set host" and "s = [] \<or> hd s \<in> {58, 47}"
  shows "sscanf (Until [58, 47] # fmt) (host @ s) = VStr host # sscanf fmt s"
proof -
  have "\<forall>c \<in> set host. c \<notin> set [58, 47]" using assms(2,3) by auto
  then show ?thesis using takeWhile_dropWhile_stop [of host "\<lambda>c. c \<notin> set [58, 47]" s] assms(1,4)
    by (auto simp: Let_def)
qed

lemma scan_port:
  assumes "s = [] \<or> \<not> is_digit (hd s)"
  shows "sscanf (IntConv # fmt) (ascii (decimal n) @ s) = VInt (int n) # sscanf fmt s"
proof -
  have "decimal n \<noteq> []" "is_digit (hd (ascii (decimal n)))"
    using decimal_digits [of n] by (auto simp: ascii_def hd_map intro!: bspec [OF _ hd_in_set])
  then have "dropWhile is_space (ascii (decimal n) @ s) = ascii (decimal n) @ s"
    by (cases "decimal n") (auto simp: is_digit_def is_space_def word_le_nat_alt)
  then show ?thesis using scan_decimal [OF assms] by simp
qed

lemma scan_path:
  assumes "path \<noteq> []" and "\<forall>c \<in> set path. \<not> is_space c"
  shows "sscanf [StrConv] path = [VStr path]"
proof -
  have d: "dropWhile is_space path = path" using assms by (cases path) auto
  have t: "takeWhile (\<lambda>c. \<not> is_space c) path = path" using assms(2) by simp
  show ?thesis using assms(1) by (simp add: Let_def d t)
qed



section \<open>The request\<close>

lemma parse_url_cases:
  assumes "parse_url url = Some (host, port, path)"
  shows "\<exists>fmt. sscanf fmt url = [VStr host, VInt port, VStr path]
    \<or> sscanf fmt url = [VStr host, VStr path] \<and> port = 80
    \<or> sscanf fmt url = [VStr host, VInt port] \<and> path = []
    \<or> sscanf fmt url = [VStr host] \<and> port = 80 \<and> path = []"
proof -
  have c3: "(vs = [VStr host, VInt port, VStr path]) \<or> k = Some (host, port, path)"
    if "(case vs of [VStr host, VInt port, VStr path] \<Rightarrow> Some (host, port, path) | _ \<Rightarrow> k) = Some (host, port, path)"
    for vs k using that by (auto split: list.splits scanned.splits)
  have c2: "(vs = [VStr host, VStr path] \<and> port = 80) \<or> k = Some (host, port, path)"
    if "(case vs of [VStr host, VStr path] \<Rightarrow> Some (host, 80, path) | _ \<Rightarrow> k) = Some (host, port, path)"
    for vs k using that by (auto split: list.splits scanned.splits)
  have c1: "(vs = [VStr host, VInt port] \<and> path = []) \<or> k = Some (host, port, path)"
    if "(case vs of [VStr host, VInt port] \<Rightarrow> Some (host, port, []) | _ \<Rightarrow> k) = Some (host, port, path)"
    for vs k using that by (auto split: list.splits scanned.splits)
  have c0: "vs = [VStr host] \<and> port = 80 \<and> path = []"
    if "(case vs of [VStr host] \<Rightarrow> Some (host, 80, []) | _ \<Rightarrow> None) = Some (host, port, path)"
    for vs using that by (auto split: list.splits scanned.splits)
  from assms [unfolded parse_url_def, THEN c3] show ?thesis
    by (auto dest!: c2 c1 c0 intro: exI [of _ fmt_host_port_path] exI [of _ fmt_host_path]
        exI [of _ fmt_host_port] exI [of _ fmt_host])
qed

lemma parse_url_bounds:
  assumes "parse_url url = Some (host, port, path)"
  shows "length host + length path \<le> length url"
    "length host + (if port = 80 then 0 else length (format_int port)) \<le> length url"
    "set host \<subseteq> set url" "set path \<subseteq> set url"
proof -
  from parse_url_cases [OF assms] obtain fmt where
    f: "sscanf fmt url = [VStr host, VInt port, VStr path] \<or> sscanf fmt url = [VStr host, VStr path] \<and> port = 80
      \<or> sscanf fmt url = [VStr host, VInt port] \<and> path = [] \<or> sscanf fmt url = [VStr host] \<and> port = 80 \<and> path = []"
    by blast
  show "length host + length path \<le> length url"
    "length host + (if port = 80 then 0 else length (format_int port)) \<le> length url"
    using f sscanf_length [of fmt url] by auto
  show "set host \<subseteq> set url" using f sscanf_set [of host fmt url] by auto
  show "set path \<subseteq> set url" using f sscanf_set [of path fmt url] by auto
qed

text \<open>The lines of the request without their ends.\<close>

definition request_head :: "u8 list \<Rightarrow> u8 list" where
  "request_head path = ascii ''GET /'' @ path @ ascii '' HTTP/1.1''"

definition request_text :: "u8 list \<Rightarrow> int \<Rightarrow> u8 list \<Rightarrow> u8 list list" where
  "request_text host port origin =
     [if port = 80 then ascii ''Host: '' @ host
      else ascii ''Host: '' @ host @ ascii '':'' @ ascii (format_int port),
      ascii ''Upgrade: websocket'', ascii ''Connection: Upgrade'']
     @ (if origin \<noteq> [] then [ascii ''Origin: '' @ origin] else [])
     @ [ascii ''Sec-WebSocket-Key: x3JJHMbDL1EzLkh9GBhXDw=='', ascii ''Sec-WebSocket-Version: 13'']"

lemma request_lines_text:
  assumes "length url < 128" and "length origin < 200" and "parse_url url = Some (host, port, path)"
  shows "request_lines host port path origin =
    map (\<lambda>l. l @ crlf_bytes) (request_head path # request_text host port origin @ [[]])"
proof -
  have fit: "stringFormat 256 l = l" if "length l \<le> 255" for l using that by (simp add: stringFormat_def)
  from parse_url_bounds(1,2) [OF assms(3)] assms(1,2) show ?thesis
    by (auto simp: request_lines_def request_head_def request_text_def fit)
qed

text \<open>C31. No buffer of the constructor overflows and no line of the request is cut off: for a URL and an origin
  within the checked sizes, host and path fit their 128 bytes, every formatted line fits its 256 bytes, and
  the request ends with the empty line.\<close>
theorem request_fits:
  assumes "length url < 128" and "length origin < 200" and "parse_url url = Some (host, port, path)"
  shows "length host < 128 \<and> length path < 128
    \<and> (\<forall>l \<in> set (request_lines host port path origin). length l < 256 \<and> l \<noteq> [])
    \<and> concat (request_lines host port path origin) =
        wire_lines (request_head path # request_text host port origin @ [[]])"
proof -
  note b = parse_url_bounds(1,2) [OF assms(3)]
  have "concat (map (\<lambda>l. l @ crlf_bytes) ls) = wire_lines ls" for ls by (simp add: wire_lines_def)
  with b assms(1,2) show ?thesis
    unfolding request_lines_text [OF assms]
    by (auto simp: request_head_def request_text_def crlf_bytes_def split: if_splits)
qed

lemma request_fits_witness:
  "\<exists>host path. parse_url (ascii ''ws://localhost:3009/chat'') = Some (host, 3009, path)
    \<and> (\<forall>l \<in> set (request_lines host 3009 path []). length l < 256)"
proof -
  have d: "decimal 3009 = ''3009''" by (simp add: decimal.simps digit_def)
  have "parse_url (ascii ''ws://localhost:3009/chat'') = Some (ascii ''localhost'', 3009, ascii ''chat'')"
    using scan_until [of "ascii ''localhost''"] scan_port [of "ascii ''/chat''" _ 3009] d
    by (simp add: parse_url_def fmt_host_port_path_def lit_def is_space_def scan_int_def scan_unsigned_def
        is_digit_def digits_value_def Let_def)
  from this request_fits [OF _ _ this, of "[]"] show ?thesis by auto
qed

section \<open>Client and server\<close>

lemma format_int_bytes: "c \<in> set (ascii (format_int i)) \<Longrightarrow> is_digit c \<or> c = 45"
  using decimal_digits [of "nat i"] decimal_digits [of "nat (- i)"] by (auto simp: format_int_def split: if_splits)

lemma request_text_plain:
  assumes "length url < 128" and "length origin < 200" and "parse_url url = Some (host, port, path)"
    and "0 \<notin> set url \<union> set origin" and "0x0A \<notin> set url \<union> set origin"
  shows "\<forall>l \<in> set (request_text host port origin). plain_line l \<and> l \<noteq> []"
    "length (wire_lines (request_head [] # request_text host port origin @ [[]])) \<le> 1000"
proof -
  note b = parse_url_bounds [OF assms(3)]
  have h: "0 \<notin> set host" "10 \<notin> set host" "length host < 128" using b assms(1,4,5) by auto
  have "0 \<notin> set (ascii (format_int port))" "10 \<notin> set (ascii (format_int port))"
    by (auto dest!: format_int_bytes simp: is_digit_def)
  with b(2) h assms(1,2,4,5) show "\<forall>l \<in> set (request_text host port origin). plain_line l \<and> l \<noteq> []"
    by (auto simp: request_text_def plain_line_def split: if_splits)
  show "length (wire_lines (request_head [] # request_text host port origin @ [[]])) \<le> 1000"
    using b(2) assms(1,2) by (auto simp: request_text_def request_head_def split: if_splits)
qed

lemma handshake_reply_lines:
  "concat handshake_reply = wire_lines [ascii ''HTTP/1.1 101 Switching Protocols'', ascii ''HConnection: upgrade'',
     ascii ''HSec-WebSocket-Accept: HSmrc0sMlYUkAGmm5OPpG2HaGWk='', ascii ''HServer: WebSocket++/0.7.0'',
     ascii ''HUpgrade: websocket'', []]"
  by (simp add: handshake_reply_def wire_lines_def)

lemma status_101_reply: "status_101 (ascii ''HTTP/1.1 101 Switching Protocols'')"
  by (simp add: status_101_def lit_def is_space_def scan_int_def scan_unsigned_def is_digit_def digits_value_def)

lemma new_client_connection_spec:
  assumes "length url < 128" and "length origin < 200" and "parse_url url = Some (host, port, [])" and "port \<noteq> 0"
    and "0 \<notin> set url \<union> set origin" and "0x0A \<notin> set url \<union> set origin"
    and "create host port = Some sc" and "shm_inv sc" and "1000 \<le> shm_window sc"
  shows "\<exists>c s. new_client_connection shm_ops create h e rnd stale now url origin m = Inr c
    \<and> mSocket c = Some s \<and> shm_inv s \<and> mReadyState c = CONNECTING \<and> \<not> mIsServerClient c
    \<and> mConnectionPhase c = HTTP_STATUS \<and> mConnectionIndex c = 0 \<and> mConnectionBuffer c = stale
    \<and> mConnectionTimer c = now
    \<and> shm_outgoing s = shm_outgoing sc @ wire_lines (request_head [] # request_text host port origin @ [[]])"
proof -
  note fits = request_fits [OF assms(1-3)] and plain = request_text_plain [OF assms(1-3,5,6)]
  from fits have "\<forall>l \<in> set (request_lines host port [] origin). l \<noteq> []"
    "concat (request_lines host port [] origin) = wire_lines (request_head [] # request_text host port origin @ [[]])"
    by auto
  with shm.send_strings_all [OF assms(8) this(1)] plain(2) assms(9) obtain s where
    "send_strings shm_ops sc (request_lines host port [] origin) = Inr s" "shm_inv s"
    "shm_outgoing s = shm_outgoing sc @ wire_lines (request_head [] # request_text host port origin @ [[]])"
    by auto
  then show ?thesis using assms(1-4,7) by (simp add: new_client_connection_def Let_def)
qed

text \<open>C7. The handshake completes over shared memory: the request a client writes for a URL without a path brings the
  server, polled once per byte within the time limit, to the open state with its reply in the ring; that reply
  brings the client to the open state. Neither side leaves a byte behind, so that the first frame is next.\<close>
theorem handshake_completes:
  assumes "length url < 128" and "length origin < 200" and "parse_url url = Some (host, port, [])" and "port \<noteq> 0"
    and "0 \<notin> set url \<union> set origin" and "0x0A \<notin> set url \<union> set origin"
    and "create host port = Some sc" and "shm_inv sc" and "1000 \<le> shm_window sc" and "shm_outgoing sc = []"
    and "length stale = 256" and "length stale' = 256"
    and "new_client_connection shm_ops create h e rnd stale t0 url origin m = Inr c" and "mSocket c = Some s"
    and "shm_inv ss" and "shm_incoming ss = shm_outgoing s" and "shm_outgoing ss = []" and "1000 \<le> shm_window ss"
    and "v = new_server_connection h' e' rnd' stale' t1 (Some ss) m'"
    and "in_time t1 nows" and "length nows = length (shm_incoming ss)"
  shows "\<exists>v' ss'. polls shm_ops t nows (v, []) = Some (Inr (v', [])) \<and> mReadyState v' = OPEN
    \<and> mSocket v' = Some ss' \<and> shm_inv ss' \<and> shm_incoming ss' = [] \<and> shm_outgoing ss' = concat handshake_reply
    \<and> (\<forall>sr nows'. shm_inv sr \<longrightarrow> shm_incoming sr = shm_outgoing ss' \<longrightarrow> in_time t0 nows' \<longrightarrow>
        length nows' = length (shm_incoming sr) \<longrightarrow>
        (\<exists>c' sr'. polls shm_ops t nows' (c\<lparr>mSocket := Some sr\<rparr>, []) = Some (Inr (c', [])) \<and> mReadyState c' = OPEN
          \<and> mSocket c' = Some sr' \<and> shm_inv sr' \<and> shm_incoming sr' = [] \<and> shm_outgoing sr' = shm_outgoing sr))"
proof -
  from new_client_connection_spec [where create = create and stale = stale and now = t0 and h = h and e = e
      and rnd = rnd and m = m, OF assms(1-9)] assms(10,13,14)
  have c: "mReadyState c = CONNECTING" "\<not> mIsServerClient c"
    "mConnectionPhase c = HTTP_STATUS" "mConnectionIndex c = 0" "mConnectionBuffer c = stale" "mConnectionTimer c = t0"
    "shm_outgoing s = wire_lines (request_head [] # request_text host port origin @ [[]])" by auto
  have head: "request_head [] = ascii ''GET / HTTP/1.1''" by (simp add: request_head_def)
  have v: "mSocket v = Some ss" "mReadyState v = CONNECTING" "in_time (mConnectionTimer v) nows"
    "length (mConnectionBuffer v) = 256" "mConnectionIndex v = 0" "mConnectionPhase v = HTTP_STATUS" "mIsServerClient v"
    using assms(12,20) by (simp_all add: assms(19) new_server_connection_def)
  have reply: "length (concat handshake_reply) \<le> shm_window ss"
    using assms(18) by (simp add: handshake_reply_def)
  from shm.polls_server [OF v(1) assms(15) v(2-7) request_text_plain(1) [OF assms(1-3,5,6)] _ _ reply, of "[]" t]
    assms(16,17,21) c(7) head obtain v' ss' where
    v': "polls shm_ops t nows (v, []) = Some (Inr (v', []))" "mReadyState v' = OPEN" "mSocket v' = Some ss'"
    "shm_inv ss'" "shm_incoming ss' = []" "shm_outgoing ss' = concat handshake_reply" by auto
  have "\<exists>c' sr'. polls shm_ops t nows' (c\<lparr>mSocket := Some sr\<rparr>, []) = Some (Inr (c', [])) \<and> mReadyState c' = OPEN
      \<and> mSocket c' = Some sr' \<and> shm_inv sr' \<and> shm_incoming sr' = [] \<and> shm_outgoing sr' = shm_outgoing sr"
    if sr: "shm_inv sr" "shm_incoming sr = concat handshake_reply" "in_time t0 nows'"
      "length nows' = length (shm_incoming sr)" for sr nows'
  proof -
    let ?c = "c\<lparr>mSocket := Some sr\<rparr>"
    let ?ls = "[ascii ''HTTP/1.1 101 Switching Protocols'', ascii ''HConnection: upgrade'',
       ascii ''HSec-WebSocket-Accept: HSmrc0sMlYUkAGmm5OPpG2HaGWk='', ascii ''HServer: WebSocket++/0.7.0'',
       ascii ''HUpgrade: websocket'', []]"
    have "\<forall>l \<in> set ?ls. plain_line l" by (simp add: plain_line_def)
    moreover have "shm_incoming sr = wire_lines ?ls @ []" using sr(2) handshake_reply_lines by simp
    moreover have "length nows' = length (wire_lines ?ls)" using sr(2,4) handshake_reply_lines by simp
    moreover have "mConnectionPhase ?c = HTTP_STATUS \<longrightarrow> status_101 (hd ?ls)" using status_101_reply by simp
    moreover have "length ?ls = lines_left (mConnectionPhase ?c)" using c(3) by simp
    ultimately show ?thesis
      using shm.polls_client [of ?c sr nows' ?ls "[]" t] c(1-6) sr(1,3) assms(11) by auto
  qed
  with v' show ?thesis by auto
qed

lemma in_time_replicate: "in_time a (replicate n a)"
  by (simp add: in_time_def CONNECTION_TIME_OUT_def sorted_replicate)

lemma parse_localhost: "parse_url (ascii ''ws://localhost'') = Some (ascii ''localhost'', 80, [])"
  using scan_until [of "ascii ''localhost''" "[]"]
  by (simp add: parse_url_def fmt_host_port_path_def fmt_host_path_def fmt_host_port_def fmt_host_def lit_def
      is_space_def Let_def)

lemma handshake_completes_witness:
  "\<exists>c s v'. new_client_connection shm_ops (\<lambda>_ _. Some (client_socket [])) zero_heap LittleEndian (\<lambda>k. word_of_nat k)
      (replicate 256 0) 0 (ascii ''ws://localhost'') [] True = Inr c \<and> mSocket c = Some s
    \<and> polls shm_ops 1 (replicate (length (shm_outgoing s)) 0)
        (new_server_connection zero_heap LittleEndian (\<lambda>k. word_of_nat k) (replicate 256 0) 0
          (Some (client_socket (shm_outgoing s))) False, []) = Some (Inr (v', []))
    \<and> mReadyState v' = OPEN"
proof -
  let ?url = "ascii ''ws://localhost''" and ?sc = "client_socket []"
  let ?create = "\<lambda>(_ :: u8 list) (_ :: int). Some ?sc"
  have url: "length ?url < 128" "length ([] :: u8 list) < 200" "(80 :: int) \<noteq> 0"
    "0 \<notin> set ?url \<union> set ([] :: u8 list)" "0x0A \<notin> set ?url \<union> set ([] :: u8 list)" by simp_all
  have sc: "shm_inv ?sc" "1000 \<le> shm_window ?sc" "shm_outgoing ?sc = []" using client_socket [of "[]"] by simp_all
  from new_client_connection_spec [where create = ?create and stale = "replicate 256 0" and now = 0
      and h = zero_heap and e = LittleEndian and rnd = "\<lambda>k. word_of_nat k" and m = True,
      OF url(1,2) parse_localhost url(3-5) refl sc(1,2)] sc(3) obtain c s where
    c: "new_client_connection shm_ops ?create zero_heap LittleEndian (\<lambda>k. word_of_nat k) (replicate 256 0) 0 ?url [] True = Inr c"
    "mSocket c = Some s" "shm_outgoing s = wire_lines (request_head [] # request_text (ascii ''localhost'') 80 [] @ [[]])"
    by auto
  have "length (shm_outgoing s) \<le> 1000"
    unfolding c(3) using request_text_plain(2) [OF url(1,2) parse_localhost url(4,5)] by simp
  then have "length (shm_outgoing s) \<le> 16350" by simp
  note ss = client_socket [OF this]
  have n: "length (replicate (length (shm_outgoing s)) (0 :: int)) = length (shm_incoming (client_socket (shm_outgoing s)))"
    using ss(2) by simp
  have w: "1000 \<le> shm_window (client_socket (shm_outgoing s))" "length (replicate 256 (0 :: u8)) = 256"
    using ss(4) by simp_all
  from handshake_completes [where t = 1, OF url(1,2) parse_localhost url(3-5) refl sc w(2) w(2) c(1,2) ss(1-3) w(1) refl
      in_time_replicate n]
  show ?thesis using c(1,2) by blast
qed





end
