(* ===== verification/Timer.thy ===== *)
theory Timer
  imports Prelude
begin

text \<open>
  \<open>ext/easywsclient/Timer.h\<close>. A reading of the clock is an integer of nanoseconds, and so is a duration;
  the timer itself is its \<open>mStartTime\<close>.
\<close>

definition seconds :: "int \<Rightarrow> int" where
  "seconds n = n * 1000000000"

definition peekElapsedSeconds :: "int \<Rightarrow> int \<Rightarrow> int" where
  "peekElapsedSeconds mStartTime now = now - mStartTime"

text \<open>The elapsed time and the new start time: the timer is reset by every reading.\<close>

definition getElapsedSeconds :: "int \<Rightarrow> int \<Rightarrow> int \<times> int" where
  "getElapsedSeconds mStartTime now = (peekElapsedSeconds mStartTime now, now)"

end
