(* ===== verification/WsLifetime.thy ===== *)
theory WsLifetime
  imports Timer WsOpening WsPollStream
begin

text \<open>
  \<open>ext/easywsclient/easywsclient.cpp\<close>: the two forms of \<open>WebSocket::create\<close> and the
  destructor of \<open>WebSocketImpl\<close>, which polls until the connection is closed. The readings of the
  clock, in nanoseconds, are a sequence \<open>clock\<close>; a destructor that never ends is \<open>None\<close>.
\<close>

section \<open>The code\<close>

definition CLOSE_TIMEOUT :: int where "CLOSE_TIMEOUT = 1"

text \<open>One pass through the loop; \<open>k\<close> counts the readings of the clock.\<close>

definition destroy_step ::
  "'s wsocket_ops \<Rightarrow> (nat \<Rightarrow> int) \<Rightarrow> 's web_socket \<times> int \<times> nat \<Rightarrow>
   ('s web_socket \<times> int \<times> nat, 's web_socket result option) control" where
  "destroy_step ops clock st =
     (let (ws, start, k) = st
      in if mReadyState ws = CLOSED then Break (Some (Inr ws))
         else
           case poll ops (clock k) False 1 (ws, []) of
             None \<Rightarrow> Break None
           | Some (Inl e) \<Rightarrow> Break (Some (Inl e))
           | Some (Inr (ws, _)) \<Rightarrow>
               let (elapsed, start) = getElapsedSeconds start (clock (k + 1))
               in if elapsed \<ge> CLOSE_TIMEOUT * 1000000000 then Break (Some (Inr ws))
                  else Continue (ws, start, k + 2))"

text \<open>The destructor up to the point where the members are released.\<close>

definition destroy :: "'s wsocket_ops \<Rightarrow> (nat \<Rightarrow> int) \<Rightarrow> 's web_socket \<Rightarrow> 's web_socket result option" where
  "destroy ops clock ws =
     lbind (Some (close_ws ws)) (\<lambda>ws.
       case run_loop (destroy_step ops clock) (ws, clock 0, 1) of None \<Rightarrow> None | Some r \<Rightarrow> r)"

definition create_client ::
  "'s wsocket_ops \<Rightarrow> (u8 list \<Rightarrow> int \<Rightarrow> 's option) \<Rightarrow> allocator \<Rightarrow> endian \<Rightarrow> (nat \<Rightarrow> u64) \<Rightarrow> u8 list \<Rightarrow>
   (nat \<Rightarrow> int) \<Rightarrow> int \<Rightarrow> u8 list \<Rightarrow> u8 list \<Rightarrow> bool \<Rightarrow> 's web_socket option result option" where
  "create_client ops create h e rnd stale clock now url origin useMask =
     lbind (Some (new_client_connection ops create h e rnd stale now url origin useMask)) (\<lambda>ret.
       if isValid ret then Some (Inr (Some ret))
       else lbind (destroy ops clock ret) (\<lambda>_. Some (Inr None)))"

definition create_server ::
  "'s wsocket_ops \<Rightarrow> allocator \<Rightarrow> endian \<Rightarrow> (nat \<Rightarrow> u64) \<Rightarrow> u8 list \<Rightarrow> (nat \<Rightarrow> int) \<Rightarrow> int \<Rightarrow> 's option \<Rightarrow> bool \<Rightarrow>
   's web_socket option result option" where
  "create_server ops h e rnd stale clock now clientSocket useMask =
     (let ret = new_server_connection h e rnd stale now clientSocket useMask
      in if isValid ret then Some (Inr (Some ret))
         else lbind (destroy ops clock ret) (\<lambda>_. Some (Inr None)))"

section \<open>A connection without a socket\<close>

lemma destroy_hangs:
  assumes "mSocket ws = None" and "mReadyState ws \<noteq> CLOSED"
    and "\<And>k. clock (k + 2) - clock k < 1000000000"
  shows "run_loop (destroy_step ops clock) (ws, clock j, j + 1) = None"
proof (rule run_loop_diverges [where I = "\<lambda>(w, start, k). w = ws \<and> (\<exists>j. start = clock j \<and> k = j + 1)"])
  fix st assume "case st of (w, start, k) \<Rightarrow> w = ws \<and> (\<exists>j. start = clock j \<and> k = j + 1)"
  then obtain j where st: "st = (ws, clock j, j + 1)" by auto
  have "destroy_step ops clock st = Continue (ws, clock (j + 2), (j + 2) + 1)"
    using assms(1,2) assms(3) [of j]
    by (simp add: st destroy_step_def poll_def getElapsedSeconds_def peekElapsedSeconds_def CLOSE_TIMEOUT_def)
  then show "\<exists>s'. destroy_step ops clock st = Continue s' \<and>
      (case s' of (w, start, k) \<Rightarrow> w = ws \<and> (\<exists>j. start = clock j \<and> k = j + 1))" by blast
qed simp

text \<open>The client constructor when there is nothing to connect to.\<close>

lemma new_client_unconnected:
  assumes "\<forall>host port path. parse_url url = Some (host, port, path) \<longrightarrow> create host port = None"
  shows "\<exists>ws. new_client_connection ops create h e rnd stale now url origin m = Inr ws \<and> mSocket ws = None
    \<and> mReadyState ws = OPEN
    \<and> mTransmitBuffer ws = create_buffer h DEFAULT_TRANSMIT_BUFFER_SIZE DEFAULT_MAXIMUM_BUFFER_SIZE"
  using assms by (cases "parse_url url") (auto simp: new_client_connection_def Let_def)

lemma close_fresh:
  assumes "mTransmitBuffer ws = create_buffer h DEFAULT_TRANSMIT_BUFFER_SIZE DEFAULT_MAXIMUM_BUFFER_SIZE"
    and "mReadyState ws = OPEN"
  shows "\<exists>ws'. close_ws ws = Inr ws' \<and> mSocket ws' = mSocket ws \<and> mReadyState ws' = CLOSING"
proof -
  have "append_room (mTransmitBuffer ws) 6"
    by (simp add: assms(1) append_room_def DEFAULT_TRANSMIT_BUFFER_SIZE_def DEFAULT_MAXIMUM_BUFFER_SIZE_def
        buf_inv_create) (simp add: create_buffer_def reset_def)
  then show ?thesis
    using close_ws_spec [of ws 0] assms(2) by (auto simp: can_send_def)
qed

section \<open>A connection with a prompt socket\<close>

context prompt_socket begin

text \<open>One \<open>poll\<close> of a closing connection sends what is queued and closes the socket.\<close>

lemma poll_closing:
  assumes s: "mSocket ws = Some s" "sinv s" "incoming s = []" and state: "mReadyState ws = CLOSING"
    and rb: "append_room (mReceiveBuffer ws) 4096"
    and tx: "buf_inv (mTransmitBuffer ws)" "length (contents (mTransmitBuffer ws)) \<le> window s"
  shows "\<exists>ws' s'. (\<forall>now t msgs. poll ops now False t (ws, msgs) = Some (Inr (ws', msgs))) \<and> mSocket ws' = Some s'
    \<and> mReadyState ws' = CLOSED \<and> contents (mTransmitBuffer ws') = []
    \<and> outgoing s' = outgoing s @ contents (mTransmitBuffer ws)"
proof -
  from receive_loop_empty [OF s rb] obtain w t where w: "receive_loop ops ws = Some (Inr w)"
    "after_receive ws w" "mSocket w = Some t" "sinv t" "incoming t = []" "outgoing t = outgoing s"
    "window t = window s" "mReadyState w = CLOSING" using state by auto
  note txw = after_receiveD(1) [OF w(2)]
  from send_loop_all [of w t] w tx txw obtain v u where v: "send_loop ops w = Some (Inr v)"
    "mSocket v = Some u" "sinv u" "mReadyState v = CLOSING" "buf_inv (mTransmitBuffer v)" "contents (mTransmitBuffer v) = []"
    "outgoing u = outgoing s @ contents (mTransmitBuffer ws)" by auto
  have "getSize (mTransmitBuffer v) = 0"
    using v(6) length_contents [of "mTransmitBuffer v"] by (simp add: unat_eq_0)
  then have "poll ops now False t' (ws, msgs) = Some (Inr (drop_connection ops v, msgs))" for now t' msgs
    using s(1) state w(1,8) v(1,4) by (simp add: poll_def finish_closing_def Let_def)
  with v close_stream show ?thesis
    by (intro exI [of _ "drop_connection ops v"] exI [of _ "sock_close ops u"]) (simp add: drop_connection_def)
qed

lemma destroy_open:
  assumes s: "mSocket ws = Some s" "sinv s" "incoming s = []" and state: "can_send ws"
    and rb: "append_room (mReceiveBuffer ws) 4096" and tx: "append_room (mTransmitBuffer ws) 6"
    and fits: "length (contents (mTransmitBuffer ws)) + 6 \<le> window s"
  shows "\<exists>ws' s'. destroy ops clock ws = Some (Inr ws') \<and> mSocket ws' = Some s'
    \<and> outgoing s' = outgoing s @ contents (mTransmitBuffer ws) @ closeFrame"
proof -
  from close_ws_spec [OF state, of 0] tx obtain tb where
    c: "close_ws ws = Inr (ws\<lparr>mReadyState := CLOSING, mTransmitBuffer := tb\<rparr>)" "append_room tb 0"
    "contents tb = contents (mTransmitBuffer ws) @ closeFrame" by (auto simp: encode_close_frame)
  let ?w = "ws\<lparr>mReadyState := CLOSING, mTransmitBuffer := tb\<rparr>"
  have "buf_inv tb" using c(2) by (simp add: append_room_def)
  moreover have "length (contents tb) \<le> window s" using fits c(3) by (simp add: closeFrame_def)
  ultimately obtain v t where p: "\<And>now t msgs. poll ops now False t (?w, msgs) = Some (Inr (v, msgs))"
    "mSocket v = Some t" "mReadyState v = CLOSED" "outgoing t = outgoing s @ contents tb"
    using poll_closing [of ?w s] s rb by auto
  have "run_loop (destroy_step ops clock) (?w, clock 0, 1) = Some (Some (Inr v))"
  proof (cases "clock 2 - clock 0 \<ge> 1000000000")
    case True
    then have "destroy_step ops clock (?w, clock 0, 1) = Break (Some (Inr v))"
      using p(1) by (simp add: destroy_step_def getElapsedSeconds_def peekElapsedSeconds_def CLOSE_TIMEOUT_def numeral_2_eq_2)
    then show ?thesis by (rule run_loop_Break)
  next
    case False
    then have "destroy_step ops clock (?w, clock 0, 1) = Continue (v, clock 2, 3)"
      using p(1) by (simp add: destroy_step_def getElapsedSeconds_def peekElapsedSeconds_def CLOSE_TIMEOUT_def
          numeral_2_eq_2 numeral_3_eq_3)
    then have "run_loop (destroy_step ops clock) (?w, clock 0, 1) = run_loop (destroy_step ops clock) (v, clock 2, 3)"
      by (rule run_loop_Continue)
    also have "\<dots> = Some (Some (Inr v))" using p(3) by (intro run_loop_Break) (simp add: destroy_step_def)
    finally show ?thesis .
  qed
  with c(1,3) p(2,4) show ?thesis by (simp add: destroy_def)
qed

end

section \<open>Properties\<close>

text \<open>C20. A client that cannot connect hangs in \<open>WebSocket::create\<close>: the object is deleted in the state OPEN without a
  socket, its destructor waits for the state CLOSED, which \<open>poll\<close> never reaches without a socket, and the
  one-second limit does not end the wait because every reading of the timer resets it.\<close>
theorem unconnected_client_hangs:
  assumes "\<forall>host port path. parse_url url = Some (host, port, path) \<longrightarrow> create host port = None"
    and "\<And>k. clock (k + 2) - clock k < 1000000000"
  shows "create_client ops create h e rnd stale clock now url origin m = None"
proof -
  from new_client_unconnected [where create = create and url = url and ops = ops and h = h and e = e and rnd = rnd
      and stale = stale and now = now and origin = origin and m = m, OF assms(1)] obtain ws where
    ws: "new_client_connection ops create h e rnd stale now url origin m = Inr ws" "mSocket ws = None"
    "mReadyState ws = OPEN"
    "mTransmitBuffer ws = create_buffer h DEFAULT_TRANSMIT_BUFFER_SIZE DEFAULT_MAXIMUM_BUFFER_SIZE" by blast
  from close_fresh [OF ws(4,3)] ws(2) obtain w where w: "close_ws ws = Inr w" "mSocket w = None" "mReadyState w = CLOSING"
    by auto
  from destroy_hangs [of w clock ops 0] w(2,3) assms(2) have "destroy ops clock ws = None"
    by (simp add: destroy_def w(1))
  with ws(1,2) show ?thesis by (simp add: create_client_def isValid_def)
qed

lemma unconnected_client_hangs_witness:
  "create_client shm_ops (\<lambda>_ _. None) zero_heap LittleEndian (\<lambda>k. word_of_nat k) (replicate 256 0)
     (\<lambda>k. 1000 * int k) 0 (ascii ''ws://localhost'') [] True = None"
  by (rule unconnected_client_hangs) simp_all

text \<open>C21. Deleting a connection over shared memory that has room for what it still has to send ends after at most one
  wait: everything queued and the close frame are in the ring of the peer.\<close>
theorem destroy_flushes:
  assumes "mSocket ws = Some s" and "shm_inv s" and "shm_incoming s = []" and "can_send ws"
    and "append_room (mReceiveBuffer ws) 4096" and "append_room (mTransmitBuffer ws) 6"
    and "length (contents (mTransmitBuffer ws)) + 6 \<le> shm_window s"
  shows "\<exists>ws' s'. destroy shm_ops clock ws = Some (Inr ws') \<and> mSocket ws' = Some s'
    \<and> shm_outgoing s' = shm_outgoing s @ contents (mTransmitBuffer ws) @ closeFrame"
  using assms by (rule shm.destroy_open)

lemma destroy_flushes_witness:
  "\<exists>ws' s'. destroy shm_ops (\<lambda>k. 1000 * int k) (shm_connection True [] []) = Some (Inr ws') \<and> mSocket ws' = Some s'
    \<and> shm_outgoing s' = closeFrame"
  using destroy_flushes [of "shm_connection True [] []" "client_socket []" "\<lambda>k. 1000 * int k"] client_socket [of "[]"]
    loaded_buffer_room [of "[]" 4096] shm_connection_room [of 6 True "[]" "[]"]
  by (auto simp: receiver_room_def)

end
