(* ===== verification/OsSockets.thy ===== *)
theory OsSockets
  imports SocketSharedMemory TextScan "HOL-Library.Signed_Division"
begin

unbundle bit_operations_syntax

text \<open>
  \<open>ext/easywsclient/wsocket.cpp\<close> (the POSIX half): \<open>WsocketImpl\<close> over the socket calls of the
  operating system, which are a parameter, \<open>WsocketPlayback\<close> over the bytes of a file, and the two
  forms of \<open>Wsocket::create\<close>. Descriptors are integers. Each socket carries the state \<open>'o\<close> of the
  system as its own; two sockets of one process do not see each other's calls.
\<close>

section \<open>WsocketImpl\<close>

definition INVALID_SOCKET :: int where "INVALID_SOCKET = -1"
definition SOCKET_ERROR :: int where "SOCKET_ERROR = -1"
definition EWOULDBLOCK :: int where "EWOULDBLOCK = 11"
definition EAGAIN :: int where "EAGAIN = 11"
definition FD_SETSIZE :: int where "FD_SETSIZE = 1024"
definition O_NONBLOCK :: u32 where "O_NONBLOCK = 2048"

text \<open>The calls: results and bytes as the system documents them; addresses are \<open>'a\<close>.\<close>

record ('o, 'a) socket_calls =
  os_recv :: "'o \<Rightarrow> int \<Rightarrow> int \<Rightarrow> int \<times> u8 list \<times> 'o"
  os_send :: "'o \<Rightarrow> int \<Rightarrow> u8 list \<Rightarrow> int \<times> 'o"
  os_errno :: "'o \<Rightarrow> int"
  os_close :: "'o \<Rightarrow> int \<Rightarrow> 'o"
  os_accept :: "'o \<Rightarrow> int \<Rightarrow> int \<times> 'o"
  os_socket :: "'o \<Rightarrow> 'a option \<Rightarrow> int \<times> 'o"
  os_bind :: "'o \<Rightarrow> int \<Rightarrow> 16 word \<Rightarrow> int \<times> 'o"
  os_listen :: "'o \<Rightarrow> int \<Rightarrow> int \<times> 'o"
  os_connect :: "'o \<Rightarrow> int \<Rightarrow> 'a \<Rightarrow> int \<times> 'o"
  os_getaddrinfo :: "'o \<Rightarrow> u8 list \<Rightarrow> u8 list \<Rightarrow> int \<times> 'a list \<times> 'o"
  os_getfl :: "'o \<Rightarrow> int \<Rightarrow> u32"
  os_setfl :: "'o \<Rightarrow> int \<Rightarrow> u32 \<Rightarrow> 'o"
  os_set_nodelay :: "'o \<Rightarrow> int \<Rightarrow> 'o"
  os_select :: "'o \<Rightarrow> int \<Rightarrow> int list \<Rightarrow> int list \<Rightarrow> (int \<times> int) option \<Rightarrow> 'o"

record 'o wsocket_impl =
  impl_os :: 'o
  mIsServer :: bool
  impl_socket :: int

definition new_client_socket :: "'o \<Rightarrow> int \<Rightarrow> 'o wsocket_impl" where
  "new_client_socket os socket = \<lparr>impl_os = os, mIsServer = False, impl_socket = socket\<rparr>"

text \<open>The division of C truncates towards zero.\<close>

definition timeval :: "int \<Rightarrow> int \<times> int" where
  "timeval timeout = (timeout sdiv 1000, timeout smod 1000 * 1000)"

definition impl_nullSelect :: "('o, 'a) socket_calls \<Rightarrow> 'o wsocket_impl \<Rightarrow> int \<Rightarrow> 'o wsocket_impl" where
  "impl_nullSelect calls s timeout =
     s\<lparr>impl_os := os_select calls (impl_os s) 0 [] [] (Some (timeval timeout))\<rparr>"

text \<open>\<open>FD_SET\<close> writes outside the set for a descriptor that is negative or not below \<open>FD_SETSIZE\<close>.\<close>

definition impl_select :: "('o, 'a) socket_calls \<Rightarrow> 'o wsocket_impl \<Rightarrow> int \<Rightarrow> nat \<Rightarrow> 'o wsocket_impl result" where
  "impl_select calls s timeout txBufSize =
     (let fd = impl_socket s
      in if 0 \<le> fd \<and> fd < FD_SETSIZE
         then Inr (s\<lparr>impl_os := os_select calls (impl_os s) (fd + 1) [fd] (if txBufSize \<noteq> 0 then [fd] else [])
                       (if timeout > 0 then Some (timeval timeout) else None)\<rparr>)
         else Inl OutOfBounds)"

definition impl_receive ::
  "('o, 'a) socket_calls \<Rightarrow> 'o wsocket_impl \<Rightarrow> u32 \<Rightarrow> (int \<times> u8 list \<times> 'o wsocket_impl) result" where
  "impl_receive calls s maxLen =
     (if impl_socket s \<noteq> 0 then
        let (ret, xs, os) = os_recv calls (impl_os s) (impl_socket s) (sint maxLen)
        in Inr (ret, xs, s\<lparr>impl_os := os\<rparr>)
      else Inr (-1, [], s))"

definition impl_send ::
  "('o, 'a) socket_calls \<Rightarrow> 'o wsocket_impl \<Rightarrow> u8 list \<Rightarrow> (int \<times> 'o wsocket_impl) result" where
  "impl_send calls s data =
     (let (ret, os) = os_send calls (impl_os s) (impl_socket s) data in Inr (ret, s\<lparr>impl_os := os\<rparr>))"

definition impl_close :: "('o, 'a) socket_calls \<Rightarrow> 'o wsocket_impl \<Rightarrow> 'o wsocket_impl" where
  "impl_close calls s =
     (if impl_socket s \<noteq> 0 then s\<lparr>impl_os := os_close calls (impl_os s) (impl_socket s), impl_socket := 0\<rparr>
      else s\<lparr>impl_socket := 0\<rparr>)"

definition impl_disableNaglesAlgorithm :: "('o, 'a) socket_calls \<Rightarrow> 'o wsocket_impl \<Rightarrow> 'o wsocket_impl" where
  "impl_disableNaglesAlgorithm calls s =
     s\<lparr>impl_os := os_setfl calls (os_set_nodelay calls (impl_os s) (impl_socket s)) (impl_socket s) O_NONBLOCK\<rparr>"

definition impl_ops :: "('o, 'a) socket_calls \<Rightarrow> 'o wsocket_impl wsocket_ops" where
  "impl_ops calls =
     \<lparr>sock_receive = impl_receive calls, sock_send = impl_send calls, sock_close = impl_close calls,
      sock_wouldBlock = (\<lambda>s. os_errno calls (impl_os s) = EWOULDBLOCK),
      sock_inProgress = (\<lambda>s. os_errno calls (impl_os s) = EAGAIN),
      sock_nullSelect = impl_nullSelect calls,
      sock_disableNaglesAlgorithm = impl_disableNaglesAlgorithm calls\<rparr>"

definition impl_pollServer ::
  "('o, 'a) socket_calls \<Rightarrow> 'o wsocket_impl \<Rightarrow> 'o wsocket_impl option \<times> 'o wsocket_impl" where
  "impl_pollServer calls s =
     (if mIsServer s \<and> impl_socket s \<noteq> INVALID_SOCKET then
        let (clientSocket, os) = os_accept calls (impl_os s) (impl_socket s)
        in (if clientSocket \<noteq> INVALID_SOCKET
            then Some (new_client_socket os clientSocket) else None,
            s\<lparr>impl_os := os\<rparr>)
      else (None, s))"

section \<open>Opening a socket\<close>

definition setBlockingInternal :: "('o, 'a) socket_calls \<Rightarrow> 'o \<Rightarrow> int \<Rightarrow> bool \<Rightarrow> 'o" where
  "setBlockingInternal calls os socket blocking =
     (let mode = os_getfl calls os socket
      in os_setfl calls os socket (if \<not> blocking then mode OR O_NONBLOCK else mode AND NOT O_NONBLOCK))"

definition server_connect :: "('o, 'a) socket_calls \<Rightarrow> 'o \<Rightarrow> int \<Rightarrow> int \<times> 'o" where
  "server_connect calls os port =
     (let (listenSocket, os) = os_socket calls os None
      in if listenSocket = INVALID_SOCKET then (INVALID_SOCKET, os)
         else
           let (bound, os) = os_bind calls os listenSocket (word_of_int port);
               (listening, os) = (if bound = 0 then os_listen calls os listenSocket else (-1, os))
           in if bound = 0 \<and> listening = 0 then (listenSocket, setBlockingInternal calls os listenSocket False)
              else (INVALID_SOCKET, os_close calls os listenSocket))"

text \<open>The loop over the addresses; \<open>sockfd\<close> is what the previous attempt left.\<close>

fun connect_first :: "('o, 'a) socket_calls \<Rightarrow> 'o \<Rightarrow> int \<Rightarrow> 'a list \<Rightarrow> int \<times> 'o" where
  "connect_first calls os sockfd [] = (sockfd, os)"
| "connect_first calls os sockfd (p # ps) =
     (let (sockfd, os) = os_socket calls os (Some p)
      in if sockfd = INVALID_SOCKET then connect_first calls os sockfd ps
         else
           let (ret, os) = os_connect calls os sockfd p
           in if ret \<noteq> SOCKET_ERROR then (sockfd, os)
              else connect_first calls (os_close calls os sockfd) INVALID_SOCKET ps)"

definition hostname_connect :: "('o, 'a) socket_calls \<Rightarrow> 'o \<Rightarrow> u8 list \<Rightarrow> int \<Rightarrow> int \<times> 'o" where
  "hostname_connect calls os hostname port =
     (let (ret, addresses, os) = os_getaddrinfo calls os hostname (stringFormat 16 (ascii (format_int port)))
      in if ret \<noteq> 0 then (1, os) else connect_first calls os INVALID_SOCKET addresses)"

definition new_WsocketImpl :: "('o, 'a) socket_calls \<Rightarrow> 'o \<Rightarrow> u8 list \<Rightarrow> int \<Rightarrow> 'o wsocket_impl" where
  "new_WsocketImpl calls os hostName port =
     (if hostName = ascii ''server'' then
        let (fd, os) = server_connect calls os port in \<lparr>impl_os = os, mIsServer = True, impl_socket = fd\<rparr>
      else
        let (fd, os) = hostname_connect calls os hostName port
        in \<lparr>impl_os = os, mIsServer = False, impl_socket = fd\<rparr>)"

definition isValid_impl :: "'o wsocket_impl \<Rightarrow> bool" where
  "isValid_impl s \<longleftrightarrow> impl_socket s \<noteq> INVALID_SOCKET"

datatype 'o any_socket = Shared_socket shm_socket | Os_socket "'o wsocket_impl"

text \<open>\<open>Wsocket::create\<close>; \<open>shared\<close> is \<open>createSocketSharedMemory\<close>. An invalid socket is deleted, which closes it.\<close>

definition create_socket ::
  "('o, 'a) socket_calls \<Rightarrow> (u8 list \<Rightarrow> int \<Rightarrow> shm_socket option) \<Rightarrow> 'o \<Rightarrow> u8 list \<Rightarrow> int \<Rightarrow> 'o any_socket option \<times> 'o" where
  "create_socket calls shared os hostName port =
     (if hostName = ascii ''sharedserver'' \<or> hostName = ascii ''sharedclient''
      then (map_option Shared_socket (shared hostName port), os)
      else
        let ret = new_WsocketImpl calls os hostName port
        in if isValid_impl ret then (Some (Os_socket ret), impl_os ret)
           else (None, impl_os (impl_close calls ret)))"

section \<open>WsocketPlayback\<close>

text \<open>
  The recorded file: a result, a length that is skipped and the bytes, again and again. A read
  behind the end, and of an incomplete word at the end, leaves the result at -1. The \<open>assert\<close> is that
  of a release build: nothing.
\<close>

definition le32 :: "u8 list \<Rightarrow> u32" where
  "le32 bs = word_of_nat (unat (bs ! 0) + 256 * unat (bs ! 1) + 65536 * unat (bs ! 2) + 16777216 * unat (bs ! 3))"

definition playback_receive :: "u8 list \<Rightarrow> u32 \<Rightarrow> (int \<times> u8 list \<times> u8 list) result" where
  "playback_receive file maxLen =
     (if length file < 4 then Inr (-1, [], [])
      else
        let ret = sint (le32 file); file = drop 4 file
        in if length file < 4 then Inr (ret, [], [])
           else
             let file = drop 4 file
             in if ret > 0 \<and> ret \<le> sint maxLen then Inr (ret, take (nat ret) file, drop (nat ret) file)
                else Inr (ret, [], file))"

definition playback_ops :: "u8 list wsocket_ops" where
  "playback_ops =
     \<lparr>sock_receive = playback_receive, sock_send = (\<lambda>file data. Inr (int (length data), file)),
      sock_close = (\<lambda>file. file), sock_wouldBlock = (\<lambda>_. True), sock_inProgress = (\<lambda>_. True),
      sock_nullSelect = (\<lambda>file _. file), sock_disableNaglesAlgorithm = (\<lambda>file. file)\<rparr>"

definition create_playback :: "(u8 list \<Rightarrow> u8 list option) \<Rightarrow> u8 list \<Rightarrow> u8 list option" where
  "create_playback fopen playbackFile = (case fopen playbackFile of None \<Rightarrow> None | Some file \<Rightarrow> Some file)"

section \<open>Descriptors\<close>

text \<open>
  What the system documents of descriptors: \<open>opened\<close> is the set of those in use; \<open>socket\<close> and
  \<open>accept\<close> answer -1 or one that was not in use, \<open>close\<close> gives one back, the others leave them alone.
\<close>

definition descriptor_law :: "('o, 'a) socket_calls \<Rightarrow> ('o \<Rightarrow> int set) \<Rightarrow> bool" where
  "descriptor_law calls opened \<longleftrightarrow>
     (\<forall>os a fd os'. os_socket calls os a = (fd, os') \<longrightarrow>
        (if fd = -1 then opened os' = opened os else 0 \<le> fd \<and> fd \<notin> opened os \<and> opened os' = insert fd (opened os)))
     \<and> (\<forall>os fd. opened (os_close calls os fd) = opened os - {fd})
     \<and> (\<forall>os fd port. opened (snd (os_bind calls os fd port)) = opened os)
     \<and> (\<forall>os fd. opened (snd (os_listen calls os fd)) = opened os)
     \<and> (\<forall>os fd a. opened (snd (os_connect calls os fd a)) = opened os)
     \<and> (\<forall>os host port. opened (snd (snd (os_getaddrinfo calls os host port))) = opened os)
     \<and> (\<forall>os fd flags. opened (os_setfl calls os fd flags) = opened os)"

text \<open>A descriptor, or -1, that is the only one a call has opened.\<close>

definition one_opened :: "('o \<Rightarrow> int set) \<Rightarrow> 'o \<Rightarrow> int \<times> 'o \<Rightarrow> bool" where
  "one_opened opened os r \<longleftrightarrow>
     (let (fd, os') = r
      in if fd = -1 then opened os' = opened os else 0 \<le> fd \<and> fd \<notin> opened os \<and> opened os' = insert fd (opened os))"

lemma descriptor_lawD:
  assumes "descriptor_law calls opened"
  shows "one_opened opened os (os_socket calls os a)" "opened (os_close calls os fd) = opened os - {fd}"
    "opened (snd (os_bind calls os fd port)) = opened os" "opened (snd (os_listen calls os fd)) = opened os"
    "opened (snd (os_connect calls os fd b)) = opened os" "opened (snd (snd (os_getaddrinfo calls os host sport))) = opened os"
    "opened (os_setfl calls os fd flags) = opened os"
  using assms by (auto simp: descriptor_law_def one_opened_def split: prod.split)

lemma server_connect_opens:
  assumes "descriptor_law calls opened" and "-1 \<notin> opened os"
  shows "one_opened opened os (server_connect calls os port)"
proof -
  note law = descriptor_lawD [OF assms(1)]
  obtain fd os1 where s: "os_socket calls os None = (fd, os1)" by (cases "os_socket calls os None")
  obtain b os2 where b: "os_bind calls os1 fd (word_of_int port) = (b, os2)" by (cases "os_bind calls os1 fd (word_of_int port)")
  obtain l os3 where l: "os_listen calls os2 fd = (l, os3)" by (cases "os_listen calls os2 fd")
  have "opened os2 = opened os1" "opened os3 = opened os2"
    using law(3) [of os1 fd "word_of_int port"] law(4) [of os2 fd] b l by simp_all
  with law(1) [of os None] law(2,7) s b l show ?thesis
    by (auto simp: server_connect_def setBlockingInternal_def one_opened_def INVALID_SOCKET_def Let_def)
qed

lemma connect_first_opens:
  assumes "descriptor_law calls opened"
  shows "one_opened opened os (connect_first calls os INVALID_SOCKET ps)"
proof (induction ps arbitrary: os)
  case (Cons p ps)
  note law = descriptor_lawD [OF assms]
  obtain fd os1 where s: "os_socket calls os (Some p) = (fd, os1)" by (cases "os_socket calls os (Some p)")
  obtain r os2 where r: "os_connect calls os1 fd p = (r, os2)" by (cases "os_connect calls os1 fd p")
  have o: "opened os2 = opened os1" using law(5) [of os1 fd p] r by simp
  have one: "one_opened opened os (fd, os1)" using law(1) [of os "Some p"] s by simp
  show ?case
  proof (cases "fd = -1")
    case True
    with one have "opened os1 = opened os" by (simp add: one_opened_def)
    with Cons [of os1] s True show ?thesis
      by (auto simp: one_opened_def INVALID_SOCKET_def split: prod.splits if_splits)
  next
    case False
    let ?os3 = "os_close calls os2 fd"
    have "opened ?os3 = opened os" using one o law(2) False by (auto simp: one_opened_def)
    with Cons [of ?os3] one s r o False show ?thesis
      by (auto simp: INVALID_SOCKET_def SOCKET_ERROR_def one_opened_def split: prod.splits)
  qed
qed (simp add: one_opened_def INVALID_SOCKET_def)

text \<open>The three ways to a socket.\<close>

lemma create_server_socket:
  assumes "server_connect calls os port = (fd, os')"
  shows "create_socket calls shared os (ascii ''server'') port =
    (if fd = -1 then (None, os_close calls os' (-1))
     else (Some (Os_socket \<lparr>impl_os = os', mIsServer = True, impl_socket = fd\<rparr>), os'))"
  using assms by (simp add: create_socket_def new_WsocketImpl_def isValid_impl_def INVALID_SOCKET_def impl_close_def)

lemma create_client_socket:
  assumes "host \<notin> {ascii ''server'', ascii ''sharedserver'', ascii ''sharedclient''}"
    and "os_getaddrinfo calls os host (stringFormat 16 (ascii (format_int port))) = (ret, ps, os1)"
    and "connect_first calls os1 INVALID_SOCKET ps = (fd, os')"
  shows "create_socket calls shared os host port =
    (if ret \<noteq> 0 then (Some (Os_socket \<lparr>impl_os = os1, mIsServer = False, impl_socket = 1\<rparr>), os1)
     else if fd = -1 then (None, os_close calls os' (-1))
     else (Some (Os_socket \<lparr>impl_os = os', mIsServer = False, impl_socket = fd\<rparr>), os'))"
  using assms
  by (simp add: create_socket_def new_WsocketImpl_def hostname_connect_def isValid_impl_def INVALID_SOCKET_def impl_close_def)

text \<open>C26. \<open>Wsocket::create\<close> leaks no descriptor. When it answers null everything it opened on the way (the sockets of
  addresses that refused, a socket that could not be bound) is closed again; otherwise exactly the descriptor of
  the new socket is open, and \<open>close\<close> gives it back unless it is 0. The one exception is a host name that cannot be
  resolved: the answer is then a socket on descriptor 1, the standard output, which \<open>close\<close> closes.\<close>
theorem create_opens_one_descriptor:
  assumes "descriptor_law calls opened" and "-1 \<notin> opened os"
    and "host \<notin> {ascii ''sharedserver'', ascii ''sharedclient''}"
  shows "case create_socket calls shared os host port of
      (None, os') \<Rightarrow> opened os' = opened os
    | (Some (Shared_socket _), _) \<Rightarrow> False
    | (Some (Os_socket s), os') \<Rightarrow> impl_os s = os' \<and> mIsServer s = (host = ascii ''server'')
        \<and> (if host \<noteq> ascii ''server'' \<and> fst (os_getaddrinfo calls os host (stringFormat 16 (ascii (format_int port)))) \<noteq> 0
           then impl_socket s = 1 \<and> opened os' = opened os \<and> opened (impl_os (impl_close calls s)) = opened os - {1}
           else one_opened opened os (impl_socket s, os') \<and> impl_socket s \<noteq> -1
             \<and> (impl_socket s \<noteq> 0 \<longrightarrow> opened (impl_os (impl_close calls s)) = opened os))"
proof -
  note law = descriptor_lawD [OF assms(1)]
  have opened: "one_opened opened os r \<Longrightarrow> fst r \<noteq> -1 \<Longrightarrow> opened (os_close calls (snd r) (fst r)) = opened os"
    "one_opened opened os r \<Longrightarrow> fst r = -1 \<Longrightarrow> opened (os_close calls (snd r) (-1)) = opened os" for r
    using law(2) assms(2) by (auto simp: one_opened_def)
  show ?thesis
  proof (cases "host = ascii ''server''")
    case True
    obtain fd os' where r: "server_connect calls os port = (fd, os')" by (rule prod.exhaust)
    with server_connect_opens [OF assms(1,2), of port] have "one_opened opened os (fd, os')" by simp
    with opened [of "(fd, os')"] show ?thesis
      unfolding True create_server_socket [OF r] by (simp add: impl_close_def)
  next
    case False
    let ?g = "os_getaddrinfo calls os host (stringFormat 16 (ascii (format_int port)))"
    obtain ret ps os1 where g: "?g = (ret, ps, os1)" by (rule prod_cases3)
    with law(6) [of os host] have o1: "opened os1 = opened os" by (metis snd_conv)
    obtain fd os' where r: "connect_first calls os1 INVALID_SOCKET ps = (fd, os')" by (rule prod.exhaust)
    with connect_first_opens [OF assms(1), of os1 ps] o1 have one: "one_opened opened os (fd, os')"
      by (auto simp: one_opened_def split: if_splits)
    have host: "host \<notin> {ascii ''server'', ascii ''sharedserver'', ascii ''sharedclient''}" using False assms(3) by simp
    from one opened [OF one] False g o1 law(2) show ?thesis
      unfolding create_client_socket [OF host g r] by (simp add: impl_close_def)
  qed
qed

text \<open>A system with one socket to give, to which only the second address answers.\<close>

definition one_socket_calls :: "(int set, nat) socket_calls" where
  "one_socket_calls =
     \<lparr>os_recv = \<lambda>os fd n. (-1, [], os), os_send = \<lambda>os fd data. (int (length data), os), os_errno = \<lambda>os. EAGAIN,
      os_close = \<lambda>os fd. os - {fd}, os_accept = \<lambda>os fd. (-1, os),
      os_socket = \<lambda>os a. (if 3 \<in> os then (-1, os) else (3, insert 3 os)), os_bind = \<lambda>os fd port. (0, os),
      os_listen = \<lambda>os fd. (0, os), os_connect = \<lambda>os fd a. (if a = 2 then 0 else -1, os),
      os_getaddrinfo = \<lambda>os host port. (0, [1, 2], os),
      os_getfl = \<lambda>os fd. 0, os_setfl = \<lambda>os fd flags. os, os_set_nodelay = \<lambda>os fd. os,
      os_select = \<lambda>os n r w tv. os\<rparr>"

lemma create_opens_one_descriptor_witness:
  "\<exists>s. create_socket one_socket_calls (\<lambda>_ _. None) {0, 1, 2} (ascii ''localhost'') 3009 = (Some (Os_socket s), {0, 1, 2, 3})
     \<and> impl_socket s = 3 \<and> impl_os (impl_close one_socket_calls s) = {0, 1, 2}"
proof -
  have law: "descriptor_law one_socket_calls id"
    by (auto simp: descriptor_law_def one_socket_calls_def)
  have c: "create_socket one_socket_calls (\<lambda>_ _. None) {0, 1, 2} (ascii ''localhost'') 3009 =
      (Some (Os_socket \<lparr>impl_os = {0, 1, 2, 3}, mIsServer = False, impl_socket = 3\<rparr>), {0, 1, 2, 3})"
    by (auto simp: create_socket_def new_WsocketImpl_def hostname_connect_def isValid_impl_def one_socket_calls_def
        INVALID_SOCKET_def SOCKET_ERROR_def)
  from create_opens_one_descriptor [OF law, where os = "{0, 1, 2}" and host = "ascii ''localhost''" and port = 3009
      and shared = "\<lambda>_ _. None"] c
  show ?thesis by (auto simp: one_socket_calls_def)
qed

section \<open>Recordings\<close>

definition le_bytes :: "nat \<Rightarrow> u8 list" where
  "le_bytes n = map (\<lambda>k. word_of_nat (n div 256 ^ k)) [0..<4]"

definition recorded :: "nat \<Rightarrow> u8 list \<Rightarrow> u8 list" where
  "recorded m xs = le_bytes (length xs) @ le_bytes m @ xs"

lemma length_le_bytes [simp]: "length (le_bytes n) = 4" by (simp add: le_bytes_def)

lemma le32_le_bytes:
  assumes "n < 2 ^ 32"
  shows "le32 (le_bytes n @ r) = word_of_nat n"
proof -
  have u: "unat (word_of_nat k :: u8) = k mod 256" for k by (simp add: unat_of_nat)
  let ?a = "n div 256" and ?b = "n div 256 div 256" and ?c = "n div 256 div 256 div 256"
  have d: "n div 65536 = ?b" "n div 16777216 = ?c" by (simp_all flip: div_mult2_eq)
  have "?c mod 256 = ?c" using assms by (simp flip: div_mult2_eq)
  with div_mult_mod_eq [of n 256] div_mult_mod_eq [of ?a 256] div_mult_mod_eq [of ?b 256]
  have "n mod 256 + 256 * (?a mod 256) + 65536 * (?b mod 256) + 16777216 * (?c mod 256) = n" by linarith
  then show ?thesis by (simp add: le32_def le_bytes_def upt_rec u d)
qed

text \<open>\<open>WsocketPlayback\<close> replays a recording: each \<open>receive\<close> answers the next recorded chunk, at the end -1. For a
  chunk that is longer than the buffer it still answers the recorded length although it has stored nothing, and then
  reads its next length out of the middle of the chunk.\<close>
lemma playback_replays:
  assumes "xs \<noteq> []" and "length xs < 2 ^ 31" and "unat maxLen < 2 ^ 31"
  shows "playback_receive (recorded m xs @ rest) maxLen =
      Inr (if length xs \<le> unat maxLen then (int (length xs), xs, rest) else (int (length xs), [], xs @ rest))
    \<and> playback_receive [] maxLen = Inr (-1, [], [])
    \<and> (unat maxLen < length xs \<longrightarrow>
        \<not> (\<forall>ret ys file'. playback_receive (recorded m xs @ rest) maxLen = Inr (ret, ys, file') \<longrightarrow> length ys = nat ret))"
proof -
  have l: "le32 (recorded m xs @ rest) = word_of_nat (length xs)"
    using le32_le_bytes [of "length xs" "le_bytes m @ xs @ rest"] assms(2) by (simp add: recorded_def)
  have "unat (word_of_nat (length xs) :: u32) = length xs" using assms(2) by simp
  then have s: "sint (word_of_nat (length xs) :: u32) = int (length xs)" "sint maxLen = int (unat maxLen)"
    using assms(2,3) sint_small [of "word_of_nat (length xs)"] sint_small [of maxLen] by simp_all
  have d: "drop 4 (recorded m xs @ rest) = le_bytes m @ xs @ rest" "drop 4 (le_bytes m @ xs @ rest) = xs @ rest"
    by (simp_all add: recorded_def)
  have n: "\<not> length (recorded m xs @ rest) < 4" "\<not> length (le_bytes m @ xs @ rest) < 4" by (simp_all add: recorded_def)
  have "playback_receive (recorded m xs @ rest) maxLen =
      Inr (if length xs \<le> unat maxLen then (int (length xs), xs, rest) else (int (length xs), [], xs @ rest))"
    unfolding playback_receive_def l d Let_def s using assms(1) n by (simp del: of_nat_unat)
  moreover have "playback_receive [] maxLen = Inr (-1, [], [])" by (simp add: playback_receive_def)
  ultimately show ?thesis using assms(1) by simp
qed

end
