(* ===== verification/WsocketOs.thy ===== *)
theory WsocketOs
  imports OsSockets WsPollStream
begin

text \<open>
  \<open>WebSocketImpl\<close> on the sockets of \<open>OsSockets\<close>: a system that keeps the documented bounds of
  \<open>recv\<close> and \<open>send\<close> meets the contract of \<open>poll\<close>, a recording does not.
\<close>

section \<open>Properties\<close>

text \<open>
  What the system documents of \<open>recv\<close> and \<open>send\<close>: no more bytes than asked for or given, an
  \<open>int\<close> as the result, and no bytes with an error.
\<close>

definition socket_calls_law :: "('o, 'a) socket_calls \<Rightarrow> bool" where
  "socket_calls_law calls \<longleftrightarrow>
     (\<forall>os fd n ret xs os'. os_recv calls os fd n = (ret, xs, os') \<longrightarrow>
        length xs = nat ret \<and> ret < 2 ^ 31 \<and> (0 \<le> n \<longrightarrow> ret \<le> n)) \<and>
     (\<forall>os fd data ret os'. os_send calls os fd data = (ret, os') \<longrightarrow> ret \<le> int (length data))"

lemma socket_calls_lawD:
  assumes "socket_calls_law calls"
  shows "os_recv calls os fd n = (ret, xs, os') \<Longrightarrow> length xs = nat ret \<and> ret < 2 ^ 31 \<and> (0 \<le> n \<longrightarrow> ret \<le> n)"
    "os_send calls os fd data = (ret, os') \<Longrightarrow> ret \<le> int (length data)"
  using assms unfolding socket_calls_law_def by blast+

lemma impl_contract:
  assumes "socket_calls_law calls"
  shows "wsocket_contract (impl_ops calls) (\<lambda>_. True)"
proof (unfold_locales, goal_cases)
  case (1 s n ret xs s')
  show ?case
  proof (cases "impl_socket s = 0")
    case False
    with 1(3) obtain os' where r: "os_recv calls (impl_os s) (impl_socket s) (sint n) = (ret, xs, os')"
      by (auto simp: impl_ops_def impl_receive_def split: prod.splits)
    note law = socket_calls_lawD(1) [OF assms r]
    show ?thesis
    proof (cases "unat n < 2 ^ 31")
      case True
      then have "sint n = int (unat n)" by (rule sint_small)
      with law have "ret \<le> int (unat n)" by (metis of_nat_0_le_iff)
      then have "nat ret \<le> unat n" by (simp only: nat_le_iff)
      with law show ?thesis by simp
    next
      case False
      with law show ?thesis by auto
    qed
  qed (use 1(3) in \<open>auto simp: impl_ops_def impl_receive_def\<close>)
next
  case (3 s xs ret s')
  with socket_calls_lawD(2) [OF assms] have "ret \<le> int (length xs)"
    by (fastforce simp: impl_ops_def impl_send_def split: prod.splits)
  then show ?case by simp
qed (auto simp: impl_ops_def impl_receive_def impl_send_def split: prod.split)

text \<open>C36. Over any system whose \<open>recv\<close> and \<open>send\<close> keep their documented bounds, a connection on an ordinary socket
  meets the contract of \<open>poll\<close>: both loops return, without a fault other than the overlapping copy, and
  keep the buffers well formed.\<close>
theorem os_socket_loops_return:
  assumes "socket_calls_law calls" and "mSocket ws = Some s"
    and "buf_inv (mReceiveBuffer ws)" and "buf_inv (mTransmitBuffer ws)"
  shows "(\<exists>r. receive_loop (impl_ops calls) ws = Some r \<and>
      (case r of Inl e \<Rightarrow> e = OverlappingCopy | Inr ws' \<Rightarrow> buf_inv (mReceiveBuffer ws')))
    \<and> (\<exists>ws'. send_loop (impl_ops calls) ws = Some (Inr ws') \<and> buf_inv (mTransmitBuffer ws'))"
proof -
  note c = impl_contract [OF assms(1)]
  have "wsocket_contract.recv_ok (\<lambda>_. True) ws" "wsocket_contract.send_ok (\<lambda>_. True) ws"
    using assms(2-4) by (auto simp: wsocket_contract.recv_ok_def [OF c] wsocket_contract.send_ok_def [OF c])
  from wsocket_contract.receive_loop_total [OF c this(1)] wsocket_contract.send_loop_total [OF c this(2)]
  obtain r ws' where "receive_loop (impl_ops calls) ws = Some r"
    "case r of Inl e \<Rightarrow> e = OverlappingCopy | Inr w \<Rightarrow> buf_inv (mReceiveBuffer w)"
    "send_loop (impl_ops calls) ws = Some (Inr ws')" "buf_inv (mTransmitBuffer ws')"
    unfolding wsocket_contract.recv_ok_def [OF c] wsocket_contract.send_ok_def [OF c]
    by (fastforce split: sum.splits)
  then show ?thesis by blast
qed

text \<open>A system to test with: its state is the bytes that will arrive; sends are taken in full.\<close>

definition loop_calls :: "(u8 list, unit) socket_calls" where
  "loop_calls =
     \<lparr>os_recv = \<lambda>os fd n. let k = nat (min n (int (min (length os) 1000)))
                          in (if k = 0 then (-1, [], os) else (int k, take k os, drop k os)),
      os_send = \<lambda>os fd data. (int (length data), os), os_errno = \<lambda>os. EAGAIN, os_close = \<lambda>os fd. os,
      os_accept = \<lambda>os fd. (-1, os), os_socket = \<lambda>os a. (3, os), os_bind = \<lambda>os fd port. (0, os),
      os_listen = \<lambda>os fd. (0, os), os_connect = \<lambda>os fd a. (0, os),
      os_getaddrinfo = \<lambda>os host port. (if host = ascii ''localhost'' then (0, [()], os) else (-2, [], os)),
      os_getfl = \<lambda>os fd. 0, os_setfl = \<lambda>os fd flags. os, os_set_nodelay = \<lambda>os fd. os,
      os_select = \<lambda>os n r w tv. os\<rparr>"

lemma loop_calls_law: "socket_calls_law loop_calls"
  by (auto simp: socket_calls_law_def loop_calls_def Let_def split: if_splits)

definition loop_connection :: "u8 list \<Rightarrow> u8 list wsocket_impl web_socket" where
  "loop_connection incoming =
     new_server_connection zero_heap LittleEndian (\<lambda>k. word_of_nat k) (replicate 256 0) 0
       (Some \<lparr>impl_os = incoming, mIsServer = False, impl_socket = 3\<rparr>) True"

lemma os_socket_loops_return_witness:
  "\<exists>r ws'. receive_loop (impl_ops loop_calls) (loop_connection [1, 2]) = Some r
     \<and> send_loop (impl_ops loop_calls) (loop_connection [1, 2]) = Some (Inr ws')"
proof -
  have "mSocket (loop_connection [1, 2]) = Some \<lparr>impl_os = [1, 2], mIsServer = False, impl_socket = 3\<rparr>"
    "buf_inv (mReceiveBuffer (loop_connection [1, 2]))" "buf_inv (mTransmitBuffer (loop_connection [1, 2]))"
    by (simp_all add: loop_connection_def new_server_connection_def DEFAULT_TRANSMIT_BUFFER_SIZE_def
        DEFAULT_RECEIVE_BUFFER_SIZE_def DEFAULT_MAXIMUM_BUFFER_SIZE_def buf_inv_create)
  from os_socket_loops_return [OF loop_calls_law this] show ?thesis by blast
qed

text \<open>A host name that cannot be resolved does not make \<open>Wsocket::create\<close> fail: it answers a socket on descriptor 1,
  the standard output, and whatever is sent over it is written there.\<close>
lemma unresolved_host_is_stdout:
  assumes "os_getaddrinfo calls os host (stringFormat 16 (ascii (format_int port))) = (ret, addresses, os')" and "ret \<noteq> 0"
    and "host \<notin> {ascii ''server'', ascii ''sharedserver'', ascii ''sharedclient''}"
  shows "\<exists>s. create_socket calls shared os host port = (Some (Os_socket s), os') \<and> impl_socket s = 1
    \<and> (\<forall>data. impl_send calls s data =
        (let (n, os2) = os_send calls os' 1 data in Inr (n, s\<lparr>impl_os := os2\<rparr>)))"
  using assms
  by (auto simp: create_socket_def new_WsocketImpl_def hostname_connect_def isValid_impl_def INVALID_SOCKET_def
      impl_send_def Let_def)

lemma unresolved_host_is_stdout_witness:
  "\<exists>s. create_socket loop_calls (\<lambda>_ _. None) [] (ascii ''no.such.host'') 3009 = (Some (Os_socket s), []) \<and> impl_socket s = 1"
  using unresolved_host_is_stdout [of loop_calls "[]" "ascii ''no.such.host''" 3009 "-2" "[]" "[]"]
  by (auto simp: loop_calls_def)

text \<open>\<open>WsocketPlayback\<close> does not keep the contract of \<open>receive\<close>: for a record that is longer than the buffer it
  returns the recorded length although it has stored nothing, so that \<open>poll\<close> takes more bytes into its
  receive buffer than it made room for.\<close>
lemma playback_breaks_contract:
  "playback_receive [0, 0x20, 0, 0, 0, 0x20, 0, 0, 0x81] DEFAULT_MAX_READ_SIZE = Inr (8192, [], [0x81])
   \<and> unat DEFAULT_MAX_READ_SIZE = 4096 \<and> \<not> wsocket_contract playback_ops (\<lambda>_. True)"
proof -
  have r: "playback_receive [0, 0x20, 0, 0, 0, 0x20, 0, 0, 0x81] DEFAULT_MAX_READ_SIZE = Inr (8192, [], [0x81])"
    by (simp add: playback_receive_def le32_def DEFAULT_MAX_READ_SIZE_def Let_def sint_small)
  have "\<not> wsocket_contract playback_ops (\<lambda>_. True)"
  proof
    assume c: "wsocket_contract playback_ops (\<lambda>_. True)"
    have "nat 8192 \<le> unat DEFAULT_MAX_READ_SIZE"
      using wsocket_contract.receive_law [OF c TrueI max_read(2)] r by (fastforce simp: playback_ops_def)
    then show False using max_read(1) by simp
  qed
  with r max_read(1) show ?thesis by simp
qed

end
