(* ===== verification/OsFiles.thy ===== *)
theory OsFiles
  imports SocketSharedMemory TextScan
begin

text \<open>
  \<open>ext/easywsclient/MemoryMap.h\<close>, the POSIX half of \<open>MemoryMap.cpp\<close> (the other half is in
  \<open>OsFilesWindows\<close>), and the part of \<open>socketsharedmemory.cpp\<close> that opens and releases the two files.
  The calls of the operating system are a parameter: \<open>os_open\<close>, \<open>os_length\<close> (\<open>lseek\<close> to the end),
  \<open>os_mmap\<close> and \<open>os_close_file\<close> over a state \<open>'o\<close>; a mapping is the ring file it shows. The
  protection of the pages is not in the model.
\<close>

section \<open>The interface MemoryMap\<close>

text \<open>
  The static \<open>createMemoryMap\<close> and the virtual methods; a null base address is \<open>None\<close>. The last component of
  the result of \<open>map_create\<close> is the new value of the reference \<open>size\<close>.
\<close>

record ('o, 'm) map_ops =
  map_create :: "'o \<Rightarrow> u8 list \<Rightarrow> u64 \<Rightarrow> bool \<Rightarrow> bool \<Rightarrow> 'o \<times> 'm option \<times> u64"
  map_size :: "'m \<Rightarrow> u64"
  map_base :: "'m \<Rightarrow> shared_header option"
  map_release :: "'o \<Rightarrow> 'm \<Rightarrow> 'o"

text \<open>
  What a client of the interface relies on: \<open>held\<close> are the descriptors or handles in use, \<open>owns\<close> those of a map. A
  map is answered with an address and with descriptors of its own, a failed call leaves none behind, and
  \<open>release\<close> gives them back.
\<close>

locale map_contract =
  fixes mops :: "('o, 'm) map_ops"
    and minv :: "'o \<Rightarrow> bool"
    and held :: "'o \<Rightarrow> int set"
    and owns :: "'m \<Rightarrow> int set"
  assumes create_null: "minv os \<Longrightarrow> map_create mops os path n createOk readOnly = (os', None, n') \<Longrightarrow>
      minv os' \<and> held os' = held os"
    and create_map: "minv os \<Longrightarrow> map_create mops os path n createOk readOnly = (os', Some m, n') \<Longrightarrow>
      minv os' \<and> held os' = held os \<union> owns m \<and> owns m \<inter> held os = {} \<and> map_base mops m \<noteq> None"
    and release_map: "minv os \<Longrightarrow> minv (map_release mops os m) \<and> held (map_release mops os m) = held os - owns m"

section \<open>MemoryMapImpl on POSIX\<close>

datatype mapping = Mapped shared_header | Map_null | Map_failed

record 'o file_calls =
  os_open :: "'o \<Rightarrow> u8 list \<Rightarrow> int \<times> 'o"
  os_length :: "'o \<Rightarrow> int \<Rightarrow> u64"
  os_mmap :: "'o \<Rightarrow> int \<Rightarrow> u64 \<Rightarrow> mapping"
  os_close_file :: "'o \<Rightarrow> int \<Rightarrow> 'o"

record memory_map =
  mFileNumber :: int
  mMapLength :: u64
  mData :: mapping

text \<open>The constructor; the last component of the result is the new value of \<open>size\<close>.\<close>

definition new_MemoryMapImpl ::
  "'o file_calls \<Rightarrow> 'o \<Rightarrow> u8 list \<Rightarrow> u64 \<Rightarrow> bool \<Rightarrow> bool \<Rightarrow> 'o \<times> memory_map \<times> u64" where
  "new_MemoryMapImpl calls os mappingObject fsize createOk readOnly =
     (let (fd, os) = os_open calls os mappingObject
      in if fd \<noteq> -1 then
           let n = os_length calls os fd;
               data = (if n \<noteq> 0 then os_mmap calls os fd n else Map_null)
           in if data = Map_failed
              then (os_close_file calls os fd, \<lparr>mFileNumber = 0, mMapLength = 0, mData = Map_null\<rparr>, fsize)
              else (os, \<lparr>mFileNumber = fd, mMapLength = n, mData = data\<rparr>, n)
         else (os, \<lparr>mFileNumber = fd, mMapLength = 0, mData = Map_null\<rparr>, fsize))"

definition getBaseAddress :: "memory_map \<Rightarrow> mapping" where
  "getBaseAddress m = mData m"

definition getFileSize :: "memory_map \<Rightarrow> u64" where
  "getFileSize m = mMapLength m"

definition release_map :: "'o file_calls \<Rightarrow> 'o \<Rightarrow> memory_map \<Rightarrow> 'o" where
  "release_map calls os m = (if mFileNumber m \<noteq> 0 then os_close_file calls os (mFileNumber m) else os)"

definition createMemoryMap ::
  "'o file_calls \<Rightarrow> 'o \<Rightarrow> u8 list \<Rightarrow> u64 \<Rightarrow> bool \<Rightarrow> bool \<Rightarrow> 'o \<times> memory_map option \<times> u64" where
  "createMemoryMap calls os fileName fsize createOk readOnly =
     (let (os, m, fsize) = new_MemoryMapImpl calls os fileName fsize createOk readOnly
      in if getBaseAddress m = Map_null then (release_map calls os m, None, fsize) else (os, Some m, fsize))"

definition posix_maps :: "'o file_calls \<Rightarrow> ('o, memory_map) map_ops" where
  "posix_maps calls =
     \<lparr>map_create = createMemoryMap calls, map_size = getFileSize,
      map_base = (\<lambda>m. case getBaseAddress m of Mapped f \<Rightarrow> Some f | _ \<Rightarrow> None), map_release = release_map calls\<rparr>"

text \<open>
  What the system documents of descriptors: \<open>open\<close> answers -1 or one that was not in use, \<open>close\<close> gives one back.
  A process that has closed its standard input is excluded: the destructor takes descriptor 0 for none.
\<close>

locale posix_files =
  fixes calls :: "'o file_calls"
    and opened :: "'o \<Rightarrow> int set"
  assumes open_fails: "os_open calls os path = (-1, os') \<Longrightarrow> opened os' = opened os"
    and open_fresh: "os_open calls os path = (fd, os') \<Longrightarrow> fd \<noteq> -1 \<Longrightarrow>
      fd \<notin> opened os \<and> opened os' = insert fd (opened os)"
    and close_gives_back: "opened (os_close_file calls os fd) = opened os - {fd}"

definition stdin_open :: "('o \<Rightarrow> int set) \<Rightarrow> 'o \<Rightarrow> bool" where
  "stdin_open opened os \<longleftrightarrow> 0 \<in> opened os \<and> -1 \<notin> opened os"

sublocale posix_files \<subseteq> map_contract "posix_maps calls" "stdin_open opened" opened "\<lambda>m. {mFileNumber m} - {0}"
proof (unfold_locales, goal_cases)
  case (1 os path n createOk readOnly os' n')
  then show ?case
    using open_fails [of os path] open_fresh [of os path] close_gives_back
    by (cases "os_open calls os path")
      (auto simp: posix_maps_def createMemoryMap_def new_MemoryMapImpl_def getBaseAddress_def release_map_def
        stdin_open_def Let_def split: if_splits)
next
  case (2 os path n createOk readOnly os' m n')
  then show ?case
    using open_fails [of os path] open_fresh [of os path] close_gives_back
    by (cases "os_open calls os path"; cases "getBaseAddress m")
      (auto simp: posix_maps_def createMemoryMap_def new_MemoryMapImpl_def getBaseAddress_def release_map_def
        stdin_open_def Let_def split: if_splits)
next
  case (3 os m)
  then show ?case by (auto simp: posix_maps_def release_map_def stdin_open_def close_gives_back)
qed

section \<open>Opening a shared-memory socket\<close>

definition cache_name :: "string \<Rightarrow> int \<Rightarrow> u8 list" where
  "cache_name name port =
     stringFormat 512 (ascii ''f:'' @ [0x5C] @ ascii name @ ascii ''.'' @ ascii (format_int port) @ ascii ''.cache'')"

text \<open>The destructor; the maps are the members \<open>mServerFile\<close> and \<open>mClientFile\<close>.\<close>

definition release_shm :: "('o, 'm) map_ops \<Rightarrow> 'o \<Rightarrow> 'm option \<times> 'm option \<Rightarrow> 'o" where
  "release_shm mops os maps =
     (let (serverFile, clientFile) = maps;
          os = (case clientFile of None \<Rightarrow> os | Some m \<Rightarrow> map_release mops os m)
      in case serverFile of None \<Rightarrow> os | Some m \<Rightarrow> map_release mops os m)"

text \<open>
  The constructor and the factory: both files are mapped and, when one of them could not be, released again with
  the object. \<open>shm_create\<close> is the rest of the constructor. \<open>createMemoryMap\<close> answers no map without an address,
  so that the last case of the inner \<open>case\<close> does not arise.
\<close>

definition createSocketSharedMemory ::
  "('o, 'm) map_ops \<Rightarrow> 'o \<Rightarrow> u8 list \<Rightarrow> int \<Rightarrow> 'o \<times> (shm_socket \<times> 'm option \<times> 'm option) option" where
  "createSocketSharedMemory mops os hostName port =
     (let isServer = (hostName = ascii ''sharedserver'');
          (os, serverFile, _) = map_create mops os (cache_name ''@sharedserver'' port) (ucast SHARED_BUFFER_SIZE) isServer False;
          (os, clientFile, _) = map_create mops os (cache_name ''@sharedclient'' port) (ucast SHARED_BUFFER_SIZE) isServer False
      in case (serverFile, clientFile) of
           (Some sm, Some cm) \<Rightarrow>
             (os, case (map_base mops sm, map_base mops cm) of
                    (Some sf, Some cf) \<Rightarrow>
                      Some (shm_create isServer sf cf (ucast (map_size mops sm)) (ucast (map_size mops cm)), serverFile, clientFile)
                  | _ \<Rightarrow> None)
         | _ \<Rightarrow> (release_shm mops os (serverFile, clientFile), None))"

section \<open>A client of the interface\<close>

context map_contract begin

lemma map_create_cases:
  assumes "minv os"
  obtains (none) os' n' where "map_create mops os path n createOk readOnly = (os', None, n')" "minv os'" "held os' = held os"
  | (some) os' m n' where "map_create mops os path n createOk readOnly = (os', Some m, n')" "minv os'"
      "held os' = held os \<union> owns m" "owns m \<inter> held os = {}" "map_base mops m \<noteq> None"
proof -
  obtain os' r n' where c: "map_create mops os path n createOk readOnly = (os', r, n')" by (rule prod_cases3)
  show ?thesis
  proof (cases r)
    case None
    show ?thesis by (rule none [OF c [unfolded None]]) (use create_null [OF assms c [unfolded None]] in auto)
  next
    case (Some m)
    show ?thesis by (rule some [OF c [unfolded Some]]) (use create_map [OF assms c [unfolded Some]] in auto)
  qed
qed

lemma shared_socket_holds:
  assumes "minv os" and "createSocketSharedMemory mops os hostName port = (os', r)"
  shows "case r of None \<Rightarrow> held os' = held os
    | Some (_, maps) \<Rightarrow> held os \<subseteq> held os' \<and> held (release_shm mops os' maps) = held os"
proof -
  note cases = map_create_cases [where n = "ucast SHARED_BUFFER_SIZE" and readOnly = False
      and createOk = "hostName = ascii ''sharedserver''"]
  note d = createSocketSharedMemory_def release_shm_def Let_def
  show ?thesis
  proof (cases rule: cases [where path = "cache_name ''@sharedserver'' port", OF assms(1), case_names none some])
    case (none os1 n1)
    note f = this
    show ?thesis
    proof (cases rule: cases [where path = "cache_name ''@sharedclient'' port", OF f(2), case_names none some])
      case (none os2 n2)
      with f assms(2) show ?thesis by (auto simp: d)
    next
      case (some os2 m n2)
      with f assms(2) release_map [OF some(2), of m] show ?thesis by (auto simp: d)
    qed
  next
    case (some os1 sm n1)
    note f = this
    show ?thesis
    proof (cases rule: cases [where path = "cache_name ''@sharedclient'' port", OF f(2), case_names none some])
      case (none os2 n2)
      with f assms(2) release_map [OF none(2), of sm] show ?thesis by (auto simp: d)
    next
      case (some os2 cm n2)
      note r1 = release_map [OF some(2), of cm]
      note r2 = release_map [OF conjunct1 [OF r1], of sm]
      from f(5) some(5) obtain sf cf where "map_base mops sm = Some sf" "map_base mops cm = Some cf" by auto
      with f some assms(2) r1 r2 show ?thesis by (auto simp: d)
    qed
  qed
qed

end

context posix_files begin

lemma posix_socket_holds:
  assumes "stdin_open opened os" and "createSocketSharedMemory (posix_maps calls) os hostName port = (os', r)"
  shows "case r of None \<Rightarrow> opened os' = opened os
    | Some (_, maps) \<Rightarrow> opened os \<subseteq> opened os' \<and> opened (release_shm (posix_maps calls) os' maps) = opened os"
  using assms by (rule shared_socket_holds)

end

text \<open>A system to test with, which keeps its open descriptors and has a file of 16384 bytes under every name.\<close>

definition table_calls :: "int list file_calls" where
  "table_calls =
     \<lparr>os_open = \<lambda>os path. let fd = 1 + sum_list (map abs os) in (fd, fd # os), os_length = \<lambda>os fd. 16384,
      os_mmap = \<lambda>os fd n. Mapped (ring_file []), os_close_file = \<lambda>os fd. filter (\<lambda>k. k \<noteq> fd) os\<rparr>"

lemma sum_list_abs_nonneg: "0 \<le> sum_list (map abs (ks :: int list))"
  by (induction ks) auto

lemma sum_list_abs: "k \<in> set ks \<Longrightarrow> \<bar>k :: int\<bar> \<le> sum_list (map abs ks)"
proof (induction ks)
  case (Cons a ks)
  then show ?case using sum_list_abs_nonneg [of ks] by auto
qed simp

interpretation table: posix_files table_calls set
proof (unfold_locales, goal_cases)
  case (1 os path os')
  with sum_list_abs_nonneg [of os] show ?case by (auto simp: table_calls_def Let_def)
next
  case (2 os path fd os')
  then show ?case using sum_list_abs [of fd os] sum_list_abs_nonneg [of os] by (auto simp: table_calls_def Let_def)
next
  case (3 os fd)
  show ?case by (auto simp: table_calls_def)
qed

section \<open>Properties\<close>



text \<open>A system on which both cache files can be opened and mapped, and what the files hold.\<close>

definition both_map ::
  "'o file_calls \<Rightarrow> 'o \<Rightarrow> int \<Rightarrow> u64 \<Rightarrow> shared_header \<Rightarrow> u64 \<Rightarrow> shared_header \<Rightarrow> bool" where
  "both_map calls os port n sf m cf \<longleftrightarrow>
     (\<exists>fd os1 fd2 os2. os_open calls os (cache_name ''@sharedserver'' port) = (fd, os1) \<and> fd \<noteq> -1
        \<and> os_length calls os1 fd = n \<and> os_mmap calls os1 fd n = Mapped sf
        \<and> os_open calls os1 (cache_name ''@sharedclient'' port) = (fd2, os2) \<and> fd2 \<noteq> -1
        \<and> os_length calls os2 fd2 = m \<and> os_mmap calls os2 fd2 m = Mapped cf)"

definition ring_sized :: "u64 \<Rightarrow> shared_header \<Rightarrow> bool" where
  "ring_sized n f \<longleftrightarrow> (let k = ucast n :: u32
     in sizeof_header < k \<and> k < 2 ^ 31 \<and> blk_size (mBaseMemory f) = unat (k - sizeof_header))"

lemma createSocketSharedMemory_maps:
  assumes "both_map calls os port n sf m cf" and "ring_sized n sf" and "ring_sized m cf"
  shows "map_option fst (snd (createSocketSharedMemory (posix_maps calls) os hostName port)) =
    Some (shm_create (hostName = ascii ''sharedserver'') sf cf (ucast n) (ucast m))"
proof -
  have "n \<noteq> 0" "m \<noteq> 0" using assms(2,3) by (auto simp: ring_sized_def Let_def)
  with assms(1) show ?thesis
    by (auto simp: both_map_def createSocketSharedMemory_def createMemoryMap_def new_MemoryMapImpl_def
        getBaseAddress_def getFileSize_def posix_maps_def Let_def)
qed

lemma ring_sized_nat:
  assumes "ring_sized n f"
  shows "0 < unat (ucast n - sizeof_header :: u32)" "unat (ucast n - sizeof_header :: u32) < 2 ^ 31"
    "blk_size (mBaseMemory f) = unat (ucast n - sizeof_header :: u32)" "sizeof_header < (ucast n :: u32)"
proof -
  have s: "sizeof_header < (ucast n :: u32)" "(ucast n :: u32) < 2 ^ 31" using assms by (auto simp: ring_sized_def Let_def)
  then show "0 < unat (ucast n - sizeof_header :: u32)" by (simp add: unat_gt_0)
  have "unat (ucast n - sizeof_header :: u32) \<le> unat (ucast n :: u32)"
    using s(1) by (simp add: unat_sub_if_size word_less_nat_alt)
  also have "\<dots> < 2 ^ 31" using s(2) by (simp add: word_less_nat_alt)
  finally show "unat (ucast n - sizeof_header :: u32) < 2 ^ 31" .
qed (use assms in \<open>auto simp: ring_sized_def Let_def\<close>)


text \<open>A system to test with, which counts the files it has opened.\<close>

definition cache_calls :: "shared_header \<Rightarrow> shared_header \<Rightarrow> nat file_calls" where
  "cache_calls sf cf =
     \<lparr>os_open = \<lambda>os path. (int os + 3, os + 1), os_length = \<lambda>os fd. 16384,
      os_mmap = \<lambda>os fd n. Mapped (if fd = 3 then sf else cf), os_close_file = \<lambda>os fd. os\<rparr>"

lemma both_map_cache_calls: "both_map (cache_calls sf cf) 0 port 16384 sf 16384 cf"
  by (simp add: both_map_def cache_calls_def)

lemma ring_sized_ring_file: "ring_sized 16384 (ring_file xs)"
  by (simp add: ring_sized_def ring_file_def sizeof_header_def word_less_nat_alt)


end
