(* ===== verification/OsFilesWindows.thy ===== *)
theory OsFilesWindows
  imports OsFiles
begin

unbundle bit_operations_syntax

text \<open>
  The Windows half of \<open>ext/easywsclient/MemoryMap.cpp\<close>. Handles are integers, \<open>INVALID_HANDLE_VALUE\<close>
  is -1 and the null handle 0. The calls of the system are a parameter over a state \<open>'o\<close>; the share
  mode and the attributes, which are the same in every call, are left out. \<open>malloc\<close> does not fail.
\<close>

section \<open>MemoryMapImpl on Windows\<close>

definition INVALID_HANDLE_VALUE :: int where "INVALID_HANDLE_VALUE = -1"
definition GENERIC_READ :: u32 where "GENERIC_READ = 0x80000000"
definition GENERIC_WRITE :: u32 where "GENERIC_WRITE = 0x40000000"
definition ONEMB :: nat where "ONEMB = 1024 * 1024"

datatype disposition = OPEN_EXISTING | CREATE_ALWAYS

text \<open>\<open>CreateFileA\<close>, \<open>GetFileSize\<close> (low and high word), \<open>WriteFile\<close>, \<open>CloseHandle\<close>, \<open>CreateFileMappingA\<close> and \<open>MapViewOfFile\<close>.\<close>

record 'o windows_calls =
  win_create :: "'o \<Rightarrow> u8 list \<Rightarrow> u32 \<Rightarrow> disposition \<Rightarrow> int \<times> 'o"
  win_size :: "'o \<Rightarrow> int \<Rightarrow> u32 \<times> u32"
  win_write :: "'o \<Rightarrow> int \<Rightarrow> u8 list \<Rightarrow> u32 \<times> 'o"
  win_close :: "'o \<Rightarrow> int \<Rightarrow> 'o"
  win_mapping :: "'o \<Rightarrow> int \<Rightarrow> bool \<Rightarrow> int \<times> 'o"
  win_view :: "'o \<Rightarrow> int \<Rightarrow> bool \<Rightarrow> shared_header option \<times> 'o"

record windows_map =
  mMapSize :: u64
  mMapFile :: int
  mMapHandle :: int
  win_mData :: "shared_header option"

text \<open>\<open>getFileSize(HANDLE)\<close>: the two words of the result on a little-endian machine.\<close>

definition handle_size :: "'o windows_calls \<Rightarrow> 'o \<Rightarrow> int \<Rightarrow> u64" where
  "handle_size calls os h = (let (lowSize, highSize) = win_size calls os h in ucast lowSize OR push_bit 32 (ucast highSize))"

text \<open>The size of the next chunk.\<close>

lemma chunk_size:
  assumes "0 < (n :: u64)"
  defines "w \<equiv> (if n \<ge> word_of_nat ONEMB then word_of_nat ONEMB else ucast n) :: u32"
  shows "0 < unat w" "unat w \<le> unat n" "unat (n - ucast w) = unat n - unat w"
proof -
  have mb: "unat (word_of_nat ONEMB :: u64) = 1048576" "unat (word_of_nat ONEMB :: u32) = 1048576"
    by (simp_all add: ONEMB_def)
  have w: "unat w = min (unat n) 1048576"
  proof (cases "n \<ge> word_of_nat ONEMB")
    case True
    then show ?thesis using mb by (simp add: w_def word_le_nat_alt)
  next
    case False
    then have "unat n < 1048576" using mb(1) by (simp add: word_le_nat_alt not_le)
    then show ?thesis using False by (simp add: w_def unsigned_ucast_eq take_bit_nat_eq_self)
  qed
  then show "0 < unat w" "unat w \<le> unat n" using assms(1) by (simp_all add: unat_gt_0)
  moreover have "unat w < 2 ^ 64" using w by simp
  then have "unat (ucast w :: u64) = unat w" by (simp add: unsigned_ucast_eq take_bit_nat_eq_self)
  ultimately show "unat (n - ucast w) = unat n - unat w" by (simp add: unat_sub_if_size word_le_nat_alt)
qed

text \<open>The loop that fills the file; what it leaves of \<open>writeSize\<close>.\<close>

function write_zeros :: "'o windows_calls \<Rightarrow> 'o \<Rightarrow> int \<Rightarrow> u64 \<Rightarrow> u64 \<times> 'o" where
  "write_zeros calls os h writeSize =
     (if writeSize > 0 then
        let w = (if writeSize \<ge> word_of_nat ONEMB then word_of_nat ONEMB else ucast writeSize) :: u32;
            (bytesWritten, os) = win_write calls os h (replicate (unat w) 0)
        in if bytesWritten \<noteq> w then (writeSize, os) else write_zeros calls os h (writeSize - ucast w)
      else (writeSize, os))"
  by pat_completeness auto

termination
proof (relation "measure (\<lambda>(_, _, _, n). unat n)", goal_cases)
  case (2 calls os h n w p bytesWritten os')
  with chunk_size [of n] show ?case by (simp split: if_splits)
qed simp

declare write_zeros.simps [simp del]

text \<open>
  The constructor in two halves: find the file, or make it, with what \<open>size\<close> becomes and \<open>fileOk\<close>; map it.
\<close>

definition open_windows_file ::
  "'o windows_calls \<Rightarrow> 'o \<Rightarrow> u8 list \<Rightarrow> u64 \<Rightarrow> bool \<Rightarrow> u64 \<times> bool \<times> 'o" where
  "open_windows_file calls os mappingObject n createOk =
     (if \<not> createOk then
        let (h, os) = win_create calls os mappingObject GENERIC_READ OPEN_EXISTING
        in if h \<noteq> INVALID_HANDLE_VALUE then (handle_size calls os h, True, win_close calls os h) else (n, False, os)
      else
        let (h, os) = win_create calls os mappingObject GENERIC_WRITE CREATE_ALWAYS
        in if h \<noteq> INVALID_HANDLE_VALUE then
             let (writeSize, os) = write_zeros calls os h n in (n, writeSize = 0, win_close calls os h)
           else (n, False, os))"

definition view_windows_file ::
  "'o windows_calls \<Rightarrow> 'o \<Rightarrow> u8 list \<Rightarrow> u64 \<Rightarrow> bool \<Rightarrow> 'o \<times> windows_map" where
  "view_windows_file calls os mappingObject n readOnly =
     (let flags = (if \<not> readOnly then GENERIC_READ OR GENERIC_WRITE else GENERIC_READ);
          none = \<lparr>mMapSize = n, mMapFile = 0, mMapHandle = 0, win_mData = None\<rparr>;
          (file, os) = win_create calls os mappingObject flags OPEN_EXISTING
      in if file \<noteq> INVALID_HANDLE_VALUE then
           let (mapping, os) = win_mapping calls os file readOnly
           in if mapping = INVALID_HANDLE_VALUE then (win_close calls os file, none\<lparr>mMapHandle := mapping\<rparr>)
              else
                let (view, os) = win_view calls os mapping readOnly
                in if view = None then (win_close calls (win_close calls os mapping) file, none)
                   else (os, \<lparr>mMapSize = n, mMapFile = file, mMapHandle = mapping, win_mData = view\<rparr>)
         else (os, none))"

definition new_windows_map ::
  "'o windows_calls \<Rightarrow> 'o \<Rightarrow> u8 list \<Rightarrow> u64 \<Rightarrow> bool \<Rightarrow> bool \<Rightarrow> 'o \<times> windows_map \<times> u64" where
  "new_windows_map calls os mappingObject n createOk readOnly =
     (let (n, fileOk, os) = open_windows_file calls os mappingObject n createOk
      in if fileOk then let (os, m) = view_windows_file calls os mappingObject n readOnly in (os, m, n)
         else (os, \<lparr>mMapSize = 0, mMapFile = 0, mMapHandle = 0, win_mData = None\<rparr>, n))"

definition release_windows_map :: "'o windows_calls \<Rightarrow> 'o \<Rightarrow> windows_map \<Rightarrow> 'o" where
  "release_windows_map calls os m =
     (let os = (if mMapHandle m \<noteq> INVALID_HANDLE_VALUE then win_close calls os (mMapHandle m) else os)
      in if mMapFile m \<noteq> INVALID_HANDLE_VALUE then win_close calls os (mMapFile m) else os)"

text \<open>\<open>createMemoryMap\<close> is compiled for both systems.\<close>

definition createWindowsMap ::
  "'o windows_calls \<Rightarrow> 'o \<Rightarrow> u8 list \<Rightarrow> u64 \<Rightarrow> bool \<Rightarrow> bool \<Rightarrow> 'o \<times> windows_map option \<times> u64" where
  "createWindowsMap calls os fileName n createOk readOnly =
     (let (os, m, n) = new_windows_map calls os fileName n createOk readOnly
      in if win_mData m = None then (release_windows_map calls os m, None, n) else (os, Some m, n))"

definition windows_maps :: "'o windows_calls \<Rightarrow> ('o, windows_map) map_ops" where
  "windows_maps calls =
     \<lparr>map_create = createWindowsMap calls, map_size = mMapSize, map_base = win_mData, map_release = release_windows_map calls\<rparr>"

section \<open>What the system documents\<close>

text \<open>
  \<open>content\<close> are the files and \<open>refers\<close> the open handles, with the file each is for. The handles that are used for
  writing have been opened by \<open>CREATE_ALWAYS\<close> and written to in sequence, so that \<open>WriteFile\<close> appends.
\<close>

locale windows_files =
  fixes calls :: "'o windows_calls"
    and content :: "'o \<Rightarrow> u8 list \<Rightarrow> u8 list option"
    and refers :: "'o \<Rightarrow> int \<Rightarrow> u8 list option"
  assumes create_fails: "win_create calls os path access d = (-1, os') \<Longrightarrow>
      refers os' = refers os \<and> content os' = content os"
    and create_opens: "win_create calls os path access d = (h, os') \<Longrightarrow> h \<noteq> -1 \<Longrightarrow>
      h \<noteq> 0 \<and> refers os h = None \<and> refers os' = (refers os)(h \<mapsto> path)
      \<and> (case d of CREATE_ALWAYS \<Rightarrow> content os' = (content os)(path \<mapsto> [])
           | OPEN_EXISTING \<Rightarrow> content os path \<noteq> None \<and> content os' = content os)"
    and size_of_file: "refers os h = Some path \<Longrightarrow> content os path = Some xs \<Longrightarrow>
      win_size calls os h = (word_of_nat (length xs), word_of_nat (length xs div 2 ^ 32))"
    and write_appends: "refers os h = Some path \<Longrightarrow> content os path = Some ys \<Longrightarrow> win_write calls os h xs = (n, os') \<Longrightarrow>
      refers os' = refers os \<and> unat n \<le> length xs \<and> content os' = (content os)(path \<mapsto> ys @ take (unat n) xs)"
    and close_handle: "refers (win_close calls os h) = (refers os)(h := None)" "content (win_close calls os h) = content os"
    and mapping_opens: "refers os h = Some path \<Longrightarrow> win_mapping calls os h readOnly = (m, os') \<Longrightarrow>
      content os' = content os \<and>
      (if m = 0 then refers os' = refers os else m \<noteq> -1 \<and> refers os m = None \<and> refers os' = (refers os)(m \<mapsto> path))"
    and view_keeps: "win_view calls os m readOnly = (v, os') \<Longrightarrow> refers os' = refers os \<and> content os' = content os"
    and view_null: "win_view calls os 0 readOnly = (v, os') \<Longrightarrow> v = None"

text \<open>The handles 0 and -1 are never in use.\<close>

definition real_handles :: "('o \<Rightarrow> int \<Rightarrow> u8 list option) \<Rightarrow> 'o \<Rightarrow> bool" where
  "real_handles refers os \<longleftrightarrow> refers os 0 = None \<and> refers os (-1) = None"

context windows_files begin

lemma write_zeros_spec:
  assumes "refers os h = Some path" and "content os path = Some ys" and "write_zeros calls os h n = (left, os')"
  shows "refers os' = refers os \<and> (\<exists>k. content os' = (content os)(path \<mapsto> ys @ replicate k 0) \<and> (left = 0 \<longrightarrow> k = unat n))"
  using assms
proof (induction "unat n" arbitrary: n os ys rule: less_induct)
  case less
  let ?w = "(if n \<ge> word_of_nat ONEMB then word_of_nat ONEMB else ucast n) :: u32"
  obtain m o1 where w: "win_write calls os h (replicate (unat ?w) 0) = (m, o1)" by (rule prod.exhaust)
  from write_appends [OF less.prems(1,2) w] have
    o1: "refers o1 = refers os" "content o1 = (content os)(path \<mapsto> ys @ replicate (unat m) 0)" "unat m \<le> unat ?w"
    by (auto simp: min_def)
  show ?case
  proof (cases "n > 0")
    case False
    with less.prems(3) have "left = n" "os' = os" by (simp_all add: write_zeros.simps [of calls os])
    with False less.prems(2) show ?thesis by (auto simp: word_gt_0 fun_upd_idem intro!: exI [of _ 0])
  next
    case True
    show ?thesis
    proof (cases "m = ?w")
      case False
      with True w less.prems(3) have "left = n" "os' = o1" by (simp_all add: write_zeros.simps [of calls os] Let_def)
      with True o1 show ?thesis by auto
    next
      case eq: True
      note c = chunk_size [OF True]
      have "write_zeros calls o1 h (n - ucast ?w) = (left, os')"
        using True w eq less.prems(3) by (simp add: write_zeros.simps [of calls os] Let_def)
      moreover have "unat (n - ucast ?w) < unat n" using c by simp
      moreover have "refers o1 h = Some path" "content o1 path = Some (ys @ replicate (unat m) 0)"
        using o1 less.prems(1) by simp_all
      ultimately have "refers os' = refers o1 \<and> (\<exists>k. content os' = (content o1)(path \<mapsto> (ys @ replicate (unat m) 0) @ replicate k 0)
          \<and> (left = 0 \<longrightarrow> k = unat (n - ucast ?w)))"
        by (rule less.hyps [rotated 3])
      then obtain k where k: "refers os' = refers o1" "content os' = (content o1)(path \<mapsto> (ys @ replicate (unat m) 0) @ replicate k 0)"
        "left = 0 \<longrightarrow> k = unat (n - ucast ?w)" by blast
      have "content os' = (content os)(path \<mapsto> ys @ replicate (unat m + k) 0)"
        using k(2) o1(2) by (simp add: replicate_add)
      moreover have "left = 0 \<longrightarrow> unat m + k = unat n" using k(3) c(2,3) eq by auto
      ultimately show ?thesis using k(1) o1(1) by auto
    qed
  qed
qed

lemma handle_size_spec:
  assumes "refers os h = Some path" and "content os path = Some xs"
  shows "handle_size calls os h = word_of_nat (length xs)"
proof -
  have "ucast (word_of_nat k :: u32) OR push_bit 32 (ucast (word_of_nat (k div 2 ^ 32) :: u32)) = (word_of_nat k :: u64)" for k
    unfolding drop_bit_eq_div [symmetric]
    by (rule bit_word_eqI) (auto simp: bit_simps)
  then show ?thesis using size_of_file [OF assms] by (simp add: handle_size_def)
qed

text \<open>The first half of the constructor: the file is there, with its size.\<close>

lemma open_windows_file_spec:
  assumes "open_windows_file calls os path n createOk = (n', ok, os')"
  shows "refers os' = refers os
    \<and> (ok \<longrightarrow> (if createOk then content os' = (content os)(path \<mapsto> replicate (unat n) 0) \<and> n' = n
         else content os' = content os \<and> (\<exists>xs. content os path = Some xs \<and> n' = word_of_nat (length xs))))"
proof (cases createOk)
  case False
  obtain h o1 where c: "win_create calls os path GENERIC_READ OPEN_EXISTING = (h, o1)" by (rule prod.exhaust)
  show ?thesis
  proof (cases "h = -1")
    case True
    with create_fails c False assms show ?thesis by (auto simp: open_windows_file_def INVALID_HANDLE_VALUE_def)
  next
    case h: False
    from create_opens [OF c h] obtain xs where o1: "refers os h = None" "refers o1 = (refers os)(h \<mapsto> path)"
      "content os path = Some xs" "content o1 = content os" by auto
    have "handle_size calls o1 h = word_of_nat (length xs)" by (rule handle_size_spec [of o1 h path]) (simp_all add: o1)
    moreover have "(refers os)(h := None) = refers os" using o1(1) by (simp add: fun_upd_idem)
    ultimately show ?thesis using False c h o1 assms close_handle
      by (auto simp: open_windows_file_def INVALID_HANDLE_VALUE_def)
  qed
next
  case True
  obtain h o1 where c: "win_create calls os path GENERIC_WRITE CREATE_ALWAYS = (h, o1)" by (rule prod.exhaust)
  obtain left o2 where z: "write_zeros calls o1 h n = (left, o2)" by (rule prod.exhaust)
  show ?thesis
  proof (cases "h = -1")
    case t: True
    with create_fails c True assms show ?thesis by (auto simp: open_windows_file_def INVALID_HANDLE_VALUE_def)
  next
    case h: False
    from create_opens [OF c h] have o1: "refers os h = None" "refers o1 = (refers os)(h \<mapsto> path)"
      "content o1 = (content os)(path \<mapsto> [])" by auto
    have "refers o2 = refers o1 \<and> (\<exists>k. content o2 = (content o1)(path \<mapsto> [] @ replicate k 0) \<and> (left = 0 \<longrightarrow> k = unat n))"
      by (rule write_zeros_spec [OF _ _ z]) (simp_all add: o1)
    then obtain k where "refers o2 = refers o1" "content o2 = (content os)(path \<mapsto> replicate k 0)" "left = 0 \<longrightarrow> k = unat n"
      using o1(3) by auto
    moreover have "(refers os)(h := None) = refers os" using o1(1) by (simp add: fun_upd_idem)
    ultimately show ?thesis using True c h z o1(2) assms close_handle
      by (auto simp: open_windows_file_def INVALID_HANDLE_VALUE_def)
  qed
qed

text \<open>The second half: two new handles and an address, or nothing.\<close>

lemma view_windows_file_spec:
  assumes real: "real_handles refers os" and v: "view_windows_file calls os path n readOnly = (os', m)"
  shows "content os' = content os \<and> mMapSize m = n
    \<and> (case win_mData m of
         None \<Rightarrow> refers os' = refers os \<and> mMapFile m = 0 \<and> mMapHandle m = 0
       | Some _ \<Rightarrow> mMapFile m \<noteq> mMapHandle m \<and> refers os (mMapFile m) = None \<and> refers os (mMapHandle m) = None
           \<and> mMapFile m \<notin> {0, -1} \<and> mMapHandle m \<notin> {0, -1}
           \<and> refers os' = (refers os)(mMapFile m \<mapsto> path, mMapHandle m \<mapsto> path))"
proof -
  note d = view_windows_file_def INVALID_HANDLE_VALUE_def
  define flags where "flags = (if \<not> readOnly then GENERIC_READ OR GENERIC_WRITE else GENERIC_READ)"
  obtain fh o2 where o2: "win_create calls os path flags OPEN_EXISTING = (fh, o2)" by (rule prod.exhaust)
  obtain mh o3 where o3: "win_mapping calls o2 fh readOnly = (mh, o3)" by (rule prod.exhaust)
  obtain w o4 where o4: "win_view calls o3 mh readOnly = (w, o4)" by (rule prod.exhaust)
  show ?thesis
  proof (cases "fh = -1")
    case True
    with v o2 have "os' = o2" "m = \<lparr>mMapSize = n, mMapFile = 0, mMapHandle = 0, win_mData = None\<rparr>"
      unfolding d flags_def [symmetric] by auto
    with True create_fails o2 show ?thesis by simp
  next
    case fh: False
    from create_opens [OF o2 fh] have f: "fh \<noteq> 0" "refers os fh = None" "refers o2 = (refers os)(fh \<mapsto> path)"
      "content o2 = content os" by auto
    have "refers o2 fh = Some path" using f(3) by simp
    from mapping_opens [OF this o3] f have g: "content o3 = content os"
      "mh = 0 \<and> refers o3 = refers o2 \<or>
       mh \<notin> {0, -1} \<and> mh \<noteq> fh \<and> refers os mh = None \<and> refers o3 = (refers o2)(mh \<mapsto> path)" by (auto split: if_splits)
    then have mh: "mh \<noteq> -1" by auto
    from view_keeps [OF o4] g(1) have k: "refers o4 = refers o3" "content o4 = content os" by simp_all
    show ?thesis
    proof (cases w)
      case None
      from v o2 o3 o4 fh mh None have r: "os' = win_close calls (win_close calls o4 mh) fh"
        "m = \<lparr>mMapSize = n, mMapFile = 0, mMapHandle = 0, win_mData = None\<rparr>"
        unfolding d flags_def [symmetric] by auto
      have "refers os' = (refers o3)(mh := None, fh := None)" using r(1) k(1) by (simp add: close_handle)
      also have "\<dots> = refers os" using g(2) f real by (auto simp: real_handles_def fun_eq_iff)
      finally show ?thesis using r k(2) by (simp add: close_handle)
    next
      case (Some a)
      then have "mh \<noteq> 0" using view_null o4 by blast
      with g(2) have "mh \<notin> {0, -1} \<and> mh \<noteq> fh \<and> refers os mh = None \<and> refers o3 = (refers o2)(mh \<mapsto> path)" by simp
      moreover from v o2 o3 o4 fh mh Some have "os' = o4"
        "m = \<lparr>mMapSize = n, mMapFile = fh, mMapHandle = mh, win_mData = Some a\<rparr>"
        unfolding d flags_def [symmetric] by auto
      ultimately show ?thesis using f fh k by auto
    qed
  qed
qed

lemma windows_map_spec:
  assumes real: "real_handles refers os" and c: "createWindowsMap calls os path n createOk readOnly = (os', r, n')"
  shows "case r of
      None \<Rightarrow> refers os' = refers os
    | Some m \<Rightarrow> mMapFile m \<noteq> mMapHandle m \<and> refers os (mMapFile m) = None \<and> refers os (mMapHandle m) = None
        \<and> mMapFile m \<notin> {0, -1} \<and> mMapHandle m \<notin> {0, -1}
        \<and> refers os' = (refers os)(mMapFile m \<mapsto> path, mMapHandle m \<mapsto> path) \<and> win_mData m \<noteq> None \<and> mMapSize m = n'
        \<and> (if createOk then content os' = (content os)(path \<mapsto> replicate (unat n) 0) \<and> n' = n
           else content os' = content os \<and> (\<exists>xs. content os path = Some xs \<and> n' = word_of_nat (length xs)))"
proof -
  have none: "refers (win_close calls (win_close calls o2 0) 0) = refers os" if "refers o2 = refers os" for o2
    using that real by (simp add: close_handle real_handles_def fun_upd_idem)
  obtain k ok o1 where f: "open_windows_file calls os path n createOk = (k, ok, o1)" by (rule prod_cases3)
  note files = open_windows_file_spec [OF f]
  obtain o2 m where v: "view_windows_file calls o1 path k readOnly = (o2, m)" by (rule prod.exhaust)
  have "real_handles refers o1" using real files by (simp add: real_handles_def)
  note view = view_windows_file_spec [OF this v]
  note d = createWindowsMap_def new_windows_map_def release_windows_map_def INVALID_HANDLE_VALUE_def
  show ?thesis
  proof (cases ok)
    case False
    with c f have "os' = win_close calls (win_close calls o1 0) 0" "r = None" by (simp_all add: d)
    with none [of o1] files show ?thesis by simp
  next
    case ok: True
    show ?thesis
    proof (cases "win_mData m")
      case None
      with view have z: "mMapHandle m = 0" "mMapFile m = 0" "refers o2 = refers os" using files by simp_all
      with c f v ok None have "os' = win_close calls (win_close calls o2 0) 0" "r = None" by (simp_all add: d)
      with none [of o2] z(3) show ?thesis by simp
    next
      case (Some a)
      with c f v ok have "os' = o2" "r = Some m" "n' = k" by (simp_all add: d)
      with Some view files ok show ?thesis by simp
    qed
  qed
qed

end

sublocale windows_files \<subseteq> map_contract "windows_maps calls" "real_handles refers" "\<lambda>os. dom (refers os)"
    "\<lambda>m. {mMapFile m, mMapHandle m} - {0, -1}"
proof (unfold_locales, goal_cases)
  case (1 os path n createOk readOnly os' n')
  from windows_map_spec [OF 1(1), of path n createOk readOnly os' None n'] 1 show ?case
    by (simp add: windows_maps_def real_handles_def)
next
  case (2 os path n createOk readOnly os' m n')
  from windows_map_spec [OF 2(1), of path n createOk readOnly os' "Some m" n'] 2 show ?case
    by (auto simp: windows_maps_def real_handles_def)
next
  case (3 os m)
  then show ?case by (auto simp: windows_maps_def release_windows_map_def INVALID_HANDLE_VALUE_def close_handle real_handles_def)
qed

context windows_files begin

lemma windows_socket_holds:
  assumes "real_handles refers os" and "createSocketSharedMemory (windows_maps calls) os hostName port = (os', r)"
  shows "case r of None \<Rightarrow> dom (refers os') = dom (refers os)
    | Some (_, maps) \<Rightarrow> dom (refers os) \<subseteq> dom (refers os')
        \<and> dom (refers (release_shm (windows_maps calls) os' maps)) = dom (refers os)"
  using assms by (rule shared_socket_holds)

end

section \<open>A system to test with\<close>

record disk =
  disk_files :: "u8 list \<Rightarrow> u8 list option"
  disk_handles :: "(int \<times> u8 list) list"

definition fresh_handle :: "(int \<times> u8 list) list \<Rightarrow> int" where
  "fresh_handle hs = 1 + sum_list (map (\<lambda>(h, _). abs h) hs)"

lemma fresh_handle: "0 < fresh_handle hs" "map_of hs (fresh_handle hs) = None"
proof -
  have nonneg: "0 \<le> sum_list (map (\<lambda>(h, _). abs h) hs)" for hs :: "(int \<times> u8 list) list"
    by (induction hs) auto
  then show "0 < fresh_handle hs" unfolding fresh_handle_def by (simp add: add_pos_nonneg)
  have "abs h < fresh_handle hs" if "(h, p) \<in> set hs" for h p using that
  proof (induction hs)
    case (Cons a hs)
    then show ?case using nonneg [of hs] by (cases a) (auto simp: fresh_handle_def)
  qed simp
  then show "map_of hs (fresh_handle hs) = None" by (fastforce simp: map_of_eq_None_iff)
qed

definition disk_calls :: "disk windows_calls" where
  "disk_calls =
     \<lparr>win_create = \<lambda>d path access disp.
        let h = fresh_handle (disk_handles d); opened = d\<lparr>disk_handles := (h, path) # disk_handles d\<rparr>
        in (case disp of
              CREATE_ALWAYS \<Rightarrow> (h, opened\<lparr>disk_files := (disk_files d)(path \<mapsto> [])\<rparr>)
            | OPEN_EXISTING \<Rightarrow> if disk_files d path = None then (-1, d) else (h, opened)),
      win_size = \<lambda>d h. (case Option.bind (map_of (disk_handles d) h) (disk_files d) of
        None \<Rightarrow> (0, 0) | Some xs \<Rightarrow> (word_of_nat (length xs), word_of_nat (length xs div 2 ^ 32))),
      win_write = \<lambda>d h xs. (case map_of (disk_handles d) h of
        None \<Rightarrow> (0, d)
      | Some path \<Rightarrow> (case disk_files d path of
          None \<Rightarrow> (0, d)
        | Some ys \<Rightarrow>
            let n = word_of_nat (min (length xs) 1048576) :: u32
            in (n, d\<lparr>disk_files := (disk_files d)(path \<mapsto> ys @ take (unat n) xs)\<rparr>))),
      win_close = \<lambda>d h. d\<lparr>disk_handles := filter (\<lambda>(k, _). k \<noteq> h) (disk_handles d)\<rparr>,
      win_mapping = \<lambda>d h readOnly. (case map_of (disk_handles d) h of
        None \<Rightarrow> (0, d)
      | Some path \<Rightarrow> let m = fresh_handle (disk_handles d) in (m, d\<lparr>disk_handles := (m, path) # disk_handles d\<rparr>)),
      win_view = \<lambda>d m readOnly. (if m = 0 then None else Some (ring_file []), d)\<rparr>"

abbreviation disk_refers :: "disk \<Rightarrow> int \<Rightarrow> u8 list option" where
  "disk_refers d \<equiv> map_of (disk_handles d)"

lemma map_of_filter_key: "map_of (filter (\<lambda>(k, _). k \<noteq> h) hs) = (map_of hs)(h := None)"
  by (induction hs) (auto simp: fun_eq_iff)

interpretation disk: windows_files disk_calls disk_files disk_refers
proof (unfold_locales, goal_cases)
  case (1 os path access d os')
  then show ?case using fresh_handle(1) [of "disk_handles os"]
    by (cases d) (auto simp: disk_calls_def Let_def split: if_splits)
next
  case (2 os path access d h os')
  then show ?case using fresh_handle [of "disk_handles os"]
    by (cases d) (auto simp: disk_calls_def Let_def split: if_splits)
next
  case (4 os h path ys xs n os')
  have "unat (word_of_nat (min (length xs) 1048576) :: u32) = min (length xs) 1048576"
    by (rule unat_of_nat_u32) simp
  with 4 show ?case by (auto simp: disk_calls_def Let_def)
next
  case (7 os h path readOnly m os')
  then show ?case using fresh_handle [of "disk_handles os"] by (auto simp: disk_calls_def Let_def)
qed (auto simp: disk_calls_def Let_def map_of_filter_key split: disposition.splits if_splits)

lemma disk_write:
  "disk_refers d h = Some path \<Longrightarrow> disk_files d path = Some ys \<Longrightarrow> length xs \<le> 1048576 \<Longrightarrow>
    win_write disk_calls d h xs = (word_of_nat (length xs), d\<lparr>disk_files := (disk_files d)(path \<mapsto> ys @ xs)\<rparr>)"
  by (simp add: disk_calls_def Let_def min_def)

lemma disk_simps:
  "win_create disk_calls d path access CREATE_ALWAYS =
    (fresh_handle (disk_handles d), d\<lparr>disk_handles := (fresh_handle (disk_handles d), path) # disk_handles d,
       disk_files := (disk_files d)(path \<mapsto> [])\<rparr>)"
  "disk_files d path = Some xs \<Longrightarrow> win_create disk_calls d path access OPEN_EXISTING =
    (fresh_handle (disk_handles d), d\<lparr>disk_handles := (fresh_handle (disk_handles d), path) # disk_handles d\<rparr>)"
  "win_close disk_calls d h = d\<lparr>disk_handles := filter (\<lambda>(k, _). k \<noteq> h) (disk_handles d)\<rparr>"
  "disk_refers d h = Some path \<Longrightarrow> win_mapping disk_calls d h readOnly =
    (fresh_handle (disk_handles d), d\<lparr>disk_handles := (fresh_handle (disk_handles d), path) # disk_handles d\<rparr>)"
  "win_view disk_calls d m readOnly = (if m = 0 then None else Some (ring_file []), d)"
  by (simp_all add: disk_calls_def Let_def)

section \<open>Properties\<close>



text \<open>C27. Opening a shared-memory socket loses no descriptor and no handle, on either system: when the factory answers null
  everything it had opened is closed again, and deleting a socket it answered closes everything the socket held.\<close>
theorem shared_socket_gives_back:
  assumes "posix_files pcalls opened" and "stdin_open opened po"
    and "createSocketSharedMemory (posix_maps pcalls) po host port = (po', pr)"
    and "windows_files wcalls content refers" and "real_handles refers wo"
    and "createSocketSharedMemory (windows_maps wcalls) wo host port = (wo', wr)"
  shows "(case pr of None \<Rightarrow> opened po' = opened po
      | Some (_, maps) \<Rightarrow> opened po \<subseteq> opened po' \<and> opened (release_shm (posix_maps pcalls) po' maps) = opened po)
    \<and> (case wr of None \<Rightarrow> dom (refers wo') = dom (refers wo)
      | Some (_, maps) \<Rightarrow> dom (refers wo) \<subseteq> dom (refers wo')
          \<and> dom (refers (release_shm (windows_maps wcalls) wo' maps)) = dom (refers wo))"
  using posix_files.posix_socket_holds [OF assms(1-3)] windows_files.windows_socket_holds [OF assms(4-6)] by simp

lemma shared_socket_gives_back_witness:
  "\<exists>po' pr wo' wr. createSocketSharedMemory (posix_maps table_calls) [0] (ascii ''sharedserver'') 3009 = (po', pr)
     \<and> createSocketSharedMemory (windows_maps disk_calls) \<lparr>disk_files = \<lambda>_. None, disk_handles = []\<rparr> (ascii ''sharedserver'') 3009
       = (wo', wr)
     \<and> (case pr of None \<Rightarrow> set po' = {0} | Some (_, maps) \<Rightarrow> set (release_shm (posix_maps table_calls) po' maps) = {0})
     \<and> (case wr of None \<Rightarrow> dom (disk_refers wo') = {}
        | Some (_, maps) \<Rightarrow> dom (disk_refers (release_shm (windows_maps disk_calls) wo' maps)) = {})"
proof -
  let ?d = "\<lparr>disk_files = \<lambda>_. None, disk_handles = []\<rparr> :: disk" and ?host = "ascii ''sharedserver''"
  obtain po' pr where p: "createSocketSharedMemory (posix_maps table_calls) [0] ?host 3009 = (po', pr)" by (rule prod.exhaust)
  obtain wo' wr where w: "createSocketSharedMemory (windows_maps disk_calls) ?d ?host 3009 = (wo', wr)" by (rule prod.exhaust)
  have "stdin_open set [0]" "real_handles disk_refers ?d" by (simp_all add: stdin_open_def real_handles_def)
  note t = shared_socket_gives_back [OF table.posix_files_axioms this(1) p disk.windows_files_axioms this(2) w]
  show ?thesis
    by (intro exI conjI, rule p, rule w) (use t in \<open>auto split: option.splits\<close>)
qed

end
