(* ===== verification/InputLine.thy ===== *)
theory InputLine
  imports Prelude
begin

text \<open>
  \<open>src/InputLine.cpp\<close>: lines typed at the console, read by a worker thread and handed to the main
  thread by polling. Both threads are sequences of steps over the shared members, interleaved in
  any order; \<open>fgets\<close> works on the bytes that will be typed. The worker does not take the mutex,
  so that it plays no part in the model, and the sleep of the worker is a step that does nothing.
\<close>

section \<open>The code\<close>

definition MAX_INPUT :: nat where "MAX_INPUT = 512"

text \<open>\<open>fgets\<close>: up to \<open>n\<close> bytes, ending behind the first line feed; null at the end of the input.\<close>

fun line_of :: "nat \<Rightarrow> u8 list \<Rightarrow> u8 list" where
  "line_of 0 s = []"
| "line_of (Suc n) [] = []"
| "line_of (Suc n) (c # s) = (if c = 0x0A then [c] else c # line_of n s)"

lemma line_of_eq:
  "0 < n \<Longrightarrow> line_of n (c # s) = (if c = 0x0A then [c] else c # line_of (n - 1) s)"
  by (cases n) simp_all

definition fgets :: "nat \<Rightarrow> u8 list \<Rightarrow> (u8 list \<times> u8 list) option" where
  "fgets n s = (if s = [] then None else Some (line_of (n - 1) s, drop (length (line_of (n - 1) s)) s))"

definition c_string :: "u8 list \<Rightarrow> u8 list" where
  "c_string s = takeWhile (\<lambda>c. c \<noteq> 0) s"

text \<open>The copy in \<open>getInputLine\<close> loses the line feed at its end.\<close>

definition strip_newline :: "u8 list \<Rightarrow> u8 list" where
  "strip_newline s = (if s \<noteq> [] \<and> last s = 0x0A then butlast s else s)"

record input_line =
  il_stdin :: "u8 list"
  mInputBuffer :: "u8 list"
  mResultBuffer :: "u8 list"
  mExit :: bool
  mHaveNewData :: bool

text \<open>Where the worker and a call of \<open>getInputLine\<close> stand.\<close>

datatype worker = Worker_loop | Worker_test | Worker_clear | Worker_fgets | Worker_publish | Worker_exit
datatype caller = Caller_idle | Caller_copy | Caller_strip | Caller_reset

datatype line_event = Nothing | Typed "u8 list" | Returned "u8 list option"

inductive worker_step :: "input_line \<times> worker \<Rightarrow> line_event \<Rightarrow> input_line \<times> worker \<Rightarrow> bool" where
  worker_loop: "worker_step (s, Worker_loop) Nothing (s, if mExit s then Worker_exit else Worker_test)"
| worker_test: "worker_step (s, Worker_test) Nothing (s, if mHaveNewData s then Worker_loop else Worker_clear)"
| worker_clear: "worker_step (s, Worker_clear) Nothing (s\<lparr>mInputBuffer := []\<rparr>, Worker_fgets)"
| worker_eof: "fgets MAX_INPUT (il_stdin s) = None \<Longrightarrow>
    worker_step (s, Worker_fgets) Nothing (s, Worker_loop)"
| worker_empty: "fgets MAX_INPUT (il_stdin s) = Some (l, rest) \<Longrightarrow> c_string l = [] \<Longrightarrow>
    worker_step (s, Worker_fgets) Nothing (s\<lparr>il_stdin := rest, mInputBuffer := l\<rparr>, Worker_loop)"
| worker_line: "fgets MAX_INPUT (il_stdin s) = Some (l, rest) \<Longrightarrow> c_string l \<noteq> [] \<Longrightarrow>
    worker_step (s, Worker_fgets) (Typed l) (s\<lparr>il_stdin := rest, mInputBuffer := l\<rparr>, Worker_publish)"
| worker_publish: "worker_step (s, Worker_publish) Nothing (s\<lparr>mHaveNewData := True\<rparr>, Worker_loop)"

inductive caller_step :: "input_line \<times> caller \<Rightarrow> line_event \<Rightarrow> input_line \<times> caller \<Rightarrow> bool" where
  caller_none: "\<not> mHaveNewData s \<Longrightarrow> caller_step (s, Caller_idle) (Returned None) (s, Caller_idle)"
| caller_some: "mHaveNewData s \<Longrightarrow> caller_step (s, Caller_idle) Nothing (s, Caller_copy)"
| caller_copy: "caller_step (s, Caller_copy) Nothing (s\<lparr>mResultBuffer := c_string (mInputBuffer s)\<rparr>, Caller_strip)"
| caller_strip: "caller_step (s, Caller_strip) Nothing
    (s\<lparr>mResultBuffer := strip_newline (mResultBuffer s)\<rparr>, Caller_reset)"
| caller_reset: "caller_step (s, Caller_reset) (Returned (Some (mResultBuffer s)))
    (s\<lparr>mHaveNewData := False\<rparr>, Caller_idle)"
| caller_release: "caller_step (s, Caller_idle) Nothing (s\<lparr>mExit := True\<rparr>, Caller_idle)"

inductive input_step ::
  "input_line \<times> worker \<times> caller \<Rightarrow> line_event \<Rightarrow> input_line \<times> worker \<times> caller \<Rightarrow> bool" where
  worker_moves: "worker_step (s, w) e (s', w') \<Longrightarrow> input_step (s, w, c) e (s', w', c)"
| caller_moves: "caller_step (s, c) e (s', c') \<Longrightarrow> input_step (s, w, c) e (s', w, c')"

inductive input_run ::
  "input_line \<times> worker \<times> caller \<Rightarrow> line_event list \<Rightarrow> input_line \<times> worker \<times> caller \<Rightarrow> bool" for s where
  input_start: "input_run s [] s"
| input_next: "input_run s es s' \<Longrightarrow> input_step s' e s'' \<Longrightarrow> input_run s (es @ [e]) s''"

definition new_input_line :: "u8 list \<Rightarrow> input_line" where
  "new_input_line input =
     \<lparr>il_stdin = input, mInputBuffer = [], mResultBuffer = [], mExit = False, mHaveNewData = False\<rparr>"

inductive_cases worker_stepE: "worker_step (s, w) e (s', w')"
inductive_cases caller_stepE: "caller_step (s, c) e (s', c')"

lemmas worker_cases = worker_stepE [consumes 1, case_names loop test clear eof empty line publish]
lemmas caller_cases = caller_stepE [consumes 1, case_names none some copy strip reset release]

section \<open>The hand-over\<close>

fun typed_line :: "line_event \<Rightarrow> u8 list list" where
  "typed_line (Typed l) = [l]"
| "typed_line _ = []"

fun returned_line :: "line_event \<Rightarrow> u8 list list" where
  "returned_line (Returned (Some l)) = [l]"
| "returned_line _ = []"

definition typed :: "line_event list \<Rightarrow> u8 list list" where "typed es = concat (map typed_line es)"
definition returned :: "line_event list \<Rightarrow> u8 list list" where "returned es = concat (map returned_line es)"

lemma event_lists [simp]:
  "typed [] = []" "returned [] = []" "typed (es @ [e]) = typed es @ typed_line e"
  "returned (es @ [e]) = returned es @ returned_line e"
  by (simp_all add: typed_def returned_def)

definition delivered_form :: "u8 list \<Rightarrow> u8 list" where
  "delivered_form l = strip_newline (c_string l)"

definition writes_input :: "worker \<Rightarrow> bool" where
  "writes_input w \<longleftrightarrow> w = Worker_clear \<or> w = Worker_fgets \<or> w = Worker_publish"

text \<open>The line on its way: published, or about to be.\<close>

definition on_its_way :: "input_line \<Rightarrow> worker \<Rightarrow> u8 list list" where
  "on_its_way s w = (if mHaveNewData s \<or> w = Worker_publish then [delivered_form (mInputBuffer s)] else [])"

fun hand_over :: "input_line \<times> worker \<times> caller \<Rightarrow> bool" where
  "hand_over (s, w, c) \<longleftrightarrow>
     (writes_input w \<longrightarrow> \<not> mHaveNewData s) \<and> (c \<noteq> Caller_idle \<longrightarrow> mHaveNewData s)
     \<and> (c = Caller_strip \<longrightarrow> mResultBuffer s = c_string (mInputBuffer s))
     \<and> (c = Caller_reset \<longrightarrow> mResultBuffer s = delivered_form (mInputBuffer s))"

lemma worker_step_hand_over:
  assumes "worker_step (s, w) e (s', w')" and "hand_over (s, w, c)"
  shows "hand_over (s', w', c) \<and> returned_line e = []
    \<and> on_its_way s w @ map delivered_form (typed_line e) = on_its_way s' w'"
  using assms(1)
proof (cases rule: worker_cases)
  case test
  with assms(2) show ?thesis by (cases "mHaveNewData s") (auto simp: writes_input_def on_its_way_def)
next
  case (empty l rest)
  with assms(2) show ?thesis by (cases c) (auto simp: writes_input_def on_its_way_def)
next
  case (line l rest)
  with assms(2) show ?thesis by (cases c) (auto simp: writes_input_def on_its_way_def)
qed (use assms(2) in \<open>cases c; simp add: writes_input_def on_its_way_def; fail\<close>)+

lemma caller_step_hand_over:
  assumes "caller_step (s, c) e (s', c')" and "hand_over (s, w, c)"
  shows "hand_over (s', w, c') \<and> typed_line e = [] \<and> on_its_way s w = returned_line e @ on_its_way s' w"
  using assms(1)
proof (cases rule: caller_cases)
  case reset
  with assms(2) show ?thesis by (cases w) (auto simp: writes_input_def on_its_way_def)
qed (use assms(2) in \<open>cases w; simp add: writes_input_def on_its_way_def delivered_form_def; fail\<close>)+

text \<open>C30. Every line typed at the console is handed over exactly once, in order and without its line feed, whatever
  the interleaving of the two threads: the lines \<open>fgets\<close> read are the lines that were returned and at most
  one more, which is on its way. The worker never writes the input buffer while it is being copied.\<close>
theorem lines_handed_over:
  assumes "input_run (new_input_line input, Worker_loop, Caller_idle) es (s, w, c)"
  shows "map delivered_form (typed es) = returned es @ on_its_way s w
    \<and> \<not> (writes_input w \<and> c \<noteq> Caller_idle)"
proof -
  have "hand_over s' \<and> map delivered_form (typed es) = returned es @ on_its_way (fst s') (fst (snd s'))"
    if "input_run (new_input_line input, Worker_loop, Caller_idle) es s'" for es s' using that
  proof induction
    case input_start
    then show ?case by (simp add: new_input_line_def writes_input_def on_its_way_def)
  next
    case (input_next es s' e s'')
    obtain s1 w1 c1 where s': "s' = (s1, w1, c1)" by (cases s')
    with input_next(3) have h: "hand_over (s1, w1, c1)"
      and IH: "map delivered_form (typed es) = returned es @ on_its_way s1 w1" by simp_all
    from input_next(2) [unfolded s'] show ?case
    proof cases
      case (worker_moves s2 w2)
      from worker_step_hand_over [OF worker_moves(2) h] IH show ?thesis
        by (simp add: worker_moves(1) del: hand_over.simps)
    next
      case (caller_moves s2 c2)
      from caller_step_hand_over [OF caller_moves(2) h] IH show ?thesis
        by (simp add: caller_moves(1) del: hand_over.simps)
    qed
  qed
  from this [OF assms] show ?thesis by auto
qed

lemma lines_handed_over_witness:
  "\<exists>es s. input_run (new_input_line [104, 105, 10], Worker_loop, Caller_idle) es (s, Worker_loop, Caller_idle)
    \<and> returned es = [[104, 105]]"
proof -
  let ?start = "(new_input_line [104, 105, 10], Worker_loop, Caller_idle)"
  have f: "fgets MAX_INPUT [104, 105, 10] = Some ([104, 105, 10], [])"
    by (simp add: fgets_def MAX_INPUT_def line_of_eq)
  let ?s0 = "\<lparr>il_stdin = [104, 105, 10], mInputBuffer = [], mResultBuffer = [], mExit = False, mHaveNewData = False\<rparr>"
  let ?s1 = "?s0\<lparr>il_stdin := [], mInputBuffer := [104, 105, 10]\<rparr>"
  let ?s2 = "?s1\<lparr>mHaveNewData := True\<rparr>"
  let ?s3 = "?s2\<lparr>mResultBuffer := [104, 105, 10]\<rparr>"
  let ?s4 = "?s2\<lparr>mResultBuffer := [104, 105]\<rparr>"
  have step: "input_run ?start (es @ [e]) s''" if "input_run ?start es s'" "input_step s' e s''" for es s' e s''
    by (rule input_next [OF that])
  have "input_run ?start [] (?s0, Worker_loop, Caller_idle)"
    using input_start [of ?start] by (simp add: new_input_line_def)
  from step [OF this worker_moves [OF worker_loop]]
  have "input_run ?start [Nothing] (?s0, Worker_test, Caller_idle)" by simp
  from step [OF this worker_moves [OF worker_test]]
  have "input_run ?start [Nothing, Nothing] (?s0, Worker_clear, Caller_idle)" by simp
  from step [OF this worker_moves [OF worker_clear]]
  have "input_run ?start [Nothing, Nothing, Nothing] (?s0, Worker_fgets, Caller_idle)" by simp
  from step [OF this worker_moves [OF worker_line [of _ "[104, 105, 10]" "[]"]]] f
  have "input_run ?start [Nothing, Nothing, Nothing, Typed [104, 105, 10]] (?s1, Worker_publish, Caller_idle)"
    by (simp add: c_string_def)
  from step [OF this worker_moves [OF worker_publish]]
  have "\<exists>es. input_run ?start es (?s2, Worker_loop, Caller_idle) \<and> returned es = []"
    by (intro exI) (auto simp: returned_def)
  then obtain es where "input_run ?start es (?s2, Worker_loop, Caller_idle)" "returned es = []" by blast
  then have "input_run ?start (es @ [Nothing]) (?s2, Worker_loop, Caller_copy)" "returned (es @ [Nothing]) = []"
    using step [OF _ caller_moves [OF caller_some]] by auto
  from step [OF this(1) caller_moves [OF caller_copy]] this(2)
  have "input_run ?start (es @ [Nothing, Nothing]) (?s3, Worker_loop, Caller_strip)"
    "returned (es @ [Nothing, Nothing]) = []" by (simp_all add: c_string_def returned_def)
  from step [OF this(1) caller_moves [OF caller_strip]] this(2)
  have "input_run ?start (es @ [Nothing, Nothing, Nothing]) (?s4, Worker_loop, Caller_reset)"
    "returned (es @ [Nothing, Nothing, Nothing]) = []" by (simp_all add: strip_newline_def returned_def)
  from step [OF this(1) caller_moves [OF caller_reset]] this(2)
  have "\<exists>es s. input_run ?start (es @ [Returned (Some [104, 105])]) (s, Worker_loop, Caller_idle) \<and> returned es = []"
    by (intro exI [of _ "es @ [Nothing, Nothing, Nothing]"]) auto
  then obtain es s where r: "input_run ?start (es @ [Returned (Some [104, 105])]) (s, Worker_loop, Caller_idle)"
    "returned es = []" by blast
  with lines_handed_over [OF r(1)] show ?thesis
    by (intro exI [of _ "es @ [Returned (Some [104, 105])]"] exI [of _ s]) simp
qed

end
