(* ===== verification/TestSharedMemory.thy ===== *)
theory TestSharedMemory
  imports OsFiles Timer
begin

text \<open>
  \<open>app/TestClient/TestSharedMemory.cpp\<close>: a writer thread that puts random words on lines into a
  ring in a mapped file, and a reader that takes random numbers of bytes out of it. The random
  numbers are arguments; the file is the ring of \<open>SPSC\<close>.
\<close>

section \<open>The code\<close>

definition gSampleStrings :: "u8 list list" where
  "gSampleStrings = map ascii [''one'', ''two'', ''three'', ''four'', ''five'', ''six'', ''seven'', ''eight'', ''nine'', ''ten'']"

definition TEST_BUFFER_SIZE :: u32 where "TEST_BUFFER_SIZE = 256"

record test_memory =
  mIndex :: u32
  mReader :: spsc
  mWriter :: spsc
  mMemoryMap :: shared_header

text \<open>The constructor: no file, no test. The map, which the destructor releases, is answered beside the object.\<close>

definition new_test_memory :: "('o, 'm) map_ops \<Rightarrow> 'o \<Rightarrow> 'o \<times> ('m \<times> test_memory) option" where
  "new_test_memory mops os =
     (let (os, m, _) = map_create mops os (ascii ''sharedmemorytest.bin'') (ucast TEST_BUFFER_SIZE) True False
      in (os, case m of
            None \<Rightarrow> None
          | Some m \<Rightarrow>
              (case map_base mops m of
                 None \<Rightarrow> None
               | Some file \<Rightarrow>
                   let (_, w, file) = spsc_init spsc_new file (ucast (map_size mops m)) True True;
                       (_, r, file) = spsc_init spsc_new file (ucast (map_size mops m)) False True
                   in Some (m, \<lparr>mIndex = 0, mReader = r, mWriter = w, mMemoryMap = file\<rparr>))))"

definition writeString :: "nat \<Rightarrow> test_memory \<Rightarrow> test_memory result" where
  "writeString rnd t =
     (let str = gSampleStrings ! (rnd mod 10); slen = word_of_nat (length str) :: u32
      in ebind (spsc_capacity (mWriter t) (mMemoryMap t)) (\<lambda>room.
         if room \<ge> slen + 2 then
           ebind (spsc_write (mWriter t) (mMemoryMap t) (bytes_ptr str) slen) (\<lambda>(_, file).
           ebind (spsc_write (mWriter t) file (bytes_ptr [0x0D, 0x0A]) 2) (\<lambda>(_, file).
             Inr (t\<lparr>mMemoryMap := file, mIndex := mIndex t + 1\<rparr>)))
         else Inr t))"

text \<open>One pass through the loop of \<open>run\<close>: the bytes that are printed.\<close>

definition readString :: "nat \<Rightarrow> test_memory \<Rightarrow> (u8 list \<times> test_memory) result" where
  "readString rnd t =
     ebind (spsc_read (mReader t) (mMemoryMap t) (word_of_nat (rnd mod 60 + 1))) (\<lambda>(temp, file).
       Inr (temp, t\<lparr>mMemoryMap := file\<rparr>))"

section \<open>Properties\<close>

lemma sample_length: "length (gSampleStrings ! (rnd mod 10)) \<le> 5"
proof -
  have "gSampleStrings ! (rnd mod 10) \<in> set gSampleStrings"
    by (rule nth_mem) (simp add: gSampleStrings_def)
  moreover have "\<forall>s \<in> set gSampleStrings. length s \<le> 5" by (simp add: gSampleStrings_def)
  ultimately show ?thesis by blast
qed

lemma ring_room:
  "ring_inv q sh \<Longrightarrow> mIsWriter q \<Longrightarrow> length xs < 2 ^ 31 \<Longrightarrow>
   \<exists>k sh'. spsc_write q sh (bytes_ptr xs) (word_of_nat (length xs)) = Inr (k, sh') \<and> ring_inv q sh'
     \<and> ring_contents q sh' =
         ring_contents q sh @ take (unat (mCapacity q) - length (ring_contents q sh) - 2) xs"
proof -
  assume a: "ring_inv q sh" "mIsWriter q" "length xs < 2 ^ 31"
  then have n: "unat (word_of_nat (length xs) :: u32) = length xs" by (intro unat_of_nat_u32) simp
  have "take (min (length xs) i) xs = take i xs" for i by (simp add: min_def)
  with spsc_write_spec [OF a(1,2), of "bytes_ptr xs" "word_of_nat (length xs)" xs] n show ?thesis
    by (auto simp: write_count_def simp del: length_ring_contents)
qed

text \<open>\<open>writeString\<close> is meant to write a string only when there is room for the whole of it. It writes the string and
  its line end when \<open>capacity\<close> is larger than they need and nothing when it is smaller; when it is equal
  the line feed is lost, since \<open>write\<close> takes one byte less than \<open>capacity\<close> promises.\<close>
lemma writeString_cuts_line:
  assumes "ring_inv (mWriter t) (mMemoryMap t)" and "mIsWriter (mWriter t)"
    and "str = gSampleStrings ! (rnd mod 10)" and "spsc_capacity (mWriter t) (mMemoryMap t) = Inr room"
  shows "\<exists>t'. writeString rnd t = Inr t' \<and> mWriter t' = mWriter t \<and> ring_inv (mWriter t) (mMemoryMap t')
    \<and> ring_contents (mWriter t) (mMemoryMap t') = ring_contents (mWriter t) (mMemoryMap t) @
        (if unat room > length str + 2 then str @ [0x0D, 0x0A]
         else if unat room = length str + 2 then str @ [0x0D] else [])"
proof -
  let ?q = "mWriter t" and ?n = "length str"
  have n: "?n \<le> 5" using sample_length assms(3) by simp
  then have slen: "unat (word_of_nat ?n :: u32) = ?n" "unat (word_of_nat ?n + 2 :: u32) = ?n + 2"
    by (simp_all add: unat_add_u32)
  have room: "unat room = unat (mCapacity ?q) - length (ring_contents ?q (mMemoryMap t)) - 1"
    using spsc_capacity_spec [OF assms(1)] assms(4) by auto
  show ?thesis
  proof (cases "room \<ge> word_of_nat ?n + 2")
    case True
    then have ge: "?n + 2 \<le> unat room" using slen by (simp add: word_le_nat_alt)
    from ring_room [OF assms(1,2), of str] n room ge obtain k1 f1 where
      f1: "spsc_write ?q (mMemoryMap t) (bytes_ptr str) (word_of_nat ?n) = Inr (k1, f1)" "ring_inv ?q f1"
      "ring_contents ?q f1 = ring_contents ?q (mMemoryMap t) @ str" by auto
    from ring_room [OF f1(2) assms(2), of "[0x0D, 0x0A]"] f1(3) room obtain k2 f2 where
      f2: "spsc_write ?q f1 (bytes_ptr [0x0D, 0x0A]) 2 = Inr (k2, f2)" "ring_inv ?q f2"
      "ring_contents ?q f2 = ring_contents ?q (mMemoryMap t) @ str @ take (unat room - ?n - 1) [0x0D, 0x0A]"
      by auto
    have "take (unat room - ?n - 1) [0x0D, 0x0A] =
        (if unat room > ?n + 2 then [0x0D, 0x0A] else [0x0D :: u8])"
      using ge by (auto simp: take_Cons' )
    with f2(3) ge have "ring_contents ?q f2 = ring_contents ?q (mMemoryMap t) @
        (if unat room > ?n + 2 then str @ [0x0D, 0x0A] else if unat room = ?n + 2 then str @ [0x0D] else [])"
      by auto
    with True f1(1) f2(1,2) assms(3,4) show ?thesis by (simp add: writeString_def Let_def)
  next
    case False
    then have "unat room < ?n + 2" using slen by (simp add: word_le_nat_alt)
    with False assms show ?thesis by (simp add: writeString_def Let_def)
  qed
qed

lemma writeString_cuts_line_witness:
  "\<exists>t'. writeString 0 \<lparr>mIndex = 0, mReader = ring_reader 11, mWriter = ring_writer 11,
       mMemoryMap = small_ring\<lparr>mReadIndex := 0, mWriteIndex := 5, mBaseMemory := (mBaseMemory small_ring)\<lparr>blk_size := 11\<rparr>\<rparr>\<rparr>
     = Inr t' \<and> ring_contents (ring_writer 11) (mMemoryMap t') = [0, 1, 2, 3, 4] @ ascii ''one'' @ [0x0D]"
proof -
  let ?sh = "small_ring\<lparr>mReadIndex := 0, mWriteIndex := 5, mBaseMemory := (mBaseMemory small_ring)\<lparr>blk_size := 11\<rparr>\<rparr>"
  let ?t = "\<lparr>mIndex = 0, mReader = ring_reader 11, mWriter = ring_writer 11, mMemoryMap = ?sh\<rparr>"
  have inv: "ring_inv (mWriter ?t) (mMemoryMap ?t)" "mIsWriter (mWriter ?t)"
    by (simp_all add: ring_inv_def Let_def small_ring_def ring_writer_def ring_used_def)
  have cap: "spsc_capacity (mWriter ?t) (mMemoryMap ?t) = Inr 5"
    by (simp add: spsc_capacity_def spsc_size_def calcSize_def small_ring_def ring_writer_def word_le_nat_alt)
  have c: "ring_contents (ring_writer 11) ?sh = [0, 1, 2, 3, 4]"
    by (simp add: ring_contents_def small_ring_def ring_writer_def ring_used_def ring_slice_def upt_rec)
  from writeString_cuts_line [OF inv refl cap, of 0] c show ?thesis
    by (auto simp: gSampleStrings_def)
qed

text \<open>The writer's and the reader's passes in any order; the bytes that are printed.\<close>

datatype test_step = Write_pass nat | Read_pass nat

fun test_run :: "test_step list \<Rightarrow> test_memory \<Rightarrow> (u8 list \<times> test_memory) result" where
  "test_run [] t = Inr ([], t)"
| "test_run (Write_pass rnd # es) t = ebind (writeString rnd t) (test_run es)"
| "test_run (Read_pass rnd # es) t =
     ebind (readString rnd t) (\<lambda>(temp, t). ebind (test_run es t) (\<lambda>(out, t). Inr (temp @ out, t)))"

definition test_inv :: "test_memory \<Rightarrow> bool" where
  "test_inv t \<longleftrightarrow> ring_inv (mWriter t) (mMemoryMap t) \<and> mIsWriter (mWriter t)
     \<and> mAttached (mReader t) \<and> \<not> mIsWriter (mReader t) \<and> mCapacity (mReader t) = mCapacity (mWriter t)"

definition in_ring :: "test_memory \<Rightarrow> u8 list" where
  "in_ring t = ring_contents (mWriter t) (mMemoryMap t)"

definition sample_line :: "u8 list \<Rightarrow> bool" where
  "sample_line l \<longleftrightarrow> (\<exists>str \<in> set gSampleStrings. l = str @ [0x0D, 0x0A] \<or> l = str @ [0x0D])"

text \<open>The test starts with an empty ring of the size of the file, and with the writer ready to write.\<close>

lemma new_test_memory_ready:
  assumes "os_open calls os (ascii ''sharedmemorytest.bin'') = (fd, os')" and "fd \<noteq> -1"
    and "os_length calls os' fd = n" and "os_mmap calls os' fd n = Mapped f"
    and "sizeof_header < ucast n" and "blk_size (mBaseMemory f) = unat (ucast n - sizeof_header)"
  shows "\<exists>m t. new_test_memory (posix_maps calls) os = (os', Some (m, t)) \<and> test_inv t \<and> in_ring t = []"
proof -
  have n: "n \<noteq> 0" using assms(5) by auto
  have "0 < unat (ucast n - sizeof_header)" using assms(5) by (simp add: word_less_nat_alt unat_sub_if_size)
  with assms n show ?thesis
    by (simp add: new_test_memory_def createMemoryMap_def new_MemoryMapImpl_def getBaseAddress_def getFileSize_def
        posix_maps_def test_inv_def in_ring_def spsc_init_def spsc_new_def ring_inv_def ring_contents_def ring_used_def Let_def)
qed

lemma writeString_step:
  assumes "test_inv t"
  shows "\<exists>t' ls. writeString rnd t = Inr t' \<and> test_inv t' \<and> in_ring t' = in_ring t @ concat ls \<and> (\<forall>l \<in> set ls. sample_line l)"
proof -
  let ?str = "gSampleStrings ! (rnd mod 10)"
  have inv: "ring_inv (mWriter t) (mMemoryMap t)" "mIsWriter (mWriter t)" using assms by (simp_all add: test_inv_def)
  obtain room where room: "spsc_capacity (mWriter t) (mMemoryMap t) = Inr room" using spsc_capacity_spec [OF inv(1)] by auto
  from writeString_cuts_line [OF inv refl room, of rnd] obtain t' where
    t: "writeString rnd t = Inr t'" "mWriter t' = mWriter t" "ring_inv (mWriter t) (mMemoryMap t')"
    "in_ring t' = in_ring t @ (if unat room > length ?str + 2 then ?str @ [0x0D, 0x0A]
       else if unat room = length ?str + 2 then ?str @ [0x0D] else [])" by (auto simp: in_ring_def)
  have "mReader t' = mReader t" using t(1)
    by (auto simp: writeString_def Let_def ebind_Inr_iff split: if_splits)
  then have "test_inv t'" using assms t(2,3) by (simp add: test_inv_def)
  moreover have "?str \<in> set gSampleStrings" by (rule nth_mem) (simp add: gSampleStrings_def)
  then have "\<exists>ls. in_ring t' = in_ring t @ concat ls \<and> (\<forall>l \<in> set ls. sample_line l)"
    unfolding t(4) sample_line_def
    by (intro exI [of _ "if unat room > length ?str + 2 then [?str @ [0x0D, 0x0A]]
          else if unat room = length ?str + 2 then [?str @ [0x0D]] else []"]) auto
  ultimately show ?thesis using t(1) by blast
qed

lemma readString_step:
  assumes "test_inv t"
  shows "\<exists>temp t'. readString rnd t = Inr (temp, t') \<and> test_inv t' \<and> in_ring t = temp @ in_ring t' \<and> length temp \<le> 60"
proof -
  have "ring_inv (mReader t) (mMemoryMap t)" using assms by (simp add: test_inv_def ring_inv_def Let_def)
  moreover have "unat (word_of_nat (rnd mod 60 + 1) :: u32) \<le> 60" by (subst unat_of_nat_u32) auto
  ultimately show ?thesis
    using assms spsc_read_spec [of "mReader t" "mMemoryMap t" "word_of_nat (rnd mod 60 + 1)"]
    by (fastforce simp: readString_def test_inv_def in_ring_def ring_inv_def ring_contents_def Let_def)
qed

lemma test_run_prints_lines:
  assumes "test_inv t"
  shows "\<exists>out t' ls. test_run es t = Inr (out, t') \<and> test_inv t' \<and> in_ring t @ concat ls = out @ in_ring t'
    \<and> (\<forall>l \<in> set ls. sample_line l)"
  using assms
proof (induction es arbitrary: t)
  case Nil
  then show ?case by (auto intro: exI [of _ "[]"])
next
  case (Cons e es)
  show ?case
  proof (cases e)
    case (Write_pass rnd)
    from writeString_step [OF Cons.prems, of rnd] obtain t1 ls where
      w: "writeString rnd t = Inr t1" "test_inv t1" "in_ring t1 = in_ring t @ concat ls" "\<forall>l \<in> set ls. sample_line l" by blast
    from Cons.IH [OF w(2)] obtain out t' ms where "test_run es t1 = Inr (out, t')" "test_inv t'"
      "in_ring t1 @ concat ms = out @ in_ring t'" "\<forall>l \<in> set ms. sample_line l" by blast
    with w Write_pass show ?thesis by (auto intro!: exI [of _ "ls @ ms"])
  next
    case (Read_pass rnd)
    from readString_step [OF Cons.prems, of rnd] obtain temp t1 where
      r: "readString rnd t = Inr (temp, t1)" "test_inv t1" "in_ring t = temp @ in_ring t1" by blast
    from Cons.IH [OF r(2)] obtain out t' ms where "test_run es t1 = Inr (out, t')" "test_inv t'"
      "in_ring t1 @ concat ms = out @ in_ring t'" "\<forall>l \<in> set ms. sample_line l" by blast
    with r Read_pass show ?thesis by (auto intro!: exI [of _ ms])
  qed
qed

section \<open>The loop\<close>

definition TEST_TIME :: int where "TEST_TIME = 60"

text \<open>
  \<open>run\<close>: \<open>clock k\<close> is reading number \<open>k\<close> of the clock, \<open>reads k\<close> the random number of the read that follows it and
  \<open>writes k\<close> those of the passes the writer thread makes in the meantime.
\<close>

definition run_step ::
  "(nat \<Rightarrow> int) \<Rightarrow> (nat \<Rightarrow> nat list) \<Rightarrow> (nat \<Rightarrow> nat) \<Rightarrow> int \<Rightarrow> nat \<times> u8 list \<times> test_memory \<Rightarrow>
   (nat \<times> u8 list \<times> test_memory, (u8 list \<times> test_memory) result) control" where
  "run_step clock writes reads start st =
     (let (k, out, t) = st
      in if peekElapsedSeconds start (clock k) < seconds TEST_TIME then
           case test_run (map Write_pass (writes k) @ [Read_pass (reads k)]) t of
             Inl e \<Rightarrow> Break (Inl e)
           | Inr (temp, t) \<Rightarrow> Continue (k + 1, out @ temp, t)
         else Break (Inr (out, t)))"

definition run_test ::
  "(nat \<Rightarrow> int) \<Rightarrow> (nat \<Rightarrow> nat list) \<Rightarrow> (nat \<Rightarrow> nat) \<Rightarrow> test_memory \<Rightarrow> (u8 list \<times> test_memory) result option" where
  "run_test clock writes reads t = run_loop (run_step clock writes reads (clock 0)) (1, [], t)"

text \<open>The whole program; the destructor waits for the writer and releases the file.\<close>

definition testSharedMemory ::
  "('o, 'm) map_ops \<Rightarrow> (nat \<Rightarrow> int) \<Rightarrow> (nat \<Rightarrow> nat list) \<Rightarrow> (nat \<Rightarrow> nat) \<Rightarrow> 'o \<Rightarrow> (u8 list \<times> 'o) result option" where
  "testSharedMemory mops clock writes reads os =
     (case new_test_memory mops os of
        (os, None) \<Rightarrow> Some (Inr ([], os))
      | (os, Some (m, tsm)) \<Rightarrow>
          lbind (run_test clock writes reads tsm) (\<lambda>(out, _). Some (Inr (out, map_release mops os m))))"

context map_contract begin

lemma test_gives_back:
  assumes "minv os" and "testSharedMemory mops clock writes reads os = Some (Inr (out, os'))"
  shows "held os' = held os"
proof (rule map_create_cases [OF assms(1), of "ascii ''sharedmemorytest.bin''" "ucast TEST_BUFFER_SIZE" True False])
  fix os1 n
  assume "map_create mops os (ascii ''sharedmemorytest.bin'') (ucast TEST_BUFFER_SIZE) True False = (os1, None, n)"
    "held os1 = held os"
  with assms(2) show ?thesis by (simp add: testSharedMemory_def new_test_memory_def)
next
  fix os1 m n
  assume c: "map_create mops os (ascii ''sharedmemorytest.bin'') (ucast TEST_BUFFER_SIZE) True False = (os1, Some m, n)"
    "minv os1" "held os1 = held os \<union> owns m" "owns m \<inter> held os = {}" "map_base mops m \<noteq> None"
  then obtain t where "new_test_memory mops os = (os1, Some (m, t))"
    using that by (auto simp: new_test_memory_def Let_def case_prod_unfold)
  with assms(2) have "os' = map_release mops os1 m" by (auto simp: testSharedMemory_def lbind_Some_Inr_iff)
  with release_map [OF c(2), of m] c(3,4) show ?thesis by auto
qed

end



end
