(* ===== verification/TestServer.thy ===== *)
theory TestServer
  imports WsLifetime WsSession
begin

text \<open>
  \<open>app/TestServer/TestServer.cpp\<close>: the chat server. Each \<open>ClientConnection\<close> owns a connection and
  keeps the last text message it received; one pass of \<open>run\<close> accepts a client, broadcasts a console
  line, removes closed connections and echoes what the clients sent to all of them. The socket that
  \<open>pollServer\<close> returned and the console line are arguments of the pass.
\<close>

section \<open>ClientConnection\<close>

record 's client_connection =
  cc_haveMessage :: bool
  cc_message :: "u8 list"
  cc_client :: "'s web_socket option"
  cc_id :: u32

text \<open>\<open>receiveMessage\<close>: the bytes as a C string, so that they end at the first zero.\<close>

definition receiveMessage :: "message \<Rightarrow> 's client_connection \<Rightarrow> 's client_connection" where
  "receiveMessage m cc =
     (let (data, isAscii) = m
      in if isAscii \<and> length data < 511
         then cc\<lparr>cc_haveMessage := True, cc_message := takeWhile (\<lambda>c. c \<noteq> 0) data\<rparr> else cc)"

definition getMessage ::
  "'s wsocket_ops \<Rightarrow> int \<Rightarrow> 's client_connection \<Rightarrow> (u8 list option \<times> 's client_connection) result option" where
  "getMessage ops now cc =
     (let cc = cc\<lparr>cc_haveMessage := False\<rparr>
      in case cc_client cc of
           None \<Rightarrow> Some (Inr (None, cc))
         | Some ws \<Rightarrow>
             lbind (poll ops now True 1 (ws, [])) (\<lambda>(ws, msgs).
               let cc = fold receiveMessage msgs (cc\<lparr>cc_client := Some ws\<rparr>)
               in Some (Inr (if cc_haveMessage cc then Some (cc_message cc) else None, cc))))"

definition cc_sendText :: "u8 list \<Rightarrow> 's client_connection \<Rightarrow> 's client_connection result" where
  "cc_sendText str cc =
     (case cc_client cc of
        None \<Rightarrow> Inr cc
      | Some ws \<Rightarrow> ebind (sendText ws (Some str)) (\<lambda>ws. Inr (cc\<lparr>cc_client := Some ws\<rparr>)))"

definition isConnected :: "'s client_connection \<Rightarrow> bool" where
  "isConnected cc = (case cc_client cc of None \<Rightarrow> False | Some ws \<Rightarrow> getReadyState ws \<noteq> CLOSED)"

definition delete_client ::
  "'s wsocket_ops \<Rightarrow> (nat \<Rightarrow> int) \<Rightarrow> 's client_connection \<Rightarrow> unit result option" where
  "delete_client ops clock cc =
     (case cc_client cc of
        None \<Rightarrow> Some (Inr ())
      | Some ws \<Rightarrow> lbind (destroy ops clock ws) (\<lambda>_. Some (Inr ())))"

section \<open>SimpleServer\<close>

definition accept_client ::
  "'s wsocket_ops \<Rightarrow> allocator \<Rightarrow> endian \<Rightarrow> (nat \<Rightarrow> u64) \<Rightarrow> u8 list \<Rightarrow> (nat \<Rightarrow> int) \<Rightarrow> int \<Rightarrow> 's \<Rightarrow>
   's client_connection list \<Rightarrow> 's client_connection list result option" where
  "accept_client ops h e rnd stale clock now clientSocket clients =
     (let index = word_of_nat (length clients) + 1 :: u32
      in lbind (create_server ops h e rnd stale clock now (Some clientSocket) True) (\<lambda>ws.
         Some (Inr (clients @ [\<lparr>cc_haveMessage = False, cc_message = [], cc_client = ws, cc_id = index\<rparr>]))))"

fun broadcast :: "u8 list \<Rightarrow> 's client_connection list \<Rightarrow> 's client_connection list result" where
  "broadcast str [] = Inr []"
| "broadcast str (c # cs) =
     ebind (cc_sendText str c) (\<lambda>c. ebind (broadcast str cs) (\<lambda>cs. Inr (c # cs)))"

definition is_quit :: "u8 list \<Rightarrow> bool" where
  "is_quit str \<longleftrightarrow> str = ascii ''bye'' \<or> str = ascii ''quit'' \<or> str = ascii ''exit''"

definition console_line ::
  "u8 list option \<Rightarrow> 's client_connection list \<Rightarrow> (bool \<times> 's client_connection list) result" where
  "console_line line clients =
     (case line of
        None \<Rightarrow> Inr (False, clients)
      | Some str \<Rightarrow>
          if is_quit str then Inr (True, clients)
          else ebind (broadcast str clients) (\<lambda>clients. Inr (False, clients)))"

text \<open>The first connection that is closed, and the others: one turn of \<open>while (killed)\<close>.\<close>

fun first_dead :: "'s client_connection list \<Rightarrow> ('s client_connection \<times> 's client_connection list) option" where
  "first_dead [] = None"
| "first_dead (c # cs) =
     (if \<not> isConnected c then Some (c, cs) else map_option (\<lambda>(d, cs). (d, c # cs)) (first_dead cs))"

lemma first_dead_length: "first_dead cs = Some (d, ds) \<Longrightarrow> length ds < length cs"
  by (induction cs arbitrary: ds) (auto split: if_splits)

function remove_dead ::
  "'s wsocket_ops \<Rightarrow> (nat \<Rightarrow> int) \<Rightarrow> 's client_connection list \<Rightarrow> 's client_connection list result option" where
  "remove_dead ops clock clients =
     (case first_dead clients of
        None \<Rightarrow> Some (Inr clients)
      | Some (d, rest) \<Rightarrow> lbind (delete_client ops clock d) (\<lambda>_. remove_dead ops clock rest))"
  by pat_completeness auto
termination
  by (relation "measure (\<lambda>(_, _, cs). length cs)") (auto dest: first_dead_length)

declare remove_dead.simps [simp del]

text \<open>The loop over the clients, by position.\<close>

fun echo_from ::
  "'s wsocket_ops \<Rightarrow> int \<Rightarrow> nat list \<Rightarrow> 's client_connection list \<Rightarrow> 's client_connection list result option" where
  "echo_from ops now [] clients = Some (Inr clients)"
| "echo_from ops now (i # is) clients =
     lbind (getMessage ops now (clients ! i)) (\<lambda>(newMessage, c).
       let clients = clients[i := c]
       in case newMessage of
            None \<Rightarrow> echo_from ops now is clients
          | Some str \<Rightarrow> lbind (Some (broadcast str clients)) (echo_from ops now is))"

definition run_pass ::
  "'s wsocket_ops \<Rightarrow> allocator \<Rightarrow> endian \<Rightarrow> (nat \<Rightarrow> u64) \<Rightarrow> u8 list \<Rightarrow> (nat \<Rightarrow> int) \<Rightarrow> int \<Rightarrow> 's option \<Rightarrow>
   u8 list option \<Rightarrow> 's client_connection list \<Rightarrow> (bool \<times> 's client_connection list) result option" where
  "run_pass ops h e rnd stale clock now clientSocket line clients =
     lbind (case clientSocket of None \<Rightarrow> Some (Inr clients)
            | Some s \<Rightarrow> accept_client ops h e rnd stale clock now s clients) (\<lambda>clients.
     lbind (Some (console_line line clients)) (\<lambda>(exit, clients).
     lbind (remove_dead ops clock clients) (\<lambda>clients.
     lbind (echo_from ops now [0..<length clients] clients) (\<lambda>clients.
     Some (Inr (exit, clients))))))"

text \<open>What one pass takes from the world: random numbers, stale memory, the clock, a new socket and a console line.\<close>

record 's pass_input =
  in_random :: "nat \<Rightarrow> u64"
  in_stale :: "u8 list"
  in_clock :: "nat \<Rightarrow> int"
  in_now :: int
  in_socket :: "'s option"
  in_line :: "u8 list option"

text \<open>\<open>run\<close> over the inputs of its passes; the boolean tells whether it has ended.\<close>

fun run_server ::
  "'s wsocket_ops \<Rightarrow> allocator \<Rightarrow> endian \<Rightarrow> 's pass_input list \<Rightarrow> 's client_connection list \<Rightarrow>
   (bool \<times> 's client_connection list) result option" where
  "run_server ops h e [] clients = Some (Inr (False, clients))"
| "run_server ops h e (i # is) clients =
     lbind (run_pass ops h e (in_random i) (in_stale i) (in_clock i) (in_now i) (in_socket i) (in_line i) clients)
       (\<lambda>(exit, clients). if exit then Some (Inr (True, clients)) else run_server ops h e is clients)"

text \<open>The destructor of the server deletes its clients.\<close>

fun delete_clients ::
  "'s wsocket_ops \<Rightarrow> (nat \<Rightarrow> int) \<Rightarrow> 's client_connection list \<Rightarrow> unit result option" where
  "delete_clients ops clock [] = Some (Inr ())"
| "delete_clients ops clock (c # cs) = lbind (delete_client ops clock c) (\<lambda>_. delete_clients ops clock cs)"

section \<open>Properties\<close>

lemma delete_closed: "\<not> isConnected c \<Longrightarrow> delete_client ops clock c = Some (Inr ())"
  by (auto simp: isConnected_def delete_client_def destroy_def close_ws_def getReadyState_def destroy_step_def
      run_loop_Break split: option.splits)

lemma first_dead_filter:
  "first_dead cs = Some (d, ds) \<Longrightarrow> filter isConnected ds = filter isConnected cs \<and> \<not> isConnected d"
  "first_dead cs = None \<Longrightarrow> filter isConnected cs = cs"
proof -
  show "first_dead cs = Some (d, ds) \<Longrightarrow> filter isConnected ds = filter isConnected cs \<and> \<not> isConnected d"
    by (induction cs arbitrary: ds) (auto split: if_splits)
  show "first_dead cs = None \<Longrightarrow> filter isConnected cs = cs"
    by (induction cs) (auto split: if_splits)
qed

lemma remove_dead_filter:
  "remove_dead ops clock clients = Some (Inr (filter isConnected clients))"
proof (induction clients rule: length_induct)
  case (1 clients)
  show ?case
  proof (cases "first_dead clients")
    case None
    then show ?thesis using first_dead_filter(2) [OF None] by (simp add: remove_dead.simps)
  next
    case (Some p)
    obtain d ds where p: "p = (d, ds)" by (cases p)
    have f: "filter isConnected ds = filter isConnected clients" and nc: "\<not> isConnected d"
      using first_dead_filter(1) Some p by auto
    have l: "length ds < length clients" using first_dead_length Some p by auto
    have "remove_dead ops clock ds = Some (Inr (filter isConnected ds))" using 1 l by blast
    with Some p f delete_closed [OF nc, of ops clock] show ?thesis
      by (simp add: remove_dead.simps [of ops clock clients])
  qed
qed

text \<open>C39. The restarting loop that erases closed connections ends and keeps exactly the connected clients, in their order;
  deleting a closed connection neither waits nor fails.\<close>
theorem remove_dead_is_filter:
  "remove_dead ops clock clients = Some (Inr (filter isConnected clients))"
  by (rule remove_dead_filter)

text \<open>A client that can take a text message of the given length.\<close>

definition takes_text :: "nat \<Rightarrow> 's client_connection \<Rightarrow> bool" where
  "takes_text n cc \<longleftrightarrow>
     (\<exists>ws. cc_client cc = Some ws \<and> can_send ws \<and> append_room (mTransmitBuffer ws) (14 + n))"

definition sent_text :: "u8 list \<Rightarrow> 's client_connection \<Rightarrow> 's client_connection \<Rightarrow> bool" where
  "sent_text str c c' \<longleftrightarrow>
     (\<exists>ws ws' f. cc_client c = Some ws \<and> cc_client c' = Some ws' \<and> carries f (str, True) \<and> cc_id c' = cc_id c
        \<and> contents (mTransmitBuffer ws') = contents (mTransmitBuffer ws) @ encode_frame f \<and> same_receive_side ws ws')"

text \<open>A broadcast reaches everybody: each client with a usable connection gets exactly one text frame with the
  message at the end of its transmit buffer, and nothing else of it changes.\<close>
theorem broadcast_reaches_all:
  assumes "\<forall>c \<in> set clients. takes_text (length str) c" and "length str < 2 ^ 30"
  shows "\<exists>clients'. broadcast str clients = Inr clients' \<and> list_all2 (sent_text str) clients clients'"
  using assms(1)
proof (induction clients)
  case (Cons c cs)
  then obtain ws where ws: "cc_client c = Some ws" "can_send ws" "append_room (mTransmitBuffer ws) (14 + length str)"
    by (auto simp: takes_text_def)
  from send_message_spec [of ws "(str, True)" 0] ws(2,3) assms(2) obtain ws' f where
    s: "send_message ws (str, True) = Inr ws'" "same_receive_side ws ws'" "carries f (str, True)"
    "contents (mTransmitBuffer ws') = contents (mTransmitBuffer ws) @ encode_frame f"
    by (auto simp: message_cost_def)
  have "cc_sendText str c = Inr (c\<lparr>cc_client := Some ws'\<rparr>)"
    using s(1) ws(1) by (simp add: cc_sendText_def send_message_def)
  moreover have "sent_text str c (c\<lparr>cc_client := Some ws'\<rparr>)" using s ws(1) by (auto simp: sent_text_def)
  ultimately show ?case using Cons by auto
qed simp

lemma broadcast_reaches_all_witness:
  "\<exists>clients'. broadcast (ascii ''hi'')
      [\<lparr>cc_haveMessage = False, cc_message = [], cc_client = Some (open_connection True []), cc_id = 1\<rparr>,
       \<lparr>cc_haveMessage = False, cc_message = [], cc_client = Some (open_connection False []), cc_id = 2\<rparr>] = Inr clients'
    \<and> length clients' = 2"
proof -
  let ?cs = "[\<lparr>cc_haveMessage = False, cc_message = [], cc_client = Some (open_connection True []), cc_id = 1\<rparr>,
       \<lparr>cc_haveMessage = False, cc_message = [], cc_client = Some (open_connection False []), cc_id = 2\<rparr>]"
  have "\<forall>c \<in> set ?cs. takes_text (length (ascii ''hi'')) c"
    by (simp add: takes_text_def open_connection_room)
  from broadcast_reaches_all [OF this] show ?thesis by (auto dest: list_all2_lengthD)
qed

text \<open>Which of the messages of one \<open>poll\<close> survives.\<close>

definition last_text :: "message list \<Rightarrow> u8 list option" where
  "last_text ms =
     (case rev (filter (\<lambda>(data, isAscii). isAscii \<and> length data < 511) ms) of
        [] \<Rightarrow> None | (data, _) # _ \<Rightarrow> Some (takeWhile (\<lambda>c. c \<noteq> 0) data))"

lemma fold_receiveMessage:
  "cc_client (fold receiveMessage ms cc) = cc_client cc \<and> cc_id (fold receiveMessage ms cc) = cc_id cc
   \<and> (case last_text ms of
        None \<Rightarrow> fold receiveMessage ms cc = cc
      | Some t \<Rightarrow> cc_haveMessage (fold receiveMessage ms cc) \<and> cc_message (fold receiveMessage ms cc) = t)"
proof (induction ms rule: rev_induct)
  case (snoc m ms)
  then show ?case
    by (cases m) (auto simp: receiveMessage_def last_text_def Let_def split: list.splits prod.splits)
qed (simp add: last_text_def)

text \<open>A client connection hands on at most one message for each \<open>poll\<close>: of all the messages that have arrived it is
  the last text message of fewer than 511 bytes, cut off at its first zero byte; the others are lost.\<close>
theorem getMessage_keeps_last:
  assumes "cc_client cc = Some ws" and "idle_endpoint ws s (sum_list (map message_cost ms))"
    and "list_all2 carries fs ms" and "shm_incoming s = encode_frames fs"
  shows "\<exists>cc'. getMessage shm_ops now cc = Some (Inr (last_text ms, cc')) \<and> cc_id cc' = cc_id cc"
proof -
  note i = assms(2) [unfolded idle_endpoint_def]
  have "append_room (mReceiveBuffer ws) (length (shm_incoming s) + 4096)"
    using i carried_length [OF assms(3)] assms(4) by (auto simp: append_room_def)
  moreover have "receive_frames (pong_of ws) fs (receiver_of ws []) =
      ((receiver_of ws [])\<lparr>rc_msgs := rc_msgs (receiver_of ws []) @ ms\<rparr>, [])"
    by (rule receive_carried [OF assms(3)]) (simp add: receiver_of_def i)
  ultimately obtain ws' where p: "poll shm_ops now True 1 (ws, []) = Some (Inr (ws', ms))"
    using shm.poll_open [where ws = ws and s = s and fs = fs and rest = "[]" and msgs = "[]" and now = now and t = 1]
      i assms(4) carried_cost [OF assms(3)] carried_ok [OF assms(3)]
    by (auto simp: receiver_of_def incomplete_Nil(1))
  let ?cc = "cc\<lparr>cc_haveMessage := False, cc_client := Some ws'\<rparr>"
  have "getMessage shm_ops now cc = Some (Inr
      (if cc_haveMessage (fold receiveMessage ms ?cc) then Some (cc_message (fold receiveMessage ms ?cc)) else None,
       fold receiveMessage ms ?cc))"
    using assms(1) p by (simp add: getMessage_def Let_def)
  with fold_receiveMessage [of ms ?cc] show ?thesis by (auto split: option.splits)
qed

lemma getMessage_keeps_last_witness:
  "\<exists>cc'. getMessage shm_ops 0 \<lparr>cc_haveMessage = False, cc_message = [],
      cc_client = Some (shm_connection True [] (encode_frames [test_frame True TEXT_FRAME [97], test_frame True TEXT_FRAME [98]])),
      cc_id = 1\<rparr> = Some (Inr (Some [98], cc'))"
proof -
  let ?fs = "[test_frame True TEXT_FRAME [97], test_frame True TEXT_FRAME [98]]"
  let ?ms = "[([97], True), ([98], True)] :: message list"
  have c: "list_all2 carries ?fs ?ms" by (simp add: carries_def named_opcode_def)
  have cost: "sum_list (map message_cost ?ms) \<le> 100000" by (simp add: message_cost_def)
  have "length (encode_frames ?fs) \<le> 16350" using carried_length [OF c] by (simp add: message_cost_def)
  note l = this
  let ?cc = "\<lparr>cc_haveMessage = False, cc_message = [],
      cc_client = Some (shm_connection True [] (encode_frames ?fs)), cc_id = 1\<rparr>"
  have "cc_client ?cc = Some (shm_connection True [] (encode_frames ?fs))" by simp
  from getMessage_keeps_last [OF this idle_shm_connection [OF cost l] c client_socket(2) [OF l], where now = 0]
  show ?thesis by (auto simp: last_text_def)
qed

text \<open>A server without clients ends at the first line that asks for it, whatever comes later, and then has nobody to delete.\<close>

lemma quit_ends_server:
  assumes "in_socket i = None" and "in_line i = Some line" and "is_quit line"
  shows "run_server ops h e (i # is) [] = Some (Inr (True, []))" and "delete_clients ops clock [] = Some (Inr ())"
  using assms by (simp_all add: run_pass_def console_line_def remove_dead.simps)

lemma delete_closed_clients:
  "\<forall>c \<in> set clients. \<not> isConnected c \<Longrightarrow> delete_clients ops clock clients = Some (Inr ())"
  by (induction clients) (simp_all add: delete_closed)

text \<open>The number of a new client is the number of clients, not a fresh one.\<close>

lemma client_ids_repeat:
  assumes "cc_id c = 2"
  shows "\<exists>d. accept_client ops h e rnd stale clock now s [c] = Some (Inr [c, d]) \<and> cc_id d = cc_id c"
  using assms by (simp add: accept_client_def create_server_def new_server_connection_def isValid_def Let_def)

end
