(* ===== verification/ChatServer.thy ===== *)
theory ChatServer
  imports TestServer
begin

text \<open>
  What one pass of the chat server does to all its clients, over shared memory: whatever the clients
  have said, everybody hears it.
\<close>

section \<open>The clients of a pass\<close>

text \<open>The bytes a client has been or will be sent.\<close>

definition queued :: "shm_socket client_connection \<Rightarrow> u8 list" where
  "queued c =
     (case cc_client c of
        None \<Rightarrow> []
      | Some ws \<Rightarrow> (case mSocket ws of None \<Rightarrow> [] | Some s \<Rightarrow> shm_outgoing s) @ contents (mTransmitBuffer ws))"

text \<open>
  An open connection over shared memory, with buffers of size \<open>n\<close>; one that has had its turn in the pass and one that
  has not, to both of which \<open>k\<close> more bytes of frames can be sent. Of the \<open>t\<close> bytes that are sent to everybody in the
  pass, one that has had its turn has at most the rest waiting.
\<close>

definition conn_at :: "nat \<Rightarrow> shm_socket client_connection \<Rightarrow> shm_socket web_socket \<Rightarrow> shm_socket \<Rightarrow> bool" where
  "conn_at n c ws s \<longleftrightarrow> cc_client c = Some ws \<and> mSocket ws = Some s \<and> shm_inv s \<and> at_rest n n ws"

definition served :: "nat \<Rightarrow> nat \<Rightarrow> nat \<Rightarrow> shm_socket client_connection \<Rightarrow> bool" where
  "served n t k c \<longleftrightarrow> (\<exists>ws s. conn_at n c ws s \<and> shm_incoming s = [] \<and> length (contents (mTransmitBuffer ws)) + k \<le> t)"

definition waiting :: "nat \<Rightarrow> nat \<Rightarrow> message list \<Rightarrow> shm_socket client_connection \<Rightarrow> bool" where
  "waiting n k ms c \<longleftrightarrow>
     (\<exists>ws s fs. conn_at n c ws s \<and> list_all2 carries fs ms \<and> shm_incoming s = encode_frames fs
        \<and> length (shm_incoming s) + 4096 \<le> n \<and> length (contents (mTransmitBuffer ws)) + k \<le> n
        \<and> length (contents (mTransmitBuffer ws)) + k \<le> shm_window s)"

definition in_pass :: "nat \<Rightarrow> nat \<Rightarrow> nat \<Rightarrow> message list option \<Rightarrow> shm_socket client_connection \<Rightarrow> bool" where
  "in_pass n t k turn c \<longleftrightarrow> k \<le> t \<and> t \<le> n \<and> (case turn of None \<Rightarrow> served n t k c | Some ms \<Rightarrow> waiting n k ms c)"

text \<open>Nothing but text frames with these texts has been queued.\<close>

definition hears :: "u8 list list \<Rightarrow> shm_socket client_connection \<Rightarrow> shm_socket client_connection \<Rightarrow> bool" where
  "hears ts c c' \<longleftrightarrow> cc_id c' = cc_id c
     \<and> (\<exists>fs. list_all2 carries fs (texts ts) \<and> queued c' = queued c @ encode_frames fs)"

text \<open>
  The same in detail: the frames are all in the transmit buffer or, after a \<open>poll\<close>, the first of them have followed the
  old contents of the transmit buffer into the ring.
\<close>

definition gets :: "u8 list list \<Rightarrow> shm_socket client_connection \<Rightarrow> shm_socket client_connection \<Rightarrow> bool" where
  "gets ts c c' \<longleftrightarrow> cc_id c' = cc_id c \<and> (\<exists>ws s ws' s' gs hs.
     cc_client c = Some ws \<and> mSocket ws = Some s \<and> cc_client c' = Some ws' \<and> mSocket ws' = Some s' \<and> same_rings s s'
     \<and> list_all2 carries (gs @ hs) (texts ts)
     \<and> (gs = [] \<and> shm_outgoing s' = shm_outgoing s
          \<and> contents (mTransmitBuffer ws') = contents (mTransmitBuffer ws) @ encode_frames hs
        \<or> shm_outgoing s' = shm_outgoing s @ contents (mTransmitBuffer ws) @ encode_frames gs
          \<and> contents (mTransmitBuffer ws') = encode_frames hs))"

lemma gets_hears: "gets ts c c' \<Longrightarrow> hears ts c c'"
  unfolding gets_def hears_def queued_def by (fastforce simp flip: encode_frames_append)

lemma gets_refl: "conn_at n c ws s \<Longrightarrow> gets [] c c"
  by (auto simp: gets_def conn_at_def)

lemma gets_trans:
  assumes "gets ts a b" and "gets us b c"
  shows "gets (ts @ us) a c"
proof -
  from assms(1) obtain wa sa wb sb gs hs where a: "cc_id b = cc_id a" "cc_client a = Some wa" "mSocket wa = Some sa"
    "cc_client b = Some wb" "mSocket wb = Some sb" "same_rings sa sb" "list_all2 carries (gs @ hs) (texts ts)"
    "gs = [] \<and> shm_outgoing sb = shm_outgoing sa
       \<and> contents (mTransmitBuffer wb) = contents (mTransmitBuffer wa) @ encode_frames hs
     \<or> shm_outgoing sb = shm_outgoing sa @ contents (mTransmitBuffer wa) @ encode_frames gs
       \<and> contents (mTransmitBuffer wb) = encode_frames hs" unfolding gets_def by blast
  from assms(2) a(4,5) obtain wc sc gs' hs' where c: "cc_id c = cc_id b" "cc_client c = Some wc" "mSocket wc = Some sc"
    "same_rings sb sc" "list_all2 carries (gs' @ hs') (texts us)"
    "gs' = [] \<and> shm_outgoing sc = shm_outgoing sb
       \<and> contents (mTransmitBuffer wc) = contents (mTransmitBuffer wb) @ encode_frames hs'
     \<or> shm_outgoing sc = shm_outgoing sb @ contents (mTransmitBuffer wb) @ encode_frames gs'
       \<and> contents (mTransmitBuffer wc) = encode_frames hs'" unfolding gets_def by auto
  have fs: "list_all2 carries ((gs @ hs) @ gs' @ hs') (texts (ts @ us))"
    using carried_append [OF a(7) c(5)] by simp
  note ids = trans [OF c(1) a(1)] and rings = same_rings_trans [OF a(6) c(4)]
  from c(6) show ?thesis
  proof
    assume "gs' = [] \<and> shm_outgoing sc = shm_outgoing sb
       \<and> contents (mTransmitBuffer wc) = contents (mTransmitBuffer wb) @ encode_frames hs'"
    with a(8) fs have "list_all2 carries (gs @ hs @ hs') (texts (ts @ us)) \<and>
      (gs = [] \<and> shm_outgoing sc = shm_outgoing sa
         \<and> contents (mTransmitBuffer wc) = contents (mTransmitBuffer wa) @ encode_frames (hs @ hs')
       \<or> shm_outgoing sc = shm_outgoing sa @ contents (mTransmitBuffer wa) @ encode_frames gs
         \<and> contents (mTransmitBuffer wc) = encode_frames (hs @ hs'))" by auto
    with ids rings a(2,3) c(2,3) show ?thesis unfolding gets_def by blast
  next
    assume "shm_outgoing sc = shm_outgoing sb @ contents (mTransmitBuffer wb) @ encode_frames gs'
       \<and> contents (mTransmitBuffer wc) = encode_frames hs'"
    with a(8) fs have "list_all2 carries ((gs @ hs @ gs') @ hs') (texts (ts @ us)) \<and>
      (shm_outgoing sc = shm_outgoing sa @ contents (mTransmitBuffer wa) @ encode_frames (gs @ hs @ gs')
         \<and> contents (mTransmitBuffer wc) = encode_frames hs')" by auto
    with ids rings a(2,3) c(2,3) show ?thesis unfolding gets_def by blast
  qed
qed

definition text_cost :: "u8 list \<Rightarrow> nat" where
  "text_cost t = 14 + length t"

text \<open>One \<open>sendText\<close>, whether the client has had its turn or not.\<close>

lemma in_pass_conn:
  assumes "in_pass n b k turn c"
  obtains ws s where "conn_at n c ws s" "length (contents (mTransmitBuffer ws)) + k \<le> n"
  using assms by (cases turn) (auto simp: in_pass_def served_def waiting_def)

lemma in_pass_sendText:
  assumes "in_pass n b (text_cost t + k) turn c" and "length t < 2 ^ 30"
  shows "\<exists>c'. cc_sendText t c = Inr c' \<and> in_pass n b k turn c' \<and> gets [t] c c'"
proof -
  obtain ws s where c: "conn_at n c ws s" "length (contents (mTransmitBuffer ws)) + (text_cost t + k) \<le> n"
    using in_pass_conn [OF assms(1)] .
  note ws = c(1) [unfolded conn_at_def]
  from at_rest_send [of n n ws "(t, True)"] c(2) ws assms(2) obtain ws' f where
    s: "send_message ws (t, True) = Inr ws'" "at_rest n n ws'" "mSocket ws' = Some s" "carries f (t, True)"
    "contents (mTransmitBuffer ws') = contents (mTransmitBuffer ws) @ encode_frame f"
    by (auto simp: message_cost_def text_cost_def)
  let ?c = "c\<lparr>cc_client := Some ws'\<rparr>"
  have l: "length (encode_frame f) \<le> text_cost t"
    using carried_length [of "[f]" "[(t, True)]"] s(4) by (simp add: text_cost_def message_cost_def)
  then have tx: "length (contents (mTransmitBuffer ws')) + k \<le> length (contents (mTransmitBuffer ws)) + (text_cost t + k)"
    unfolding s(5) by simp
  have "conn_at n ?c ws' s" using ws s(2,3) by (simp add: conn_at_def)
  moreover have "cc_sendText t c = Inr ?c" using s(1) ws by (simp add: cc_sendText_def send_message_def)
  moreover have "list_all2 carries ([] @ [f]) (texts [t])" using s(4) by simp
  with ws s(3,5) have "gets [t] c ?c" unfolding gets_def by fastforce
  ultimately show ?thesis
    using assms(1) ws tx by (cases turn) (fastforce simp: in_pass_def served_def waiting_def conn_at_def)+
qed

lemma in_pass_broadcast:
  assumes "list_all2 (in_pass n b (text_cost t + k)) turns cs" and "length t < 2 ^ 30"
  shows "\<exists>cs'. broadcast t cs = Inr cs' \<and> list_all2 (in_pass n b k) turns cs' \<and> list_all2 (gets [t]) cs cs'"
  using assms(1)
proof (induction rule: list_all2_induct)
  case (Cons turn turns c cs)
  with in_pass_sendText [OF Cons(1) assms(2)] show ?case by fastforce
qed simp

lemma waiting_getMessage:
  assumes "waiting n k ms c"
  shows "\<exists>c'. getMessage shm_ops now c = Some (Inr (last_text ms, c')) \<and> served n k k c' \<and> gets [] c c'"
proof -
  from assms obtain ws s fs where w: "cc_client c = Some ws" "mSocket ws = Some s" "shm_inv s" "at_rest n n ws"
    "length (shm_incoming s) + 4096 \<le> n" "length (contents (mTransmitBuffer ws)) \<le> shm_window s" "k \<le> n"
    "list_all2 carries fs ms" "shm_incoming s = encode_frames fs"
    unfolding waiting_def conn_at_def by auto
  from rings.poll_at_rest [of ws s s n n fs ms now 1 "[]"] w obtain ws' s' where
    p: "poll shm_ops now True 1 (ws, []) = Some (Inr (ws', ms))" "mSocket ws' = Some s'" "shm_inv s'" "same_rings s s'"
    "shm_incoming s' = []" "shm_outgoing s' = shm_outgoing s @ contents (mTransmitBuffer ws)"
    "contents (mTransmitBuffer ws') = []" "at_rest n n ws'" by auto
  let ?c = "c\<lparr>cc_haveMessage := False, cc_client := Some ws'\<rparr>"
  let ?c' = "fold receiveMessage ms ?c"
  note f = fold_receiveMessage [of ms ?c]
  have "getMessage shm_ops now c = Some (Inr (if cc_haveMessage ?c' then Some (cc_message ?c') else None, ?c'))"
    using w(1) p(1) by (simp add: getMessage_def Let_def)
  moreover have "(if cc_haveMessage ?c' then Some (cc_message ?c') else None) = last_text ms"
    using f by (auto split: option.splits)
  moreover have "served n k k ?c'" using f p w(7) by (simp add: served_def conn_at_def del: length_contents)
  moreover have "gets [] c ?c'" using f p w(1,2) by (simp add: gets_def)
  ultimately show ?thesis by auto
qed

section \<open>The loop over the clients\<close>

definition said :: "message list list \<Rightarrow> u8 list list" where
  "said mss = List.map_filter last_text mss"

definition said_cost :: "message list list \<Rightarrow> nat" where
  "said_cost mss = sum_list (map text_cost (said mss))"

lemma said_Cons:
  "said (ms # mss) = (case last_text ms of None \<Rightarrow> said mss | Some t \<Rightarrow> t # said mss)"
  by (simp add: said_def List.map_filter_simps split: option.split)

lemma last_text_short: "last_text ms = Some t \<Longrightarrow> length t < 511"
proof -
  assume "last_text ms = Some t"
  then obtain data a rest where r: "rev (filter (\<lambda>(data, isAscii). isAscii \<and> length data < 511) ms) = (data, a) # rest"
    and t: "t = takeWhile (\<lambda>c. c \<noteq> 0) data"
    by (auto simp: last_text_def split: list.splits)
  have "(data, a) \<in> set (filter (\<lambda>(data, isAscii). isAscii \<and> length data < 511) ms)"
    unfolding set_rev [symmetric, of "filter _ _"] r by simp
  then show ?thesis using t length_takeWhile_le [of "\<lambda>c. c \<noteq> 0" data] by auto
qed

lemma list_all2_gets_trans:
  "list_all2 (gets ts) as bs \<Longrightarrow> list_all2 (gets us) bs cs \<Longrightarrow> list_all2 (gets (ts @ us)) as cs"
  by (rule list_all2_trans [OF gets_trans])

lemma served_more: "served n j k c \<Longrightarrow> j \<le> t \<Longrightarrow> served n t k c"
  unfolding served_def by (meson le_trans)

lemma gets_nothing: "list_all2 (in_pass n t k) turns cs \<Longrightarrow> list_all2 (gets []) cs cs"
  by (induction rule: list_all2_induct) (auto elim!: in_pass_conn intro: gets_refl)

lemma echo_loop:
  assumes "list_all2 (in_pass n t (said_cost mss)) (replicate i None @ map Some mss) clients"
  shows "\<exists>clients'. echo_from shm_ops now [i..<i + length mss] clients = Some (Inr clients')
    \<and> list_all2 (gets (said mss)) clients clients' \<and> list_all2 (in_pass n t 0) (replicate (i + length mss) None) clients'"
  using assms
proof (induction mss arbitrary: i clients)
  case Nil
  then show ?case using gets_nothing [OF Nil] by (simp add: said_def said_cost_def List.map_filter_simps)
next
  case (Cons ms mss)
  let ?turns = "replicate i None @ None # map Some mss" and ?k = "said_cost (ms # mss)"
  have len: "length clients = i + Suc (length mss)" using list_all2_lengthD [OF Cons.prems] by simp
  have in_turn: "in_pass n t ?k (Some ms) (clients ! i)"
    using list_all2_nthD2 [OF Cons.prems, of i] len by (simp add: nth_append)
  then have "waiting n ?k ms (clients ! i)" by (simp add: in_pass_def)
  from waiting_getMessage [OF this] obtain c where
    c: "getMessage shm_ops now (clients ! i) = Some (Inr (last_text ms, c))" "served n ?k ?k c" "gets [] (clients ! i) c" by blast
  let ?cs = "clients[i := c]"
  have turns: "(replicate i None @ map Some (ms # mss))[i := None] = ?turns" by (simp add: list_update_append)
  have "in_pass n t ?k None c" using served_more [OF c(2), of t] in_turn by (simp add: in_pass_def)
  then have cs: "list_all2 (in_pass n t ?k) ?turns ?cs"
    using list_all2_update_cong [OF Cons.prems, of None c i] unfolding turns by simp
  have h: "list_all2 (gets []) clients ?cs"
    using list_all2_update_cong [OF gets_nothing [OF Cons.prems] c(3), of i] by simp
  have idx: "[i..<i + length (ms # mss)] = i # [Suc i..<Suc i + length mss]" by (simp add: upt_rec)
  have split: "?turns = replicate (Suc i) None @ map Some mss" by (simp add: replicate_app_Cons_same)
  note IH = Cons.IH [of "Suc i", unfolded split [symmetric]]
  show ?case
  proof (cases "last_text ms")
    case None
    then have e: "said (ms # mss) = said mss" "?k = said_cost mss" by (simp_all add: said_Cons said_cost_def)
    from IH cs obtain cs' where r: "echo_from shm_ops now [Suc i..<Suc i + length mss] ?cs = Some (Inr cs')"
      "list_all2 (gets (said mss)) ?cs cs'" "list_all2 (in_pass n t 0) (replicate (Suc i + length mss) None) cs'"
      unfolding e by blast
    have "echo_from shm_ops now [i..<i + length (ms # mss)] clients = Some (Inr cs')"
      unfolding idx using c(1) r(1) None by simp
    with r(3) list_all2_gets_trans [OF h r(2)] show ?thesis unfolding e(1) by auto
  next
    case (Some str)
    then have e: "said (ms # mss) = str # said mss" "?k = text_cost str + said_cost mss"
      by (simp_all add: said_Cons said_cost_def)
    have "length str < 2 ^ 30" using last_text_short [OF Some] by simp
    from in_pass_broadcast [OF cs [unfolded e(2)] this] obtain bs where
      b: "broadcast str ?cs = Inr bs" "list_all2 (in_pass n t (said_cost mss)) ?turns bs" "list_all2 (gets [str]) ?cs bs" by blast
    from IH [OF b(2)] obtain cs' where r: "echo_from shm_ops now [Suc i..<Suc i + length mss] bs = Some (Inr cs')"
      "list_all2 (gets (said mss)) bs cs'" "list_all2 (in_pass n t 0) (replicate (Suc i + length mss) None) cs'" by blast
    have "echo_from shm_ops now [i..<i + length (ms # mss)] clients = Some (Inr cs')"
      unfolding idx using c(1) b(1) r(1) Some by simp
    with r(3) list_all2_gets_trans [OF h list_all2_gets_trans [OF b(3) r(2)]] show ?thesis unfolding e(1) by auto
  qed
qed

lemma conn_at_isConnected: "conn_at n c ws s \<Longrightarrow> isConnected c"
  by (auto simp: conn_at_def at_rest_def isConnected_def getReadyState_def)

lemma pass_spec:
  assumes "list_all2 (waiting n (said_cost mss)) mss clients"
  shows "\<exists>clients'. run_pass shm_ops h e rnd stale clock now None None clients = Some (Inr (False, clients'))
    \<and> list_all2 (gets (said mss)) clients clients' \<and> (\<forall>c \<in> set clients'. served n (said_cost mss) 0 c)"
proof -
  have "\<forall>c \<in> set clients. isConnected c"
    using assms conn_at_isConnected by (fastforce simp: list_all2_conv_all_nth in_set_conv_nth waiting_def)
  then have "remove_dead shm_ops clock clients = Some (Inr clients)" by (simp add: remove_dead_filter)
  moreover have "list_all2 (in_pass n (said_cost mss) (said_cost mss)) (replicate 0 None @ map Some mss) clients"
    using assms by (auto simp: list_all2_map1 in_pass_def waiting_def elim!: list_all2_mono)
  from echo_loop [OF this, of now] obtain cs where
    "echo_from shm_ops now [0..<length mss] clients = Some (Inr cs)" "list_all2 (gets (said mss)) clients cs"
    "list_all2 (in_pass n (said_cost mss) 0) (replicate (length mss) None) cs" by auto
  moreover from this(3) have "\<forall>c \<in> set cs. served n (said_cost mss) 0 c"
    by (fastforce simp: list_all2_conv_all_nth in_set_conv_nth in_pass_def)
  ultimately show ?thesis
    using list_all2_lengthD [OF assms] by (simp add: run_pass_def console_line_def)
qed

section \<open>Property\<close>


text \<open>A client over shared memory from which frames have arrived.\<close>

definition shm_client :: "u32 \<Rightarrow> frame list \<Rightarrow> shm_socket client_connection" where
  "shm_client i fs =
     \<lparr>cc_haveMessage = False, cc_message = [], cc_client = Some (shm_connection True [] (encode_frames fs)), cc_id = i\<rparr>"

lemma waiting_shm_client:
  assumes "list_all2 carries fs ms" and "sum_list (map message_cost ms) \<le> 16000" and "k \<le> 16350"
  shows "waiting 100000 k ms (shm_client i fs)"
proof -
  let ?ys = "encode_frames fs"
  have y: "length ?ys \<le> 16000" using carried_length [OF assms(1)] assms(2) by simp
  then have "at_rest 100000 100000 (shm_connection True [] ?ys)" by (intro at_rest_shm_connection) simp_all
  with client_socket [of ?ys] y assms show ?thesis
    unfolding waiting_def conn_at_def shm_client_def
    by (intro exI [of _ "shm_connection True [] ?ys"] exI [of _ "client_socket ?ys"] exI [of _ fs]) simp
qed


end
