(* ===== verification/TestClient.thy ===== *)
theory TestClient
  imports TestServer
begin

text \<open>
  \<open>app/TestClient/TestClient.cpp\<close>: the console client. The lines that are typed and the readings of
  the clock are arguments; what the callback prints is the list of bytes it writes.
\<close>

section \<open>The code\<close>

text \<open>\<open>ReceiveData::receiveMessage\<close>.\<close>

definition print_message :: "message \<Rightarrow> u8 list" where
  "print_message m =
     (let (data, isAscii) = m; dataLen = word_of_nat (length data) :: u32
      in if isAscii then ascii ''Got message:'' @ data @ [0x0D, 0x0A]
         else ascii ''Got binary data '' @ ascii (format_int (sint dataLen)) @ ascii '' bytes long.'' @ [0x0D, 0x0A])"

definition host_of :: "u8 list list \<Rightarrow> u8 list" where
  "host_of argv = (if length argv = 2 then argv ! 1 else ascii ''localhost'')"

definition connect_string :: "u8 list \<Rightarrow> u8 list" where
  "connect_string host = stringFormat 512 (ascii ''ws://'' @ host @ ascii '':3009'')"

text \<open>One pass of the loop: the new value of \<open>keepRunning\<close> and what is printed.\<close>

definition client_pass ::
  "'s wsocket_ops \<Rightarrow> int \<Rightarrow> u8 list option \<Rightarrow> 's web_socket \<Rightarrow> (bool \<times> u8 list \<times> 's web_socket) result option" where
  "client_pass ops now data ws =
     lbind (case data of
              None \<Rightarrow> Some (Inr (True, ws))
            | Some str \<Rightarrow> Some (ebind (sendText ws (Some str)) (\<lambda>ws. Inr (\<not> is_quit str, ws)))) (\<lambda>(keepRunning, ws).
     lbind (poll ops now True 1 (ws, [])) (\<lambda>(ws, msgs).
     Some (Inr (keepRunning, concat (map print_message msgs), ws))))"

text \<open>The loop over its inputs; when it has ended, \<open>delete ws\<close>. The boolean tells whether it has.\<close>

fun client_loop ::
  "'s wsocket_ops \<Rightarrow> (nat \<Rightarrow> int) \<Rightarrow> (int \<times> u8 list option) list \<Rightarrow> 's web_socket \<Rightarrow>
   (bool \<times> u8 list \<times> 's web_socket) result option" where
  "client_loop ops clock [] ws = Some (Inr (False, [], ws))"
| "client_loop ops clock ((now, data) # inputs) ws =
     lbind (client_pass ops now data ws) (\<lambda>(keepRunning, out, ws).
     if keepRunning then
       lbind (client_loop ops clock inputs ws) (\<lambda>(ended, out2, ws). Some (Inr (ended, out @ out2, ws)))
     else lbind (destroy ops clock ws) (\<lambda>ws. Some (Inr (True, out, ws))))"

section \<open>What a pass does\<close>

definition typed :: "u8 list option \<Rightarrow> u8 list list" where
  "typed data = (case data of None \<Rightarrow> [] | Some str \<Rightarrow> [str])"

definition keeps_running :: "u8 list option \<Rightarrow> bool" where
  "keeps_running data = (case data of None \<Rightarrow> True | Some str \<Rightarrow> \<not> is_quit str)"

text \<open>
  Over shared memory a pass sends the line that is typed as one text frame, prints every message that has arrived,
  and leaves the connection as it was.
\<close>

lemma client_pass_at_rest:
  assumes s: "mSocket ws = Some s" "shm_inv s" and rest: "at_rest n n ws" "contents (mTransmitBuffer ws) = []"
    and n: "length (shm_incoming s) + 4096 \<le> n"
    and line: "sum_list (map message_cost (texts (typed data))) \<le> min n (shm_window s)" "\<forall>str \<in> set (typed data). length str < 2 ^ 30"
    and fs: "list_all2 carries fs ms" "shm_incoming s = encode_frames fs"
  shows "\<exists>ws' s' gs. client_pass shm_ops now data ws = Some (Inr (keeps_running data, concat (map print_message ms), ws'))
    \<and> mSocket ws' = Some s' \<and> shm_inv s' \<and> same_rings s s' \<and> shm_incoming s' = []
    \<and> list_all2 carries gs (texts (typed data)) \<and> shm_outgoing s' = shm_outgoing s @ encode_frames gs
    \<and> contents (mTransmitBuffer ws') = [] \<and> at_rest n n ws'"
proof -
  have "\<exists>w gs. (case data of None \<Rightarrow> Some (Inr (True, ws))
      | Some str \<Rightarrow> Some (ebind (sendText ws (Some str)) (\<lambda>ws. Inr (\<not> is_quit str, ws)))) = Some (Inr (keeps_running data, w))
    \<and> at_rest n n w \<and> mSocket w = Some s \<and> list_all2 carries gs (texts (typed data))
    \<and> contents (mTransmitBuffer w) = encode_frames gs"
  proof (cases data)
    case None
    then show ?thesis using rest s(1) by (intro exI [of _ ws] exI [of _ "[]"]) (simp add: keeps_running_def typed_def)
  next
    case (Some str)
    with line have l: "0 + message_cost (str, True) \<le> n" "length (fst (str, True)) < 2 ^ 30" by (simp_all add: typed_def)
    from at_rest_send [OF rest(1) _ l(2)] l(1) rest(2) obtain w f where w: "send_message ws (str, True) = Inr w" "at_rest n n w"
      "mSocket w = mSocket ws" "carries f (str, True)" "contents (mTransmitBuffer w) = encode_frame f"
      by (auto simp del: length_contents)
    then have "sendText ws (Some str) = Inr w" by (simp add: send_message_def)
    with w s(1) Some show ?thesis
      by (intro exI [of _ w] exI [of _ "[f]"]) (simp add: keeps_running_def typed_def)
  qed
  then obtain w gs where w: "(case data of None \<Rightarrow> Some (Inr (True, ws))
      | Some str \<Rightarrow> Some (ebind (sendText ws (Some str)) (\<lambda>ws. Inr (\<not> is_quit str, ws)))) = Some (Inr (keeps_running data, w))"
    "at_rest n n w" "mSocket w = Some s" "list_all2 carries gs (texts (typed data))"
    "contents (mTransmitBuffer w) = encode_frames gs" by blast
  have tx: "length (contents (mTransmitBuffer w)) \<le> shm_window s" using carried_length [OF w(4)] line(1) unfolding w(5) by simp
  from rings.poll_at_rest [OF w(3) _ w(2) n tx fs, of s now 1 "[]"] s(2) w(5) obtain ws' s' where
    "poll shm_ops now True 1 (w, []) = Some (Inr (ws', ms))" "mSocket ws' = Some s'" "shm_inv s'" "same_rings s s'"
    "shm_incoming s' = []" "shm_outgoing s' = shm_outgoing s @ encode_frames gs" "contents (mTransmitBuffer ws') = []"
    "at_rest n n ws'" by auto
  with w(1,4) show ?thesis unfolding client_pass_def by auto
qed

lemma quit_ends_client:
  assumes "client_pass ops now data ws = Some (Inr (False, out, ws'))" and "destroy ops clock ws' = Some (Inr ws'')"
  shows "client_loop ops clock ((now, data) # inputs) ws = Some (Inr (True, out, ws''))"
  using assms by simp

text \<open>The client's URL is one the server accepts: port 3009 and no path.\<close>

lemma connect_string_parsed:
  assumes "host \<noteq> []" and "58 \<notin> set host" and "47 \<notin> set host" and "length host \<le> 500"
  shows "parse_url (connect_string host) = Some (host, 3009, [])"
proof -
  have d: "decimal 3009 = ''3009''" by (simp add: decimal.simps digit_def)
  have "connect_string host = ascii ''ws://'' @ host @ ascii '':'' @ ascii (decimal 3009)"
    using assms(4) d by (simp add: connect_string_def stringFormat_def)
  then have c: "connect_string host = ascii ''ws://'' @ host @ 58 # ascii (decimal 3009)" by simp
  have port: "sscanf (IntConv # fmt) (ascii (decimal 3009)) = VInt 3009 # sscanf fmt []" for fmt
    using scan_port [of "[]" _ 3009] by (simp del: sscanf.simps(6))
  show ?thesis unfolding c parse_url_def fmt_simps
    using scan_until [OF assms(1-3), of "58 # ascii (decimal 3009)"] port by (simp del: sscanf.simps(4-6))
qed

end
