(* ===== verification/Chat.thy ===== *)
theory Chat
  imports ChatServer TestClient
begin

text \<open>
  The chat as a whole, over shared memory: any number of the console clients of \<open>TestClient.cpp\<close>, each with files of
  its own, and the server of \<open>TestServer.cpp\<close>. In a round every client makes one pass of its loop, and then the server.
\<close>

section \<open>Two ends of the same files\<close>

text \<open>What \<open>t\<close> finds in the files after \<open>s\<close> has used them.\<close>

definition share :: "shm_socket \<Rightarrow> shm_socket \<Rightarrow> shm_socket" where
  "share s t = t\<lparr>shm_serverFile := shm_serverFile s, shm_clientFile := shm_clientFile s\<rparr>"

definition refresh :: "shm_socket web_socket \<Rightarrow> shm_socket web_socket \<Rightarrow> shm_socket web_socket" where
  "refresh ws w =
     w\<lparr>mSocket := (case mSocket ws of None \<Rightarrow> mSocket w | Some s \<Rightarrow> map_option (share s) (mSocket w))\<rparr>"

definition linked :: "shm_socket \<Rightarrow> shm_socket \<Rightarrow> bool" where
  "linked a s \<longleftrightarrow> \<not> shm_isServer a \<and> shm_isServer s \<and> shm_serverFile s = shm_serverFile a \<and> shm_clientFile s = shm_clientFile a
     \<and> mCapacity (shm_reader s) = mCapacity (shm_writer a) \<and> mCapacity (shm_writer s) = mCapacity (shm_reader a)"

lemma linked_streams: "linked a s \<Longrightarrow> shm_incoming s = shm_outgoing a" "linked a s \<Longrightarrow> shm_incoming a = shm_outgoing s"
  by (simp_all add: linked_def shm_incoming_def shm_outgoing_def shm_in_def shm_out_def ring_contents_def)

lemma linked_shares:
  "linked a s \<Longrightarrow> same_rings a a' \<Longrightarrow> shm_inv a' \<Longrightarrow> shm_inv s \<Longrightarrow> linked a' (share a' s) \<and> shm_inv (share a' s)"
  "linked a s \<Longrightarrow> same_rings s s' \<Longrightarrow> shm_inv s' \<Longrightarrow> shm_inv a \<Longrightarrow> linked (share s' a) s' \<and> shm_inv (share s' a)"
  by (auto simp: linked_def same_rings_def share_def shm_inv_def shm_in_def shm_out_def ring_inv_def Let_def)

lemma share_window: "shm_window (share s t) = unat (mCapacity (shm_writer t)) - length (shm_outgoing (share s t)) - 2"
  by (simp add: shm_window_def share_def)

lemma at_rest_refresh [simp]:
  "at_rest n m (refresh ws w) = at_rest n m w" "mTransmitBuffer (refresh ws w) = mTransmitBuffer w"
  by (simp_all add: at_rest_def refresh_def)

section \<open>Rounds\<close>

type_synonym peer = "shm_socket web_socket \<times> shm_socket client_connection"

fun clients_turn ::
  "int \<Rightarrow> u8 list option list \<Rightarrow> peer list \<Rightarrow> (u8 list \<times> peer) list result option" where
  "clients_turn now (data # lines) ((a, c) # peers) =
     lbind (client_pass shm_ops now data a) (\<lambda>(_, out, a).
     lbind (clients_turn now lines peers) (\<lambda>turns.
       Some (Inr ((out, a, c\<lparr>cc_client := map_option (refresh a) (cc_client c)\<rparr>) # turns))))"
| "clients_turn now _ _ = Some (Inr [])"

definition answer :: "shm_socket web_socket \<Rightarrow> shm_socket client_connection \<Rightarrow> peer" where
  "answer a c = (case cc_client c of None \<Rightarrow> (a, c) | Some w \<Rightarrow> (refresh w a, c))"

definition chat_round ::
  "allocator \<Rightarrow> endian \<Rightarrow> (nat \<Rightarrow> u64) \<Rightarrow> u8 list \<Rightarrow> (nat \<Rightarrow> int) \<Rightarrow> int \<Rightarrow> u8 list option list \<Rightarrow> peer list \<Rightarrow>
   (u8 list list \<times> peer list) result option" where
  "chat_round h e rnd stale clock now lines peers =
     lbind (clients_turn now lines peers) (\<lambda>turns.
     lbind (run_pass shm_ops h e rnd stale clock now None None (map (snd \<circ> snd) turns)) (\<lambda>(_, cs).
       Some (Inr (map fst turns, map2 answer (map (fst \<circ> snd) turns) cs))))"

text \<open>What each client has printed after a sequence of rounds, and how it goes on.\<close>

fun chat ::
  "allocator \<Rightarrow> endian \<Rightarrow> (nat \<Rightarrow> u64) \<Rightarrow> u8 list \<Rightarrow> (nat \<Rightarrow> int) \<Rightarrow> int \<Rightarrow> u8 list option list list \<Rightarrow> peer list \<Rightarrow>
   (u8 list list \<times> peer list) result option" where
  "chat h e rnd stale clock now [] peers = Some (Inr (map (\<lambda>_. []) peers, peers))"
| "chat h e rnd stale clock now (lines # rounds) peers =
     lbind (chat_round h e rnd stale clock now lines peers) (\<lambda>(outs, peers).
     lbind (chat h e rnd stale clock now rounds peers) (\<lambda>(outs2, peers).
       Some (Inr (map2 (@) outs outs2, peers))))"

section \<open>The invariant\<close>

text \<open>
  A client and its connection between two rounds: the texts \<open>us\<close> are in the ring for the client, the texts \<open>vs\<close> in the transmit
  buffer of the connection; the other direction is empty. In a round at most \<open>k\<close> bytes are said.
\<close>

definition peer_inv :: "nat \<Rightarrow> nat \<Rightarrow> u8 list list \<times> u8 list list \<Rightarrow> peer \<Rightarrow> bool" where
  "peer_inv n k pending p \<longleftrightarrow>
     (\<exists>a c sa ws s gs hs. p = (a, c) \<and> mSocket a = Some sa \<and> shm_inv sa \<and> at_rest n n a \<and> contents (mTransmitBuffer a) = []
        \<and> conn_at n c ws s \<and> linked sa s \<and> shm_outgoing sa = []
        \<and> shm_outgoing s = encode_frames gs \<and> contents (mTransmitBuffer ws) = encode_frames hs
        \<and> list_all2 carries gs (texts (fst pending)) \<and> list_all2 carries hs (texts (snd pending))
        \<and> length (encode_frames gs) \<le> 2 * k \<and> length (encode_frames hs) \<le> k
        \<and> 2 * k + 2 \<le> unat (mCapacity (shm_writer s)) \<and> k + 2 \<le> unat (mCapacity (shm_writer sa)))"

text \<open>The same after the turn of the client, which has printed \<open>us\<close> and sent what was typed.\<close>

definition turned :: "nat \<Rightarrow> nat \<Rightarrow> u8 list option \<Rightarrow> u8 list list \<times> u8 list list \<Rightarrow> u8 list \<times> peer \<Rightarrow> bool" where
  "turned n k data pending r \<longleftrightarrow>
     (\<exists>a c sa ws s fs hs. r = (concat (map (\<lambda>t. print_message (t, True)) (fst pending)), a, c) \<and> mSocket a = Some sa \<and> shm_inv sa
        \<and> at_rest n n a \<and> contents (mTransmitBuffer a) = [] \<and> conn_at n c ws s \<and> linked sa s \<and> shm_outgoing s = []
        \<and> shm_incoming s = encode_frames fs \<and> contents (mTransmitBuffer ws) = encode_frames hs
        \<and> list_all2 carries fs (texts (typed data)) \<and> list_all2 carries hs (texts (snd pending))
        \<and> length (encode_frames fs) \<le> k \<and> length (encode_frames hs) \<le> k
        \<and> 2 * k + 2 \<le> unat (mCapacity (shm_writer s)) \<and> k + 2 \<le> unat (mCapacity (shm_writer sa)))"

section \<open>One round\<close>

lemma cost_texts: "sum_list (map message_cost (texts ts)) = sum_list (map text_cost ts)"
  by (induction ts) (simp_all add: message_cost_def text_cost_def)

lemma turn_spec:
  assumes inv: "peer_inv n k pending (a, c)" and n: "2 * k + 4096 \<le> n"
    and line: "sum_list (map text_cost (typed data)) \<le> k" "\<forall>str \<in> set (typed data). length str < 511"
  shows "\<exists>keep out a'. client_pass shm_ops now data a = Some (Inr (keep, out, a'))
    \<and> turned n k data pending (out, a', c\<lparr>cc_client := map_option (refresh a') (cc_client c)\<rparr>)"
proof -
  from inv obtain sa ws s gs hs where p: "mSocket a = Some sa" "shm_inv sa" "at_rest n n a" "contents (mTransmitBuffer a) = []"
    "conn_at n c ws s" "linked sa s" "shm_outgoing sa = []" "shm_outgoing s = encode_frames gs"
    "contents (mTransmitBuffer ws) = encode_frames hs"
    "list_all2 carries gs (texts (fst pending))" "list_all2 carries hs (texts (snd pending))"
    "length (encode_frames gs) \<le> 2 * k" "length (encode_frames hs) \<le> k"
    "2 * k + 2 \<le> unat (mCapacity (shm_writer s))" "k + 2 \<le> unat (mCapacity (shm_writer sa))"
    unfolding peer_inv_def by auto
  note conn = p(5) [unfolded conn_at_def]
  have inc: "shm_incoming sa = encode_frames gs" using linked_streams(2) [OF p(6)] p(8) by simp
  have cost: "sum_list (map message_cost (texts (typed data))) \<le> k"
    using line(1) unfolding cost_texts .
  moreover have "k \<le> min n (shm_window sa)" using n p(7,15) by (simp add: shm_window_def)
  ultimately have fits: "sum_list (map message_cost (texts (typed data))) \<le> min n (shm_window sa)" by (rule order_trans)
  have room: "length (shm_incoming sa) + 4096 \<le> n" unfolding inc using n p(12) by simp
  have short: "\<forall>str \<in> set (typed data). length str < 2 ^ 30" using line(2) by auto
  from client_pass_at_rest [OF p(1-4) room fits short p(10) inc, of now] p(7) obtain a' sa' fs where
    t: "client_pass shm_ops now data a = Some (Inr (keeps_running data, concat (map print_message (texts (fst pending))), a'))"
    "mSocket a' = Some sa'" "shm_inv sa'" "same_rings sa sa'" "shm_incoming sa' = []"
    "list_all2 carries fs (texts (typed data))" "shm_outgoing sa' = encode_frames fs"
    "contents (mTransmitBuffer a') = []" "at_rest n n a'" by auto
  have "length (encode_frames fs) \<le> k" using carried_length [OF t(6)] cost by simp
  moreover have l: "linked sa' (share sa' s)" "shm_inv (share sa' s)" using linked_shares(1) [OF p(6) t(4,3)] conn by auto
  moreover have conn': "conn_at n (c\<lparr>cc_client := map_option (refresh a') (cc_client c)\<rparr>) (refresh a' ws) (share sa' s)"
    using conn l(2) t(2) by (simp add: conn_at_def) (simp add: refresh_def)
  moreover have "shm_writer (share sa' s) = shm_writer s" "shm_writer sa' = shm_writer sa"
    using t(4) by (simp_all add: share_def same_rings_def)
  ultimately have "turned n k data pending (concat (map print_message (texts (fst pending))), a',
      c\<lparr>cc_client := map_option (refresh a') (cc_client c)\<rparr>)"
    unfolding turned_def using t(2-9) p(9,11,13-15) linked_streams [OF l(1)]
    by (intro exI [of _ a'] exI [of _ "c\<lparr>cc_client := map_option (refresh a') (cc_client c)\<rparr>"] exI [of _ sa']
        exI [of _ "refresh a' ws"] exI [of _ "share sa' s"] exI [of _ fs] exI [of _ hs]) (simp add: comp_def del: length_contents)
  with t(1) show ?thesis by blast
qed

lemma turned_waiting:
  assumes "turned n k data pending (out, a, c)" and "m \<le> k" and "2 * k + 4096 \<le> n"
  shows "waiting n m (texts (typed data)) c"
proof -
  from assms(1) obtain ws s fs hs where t: "conn_at n c ws s" "shm_outgoing s = []" "shm_incoming s = encode_frames fs"
    "contents (mTransmitBuffer ws) = encode_frames hs" "list_all2 carries fs (texts (typed data))"
    "length (encode_frames fs) \<le> k" "length (encode_frames hs) \<le> k" "2 * k + 2 \<le> unat (mCapacity (shm_writer s))"
    unfolding turned_def by auto
  then show ?thesis using assms(2,3) unfolding waiting_def
    by (intro exI [of _ ws] exI [of _ s] exI [of _ fs]) (simp add: shm_window_def del: length_contents)
qed

lemma carried_empty:
  assumes "list_all2 carries fs ms" and "encode_frames fs = []"
  shows "ms = []"
proof (cases fs)
  case (Cons f gs)
  then have "frame_ok f" using assms(1) by (auto simp: list_all2_Cons1 carries_def)
  moreover have "length (encode_frame f) = 0" using assms(2) Cons by simp
  ultimately show ?thesis using length_encode_frame [of f] head_len_bounds(1) [of f] by linarith
qed (use assms(1) in simp)

text \<open>What a connection gets in the pass of the server is with its client, or on the way to it, after the round.\<close>

lemma turned_peer:
  assumes t: "turned n k data pending (out, a, c)" and g: "gets ts c c'" and served: "served n m 0 c'"
    and m: "m = sum_list (map text_cost ts)" "m \<le> k"
  shows "\<exists>pending'. peer_inv n k pending' (answer a c') \<and> fst pending' @ snd pending' = snd pending @ ts
    \<and> (ts = [] \<longrightarrow> snd pending' = [])"
proof -
  from t obtain sa ws s hs where a: "mSocket a = Some sa" "shm_inv sa" "at_rest n n a" "contents (mTransmitBuffer a) = []"
    and c: "conn_at n c ws s" "linked sa s" "shm_outgoing s = []" "contents (mTransmitBuffer ws) = encode_frames hs"
    and hs: "list_all2 carries hs (texts (snd pending))" "length (encode_frames hs) \<le> k"
    and caps: "2 * k + 2 \<le> unat (mCapacity (shm_writer s))" "k + 2 \<le> unat (mCapacity (shm_writer sa))"
    unfolding turned_def by auto
  note conn = c(1) [unfolded conn_at_def]
  from g conn obtain ws' s' gs' hs' where w: "cc_client c' = Some ws'" "mSocket ws' = Some s'" "same_rings s s'"
    "list_all2 carries (gs' @ hs') (texts ts)"
    and moved: "gs' = [] \<and> shm_outgoing s' = [] \<and> contents (mTransmitBuffer ws') = encode_frames (hs @ hs')
      \<or> shm_outgoing s' = encode_frames (hs @ gs') \<and> contents (mTransmitBuffer ws') = encode_frames hs'"
    using c(3,4) unfolding gets_def by auto
  from served w(1,2) have c': "conn_at n c' ws' s'" "shm_incoming s' = []" "length (contents (mTransmitBuffer ws')) \<le> m"
    by (auto simp: served_def conn_at_def)
  have l: "linked (share s' sa) s'" "shm_inv (share s' sa)"
    using linked_shares(2) [OF c(2) w(3) _ a(2)] c'(1) by (auto simp: conn_at_def)
  have same: "shm_writer s' = shm_writer s" "shm_writer (share s' sa) = shm_writer sa"
    using w(3) by (simp_all add: same_rings_def share_def)
  have ans: "answer a c' = (refresh ws' a, c')" "mSocket (refresh ws' a) = Some (share s' sa)"
    using w(1,2) a(1) by (simp_all add: answer_def refresh_def)
  have peer: "peer_inv n k (us, vs) (answer a c')"
    if "shm_outgoing s' = encode_frames gs2" "contents (mTransmitBuffer ws') = encode_frames hs2"
      "list_all2 carries gs2 (texts us)" "list_all2 carries hs2 (texts vs)" "length (encode_frames gs2) \<le> 2 * k" for us vs gs2 hs2
    unfolding peer_inv_def
    using that a(3,4) c' l linked_streams(1) [OF l(1)] same caps ans m(2)
    by (intro exI [of _ "refresh ws' a"] exI [of _ c'] exI [of _ "share s' sa"] exI [of _ ws'] exI [of _ s']
        exI [of _ gs2] exI [of _ hs2]) (simp del: length_contents)
  from moved show ?thesis
  proof
    assume d: "gs' = [] \<and> shm_outgoing s' = [] \<and> contents (mTransmitBuffer ws') = encode_frames (hs @ hs')"
    have all: "list_all2 carries (hs @ hs') (texts (snd pending @ ts))" using carried_append [OF hs(1)] w(4) d by simp
    moreover have "snd pending @ ts = []" if "ts = []"
      using carried_empty [OF all] that c'(3) d m(1) by (simp del: length_contents)
    ultimately show ?thesis using peer [of "[]" "hs @ hs'" "[]" "snd pending @ ts"] d by fastforce
  next
    assume d: "shm_outgoing s' = encode_frames (hs @ gs') \<and> contents (mTransmitBuffer ws') = encode_frames hs'"
    from w(4) obtain us vs where uv: "ts = us @ vs" "list_all2 carries gs' (texts us)" "list_all2 carries hs' (texts vs)"
      by (auto simp: list_all2_append1 map_eq_append_conv)
    have "length (encode_frames gs') \<le> k"
      using carried_length [OF uv(2)] m uv(1) unfolding cost_texts by simp
    with hs(2) have "length (encode_frames (hs @ gs')) \<le> 2 * k" by simp
    with peer [of "hs @ gs'" hs' "snd pending @ us" vs] d uv carried_append [OF hs(1) uv(2)] show ?thesis
      by (intro exI [of _ "(snd pending @ us, vs)"]) simp
  qed
qed

section \<open>All the clients\<close>

definition lines_of :: "u8 list option list \<Rightarrow> u8 list list" where
  "lines_of lines = concat (map typed lines)"

text \<open>What a client has on its console after it has received the texts: a line for each.\<close>

definition transcript :: "u8 list list \<Rightarrow> u8 list" where
  "transcript ts = concat (map (\<lambda>t. ascii ''Got message:'' @ t @ [0x0D, 0x0A]) ts)"

text \<open>What may be typed in a round: at most \<open>k\<close> bytes in lines that are sent on whole, and no word that ends a client.\<close>

definition round_ok :: "nat \<Rightarrow> nat \<Rightarrow> u8 list option list \<Rightarrow> bool" where
  "round_ok k m lines \<longleftrightarrow> length lines = m \<and> sum_list (map text_cost (lines_of lines)) \<le> k
     \<and> (\<forall>str \<in> set (lines_of lines). length str < 511 \<and> 0 \<notin> set str \<and> \<not> is_quit str)"

lemma lines_of_simps [simp]: "lines_of [] = []" "lines_of (data # lines) = typed data @ lines_of lines"
  "lines_of (xs @ ys) = lines_of xs @ lines_of ys" "lines_of (replicate m None) = []"
  by (simp_all add: lines_of_def typed_def)

lemma transcript_simps [simp]: "transcript [] = []" "transcript (xs @ ys) = transcript xs @ transcript ys"
  by (simp_all add: transcript_def)

lemma prints_transcript: "concat (map (\<lambda>t. print_message (t, True)) ts) = transcript ts"
  by (simp add: transcript_def print_message_def)

lemma line_cost:
  "data \<in> set lines \<Longrightarrow> sum_list (map text_cost (typed data)) \<le> sum_list (map text_cost (lines_of lines))"
  by (induction lines) auto

lemma line_member: "data \<in> set lines \<Longrightarrow> set (typed data) \<subseteq> set (lines_of lines)"
  by (induction lines) auto

lemma said_lines:
  assumes "\<forall>str \<in> set (lines_of lines). length str < 511 \<and> 0 \<notin> set str"
  shows "said (map (\<lambda>data. texts (typed data)) lines) = lines_of lines"
  using assms
proof (induction lines)
  case (Cons data lines)
  show ?case
  proof (cases data)
    case None
    with Cons show ?thesis by (simp add: said_Cons typed_def last_text_def)
  next
    case (Some str)
    with Cons.prems have "takeWhile (\<lambda>c. c \<noteq> 0) str = str" by (auto simp: typed_def takeWhile_eq_all_conv)
    with Some Cons show ?thesis by (simp add: said_Cons typed_def last_text_def)
  qed
qed (simp add: said_def List.map_filter_simps)

lemma clients_turn_spec:
  assumes "list_all2 (peer_inv n k) pendings peers" and "length lines = length peers" and n: "2 * k + 4096 \<le> n"
    and "\<forall>data \<in> set lines. sum_list (map text_cost (typed data)) \<le> k \<and> (\<forall>str \<in> set (typed data). length str < 511)"
  shows "\<exists>turns. clients_turn now lines peers = Some (Inr turns) \<and> length turns = length peers
    \<and> (\<forall>i<length peers. turned n k (lines ! i) (pendings ! i) (turns ! i))"
  using assms(1,2,4)
proof (induction arbitrary: lines rule: list_all2_induct)
  case (Cons pending pendings p peers)
  then obtain data lines' where l: "lines = data # lines'" by (cases lines) auto
  obtain a c where p: "p = (a, c)" by (rule prod.exhaust)
  from Cons.prems(2) l have line: "sum_list (map text_cost (typed data)) \<le> k" "\<forall>str \<in> set (typed data). length str < 511"
    by simp_all
  from turn_spec [OF Cons.hyps(1) [unfolded p] n line, of now] obtain keep out a' where
    t: "client_pass shm_ops now data a = Some (Inr (keep, out, a'))"
    "turned n k data pending (out, a', c\<lparr>cc_client := map_option (refresh a') (cc_client c)\<rparr>)" by blast
  from Cons.IH [of lines'] Cons.prems l obtain turns where
    "clients_turn now lines' peers = Some (Inr turns)" "length turns = length peers"
    "\<forall>i<length peers. turned n k (lines' ! i) (pendings ! i) (turns ! i)" by auto
  with t show ?case by (auto simp: l p nth_Cons split: nat.split)
qed simp

lemma round_spec:
  assumes inv: "list_all2 (peer_inv n k) pendings peers" and ok: "round_ok k (length peers) lines" and n: "2 * k + 4096 \<le> n"
  shows "\<exists>peers' pendings'. chat_round h e rnd stale clock now lines peers
      = Some (Inr (map (\<lambda>p. transcript (fst p)) pendings, peers'))
    \<and> list_all2 (peer_inv n k) pendings' peers'
    \<and> list_all2 (\<lambda>p p'. fst p' @ snd p' = snd p @ lines_of lines \<and> (lines_of lines = [] \<longrightarrow> snd p' = [])) pendings pendings'"
proof -
  let ?m = "length peers" and ?mss = "map (\<lambda>data. texts (typed data)) lines"
  let ?cost = "sum_list (map text_cost (lines_of lines))"
  note r = ok [unfolded round_ok_def]
  have len: "length lines = ?m" "length pendings = ?m" using r list_all2_lengthD [OF inv] by simp_all
  have "\<forall>data \<in> set lines. sum_list (map text_cost (typed data)) \<le> k \<and> (\<forall>str \<in> set (typed data). length str < 511)"
    using line_cost line_member r by (meson le_trans subsetD)
  from clients_turn_spec [OF inv len(1) n this, of now] obtain turns where
    t: "clients_turn now lines peers = Some (Inr turns)" "length turns = ?m"
    "\<And>i. i < ?m \<Longrightarrow> turned n k (lines ! i) (pendings ! i) (turns ! i)" by blast
  have said: "said ?mss = lines_of lines" using r by (intro said_lines) blast
  then have cost: "said_cost ?mss = ?cost" by (simp add: said_cost_def)
  have "waiting n ?cost (?mss ! i) (snd (snd (turns ! i)))" if "i < ?m" for i
    using turned_waiting [of n k "lines ! i" "pendings ! i" "fst (turns ! i)" "fst (snd (turns ! i))" "snd (snd (turns ! i))" ?cost]
      t(3) [OF that] r n that len by simp
  then have "list_all2 (waiting n (said_cost ?mss)) ?mss (map (snd \<circ> snd) turns)"
    unfolding cost using len t(2) by (simp add: list_all2_conv_all_nth)
  from pass_spec [OF this] obtain cs where
    p: "run_pass shm_ops h e rnd stale clock now None None (map (snd \<circ> snd) turns) = Some (Inr (False, cs))"
    "list_all2 (gets (lines_of lines)) (map (snd \<circ> snd) turns) cs" "\<forall>c \<in> set cs. served n ?cost 0 c"
    unfolding said cost by blast
  let ?peers = "map2 answer (map (fst \<circ> snd) turns) cs"
  have lcs: "length cs = ?m" using list_all2_lengthD [OF p(2)] t(2) by simp
  have "\<exists>p'. peer_inv n k p' (?peers ! i) \<and> fst p' @ snd p' = snd (pendings ! i) @ lines_of lines
      \<and> (lines_of lines = [] \<longrightarrow> snd p' = [])" if i: "i < ?m" for i
    using turned_peer [of n k "lines ! i" "pendings ! i" "fst (turns ! i)" "fst (snd (turns ! i))" "snd (snd (turns ! i))"
        "lines_of lines" "cs ! i" ?cost] t(3) [OF i] list_all2_nthD2 [OF p(2), of i] p(3) r i lcs t(2) by simp
  then obtain f where f: "\<And>i. i < ?m \<Longrightarrow> peer_inv n k (f i) (?peers ! i) \<and> fst (f i) @ snd (f i) = snd (pendings ! i) @ lines_of lines
      \<and> (lines_of lines = [] \<longrightarrow> snd (f i) = [])" by metis
  have "fst (turns ! i) = transcript (fst (pendings ! i))" if "i < ?m" for i
    using t(3) [OF that] by (auto simp: turned_def prints_transcript)
  then have "map fst turns = map (\<lambda>p. transcript (fst p)) pendings"
    using t(2) len by (intro nth_equalityI) simp_all
  then have "chat_round h e rnd stale clock now lines peers = Some (Inr (map (\<lambda>p. transcript (fst p)) pendings, ?peers))"
    using t(1) p(1) by (simp add: chat_round_def)
  moreover have "list_all2 (peer_inv n k) (map f [0..<?m]) ?peers"
    using f lcs t(2) by (simp add: list_all2_conv_all_nth)
  moreover have "list_all2 (\<lambda>p p'. fst p' @ snd p' = snd p @ lines_of lines \<and> (lines_of lines = [] \<longrightarrow> snd p' = []))
      pendings (map f [0..<?m])"
    using f len by (simp add: list_all2_conv_all_nth)
  ultimately show ?thesis by blast
qed

section \<open>All the rounds\<close>

lemma chat_quiet:
  assumes inv: "list_all2 (peer_inv n k) pendings peers" and n: "2 * k + 4096 \<le> n"
  shows "\<exists>peers'. chat h e rnd stale clock now [replicate (length peers) None, replicate (length peers) None] peers
      = Some (Inr (map (\<lambda>p. transcript (fst p @ snd p)) pendings, peers'))
    \<and> list_all2 (peer_inv n k) (replicate (length peers) ([], [])) peers'"
proof -
  let ?q = "replicate (length peers) None"
  have ok: "round_ok k (length peers) ?q" by (simp add: round_ok_def)
  from round_spec [OF inv ok n, of h e rnd stale clock now] obtain peers1 P1 where
    r1: "chat_round h e rnd stale clock now ?q peers = Some (Inr (map (\<lambda>p. transcript (fst p)) pendings, peers1))"
    "list_all2 (peer_inv n k) P1 peers1" "list_all2 (\<lambda>p p'. fst p' @ snd p' = snd p \<and> snd p' = []) pendings P1" by auto
  have len: "length peers1 = length peers" "length P1 = length pendings" "length pendings = length peers"
    using list_all2_lengthD [OF r1(2)] list_all2_lengthD [OF r1(3)] list_all2_lengthD [OF inv] by simp_all
  from round_spec [OF r1(2) _ n, of ?q h e rnd stale clock now] ok len obtain peers2 P2 where
    r2: "chat_round h e rnd stale clock now ?q peers1 = Some (Inr (map (\<lambda>p. transcript (fst p)) P1, peers2))"
    "list_all2 (peer_inv n k) P2 peers2" "list_all2 (\<lambda>p p'. fst p' @ snd p' = snd p \<and> snd p' = []) P1 P2" by auto
  have "P2 = replicate (length peers) ([], [])"
    using r1(3) r2(3) len by (intro nth_equalityI) (auto simp: list_all2_conv_all_nth prod_eq_iff)
  moreover have "map2 (@) (map (\<lambda>p. transcript (fst p)) pendings) (map2 (@) (map (\<lambda>p. transcript (fst p)) P1) (map (\<lambda>_. []) peers2))
      = map (\<lambda>p. transcript (fst p @ snd p)) pendings"
    using r1(3) len list_all2_lengthD [OF r2(2)] list_all2_lengthD [OF r2(3)]
    by (intro nth_equalityI) (auto simp: list_all2_conv_all_nth)
  ultimately show ?thesis using r1(1) r2(1,2) by simp
qed

lemma chat_spec:
  assumes "list_all2 (peer_inv n k) pendings peers" and n: "2 * k + 4096 \<le> n"
    and "\<forall>lines \<in> set rounds. round_ok k (length peers) lines"
  shows "\<exists>peers'. chat h e rnd stale clock now (rounds @ replicate 2 (replicate (length peers) None)) peers
      = Some (Inr (map (\<lambda>p. transcript (fst p @ snd p @ lines_of (concat rounds))) pendings, peers'))
    \<and> list_all2 (peer_inv n k) (replicate (length peers) ([], [])) peers'"
  using assms(1,3)
proof (induction rounds arbitrary: pendings peers)
  case Nil
  from chat_quiet [OF Nil(1) n] show ?case by (simp add: numeral_2_eq_2)
next
  case (Cons lines rounds)
  then have "round_ok k (length peers) lines" by simp
  from round_spec [OF Cons.prems(1) this n, of h e rnd stale clock now] obtain peers1 P1 where
    r: "chat_round h e rnd stale clock now lines peers = Some (Inr (map (\<lambda>p. transcript (fst p)) pendings, peers1))"
    "list_all2 (peer_inv n k) P1 peers1"
    and "list_all2 (\<lambda>p p'. fst p' @ snd p' = snd p @ lines_of lines \<and> (lines_of lines = [] \<longrightarrow> snd p' = [])) pendings P1"
    by blast
  from this(3) have moved: "list_all2 (\<lambda>p p'. fst p' @ snd p' = snd p @ lines_of lines) pendings P1"
    by (rule list_all2_mono) (rule conjunct1)
  have len: "length peers1 = length peers" "length P1 = length pendings"
    using list_all2_lengthD [OF r(2)] list_all2_lengthD [OF moved] list_all2_lengthD [OF Cons.prems(1)] by simp_all
  from Cons.IH [OF r(2)] Cons.prems(2) len obtain peers' where
    c: "chat h e rnd stale clock now (rounds @ replicate 2 (replicate (length peers) None)) peers1
      = Some (Inr (map (\<lambda>p. transcript (fst p @ snd p @ lines_of (concat rounds))) P1, peers'))"
    "list_all2 (peer_inv n k) (replicate (length peers) ([], [])) peers'" by auto
  have "transcript (fst (P1 ! i)) @ transcript (snd (P1 ! i)) @ ts = transcript (snd (pendings ! i)) @ transcript (lines_of lines) @ ts"
    if "i < length pendings" for i ts
    using arg_cong [OF list_all2_nthD [OF moved that], of transcript] by (metis append.assoc transcript_simps(2))
  then have "map2 (@) (map (\<lambda>p. transcript (fst p)) pendings) (map (\<lambda>p. transcript (fst p @ snd p @ lines_of (concat rounds))) P1)
      = map (\<lambda>p. transcript (fst p @ snd p @ lines_of (concat (lines # rounds)))) pendings"
    using len by - (rule nth_equalityI, simp_all)
  with r(1) c show ?case by simp
qed

section \<open>The whole chat\<close>

text \<open>Everybody reads the same chat: whatever the clients type, round after round, and however many they are, once two rounds
  have passed in which nobody types, each of them has printed every line exactly once, and all of them in the same order,
  which is that of the rounds and in a round that of the clients. Lines have fewer than 511 bytes and no zero byte, those of one
  round fit into half a ring, and a word that ends a client is not among them. The client's pass reads its line and
  its ring, the server's pass sends on what has arrived; nothing but the rings connects them.\<close>
lemma everybody_reads_the_same:
  assumes "\<forall>p \<in> set peers. peer_inv n k ([], []) p" and "2 * k + 4096 \<le> n"
    and "\<forall>lines \<in> set rounds. round_ok k (length peers) lines"
  shows "\<exists>peers'. chat h e rnd stale clock now (rounds @ replicate 2 (replicate (length peers) None)) peers
      = Some (Inr (replicate (length peers) (transcript (lines_of (concat rounds))), peers'))
    \<and> (\<forall>p \<in> set peers'. peer_inv n k ([], []) p)"
proof -
  have "list_all2 (peer_inv n k) (replicate (length peers) ([], [])) peers"
    using assms(1) by (simp add: list_all2_conv_all_nth)
  from chat_spec [OF this assms(2,3), of h e rnd stale clock now] obtain peers' where
    c: "chat h e rnd stale clock now (rounds @ replicate 2 (replicate (length peers) None)) peers
      = Some (Inr (replicate (length peers) (transcript (lines_of (concat rounds))), peers'))"
    "list_all2 (peer_inv n k) (replicate (length peers) ([], [])) peers'" by auto
  have "\<forall>p \<in> set peers'. peer_inv n k ([], []) p"
    using c(2) by (simp add: list_all2_conv_all_nth all_set_conv_all_nth)
  with c(1) show ?thesis by blast
qed

text \<open>The two ends of new files.\<close>

lemma server_socket_eq:
  "share (client_socket []) server_socket =
     \<lparr>shm_first = True, shm_sequence = 0, shm_isServer = True, shm_reader = ring_reader 16352, shm_writer = ring_writer 16352,
      shm_serverFile = ring_file [], shm_clientFile = (ring_file [])\<lparr>mSequenceNumber := 1\<rparr>\<rparr>"
  by (simp add: share_def client_socket_eq server_socket_def shm_create_def spsc_init_def spsc_new_def SHARED_BUFFER_SIZE_def
      sizeof_header_def ring_file_def ring_reader_def ring_writer_def word_less_nat_alt)

lemma two_ends:
  "linked (client_socket []) (share (client_socket []) server_socket)" "shm_inv (share (client_socket []) server_socket)"
  "unat (mCapacity (shm_writer (client_socket []))) = 16352" "unat (mCapacity (shm_writer server_socket)) = 16352"
proof -
  show "linked (client_socket []) (share (client_socket []) server_socket)"
    by (simp add: linked_def server_socket_eq) (simp add: client_socket_eq ring_reader_def ring_writer_def)
  have "shm_inv (client_socket []) \<Longrightarrow> shm_inv (share (client_socket []) server_socket)"
    unfolding server_socket_eq by (simp add: client_socket_eq shm_inv_def shm_in_def shm_out_def ring_inv_def ring_reader_def ring_writer_def Let_def)
  then show "shm_inv (share (client_socket []) server_socket)" using client_socket(1) [of "[]"] by simp
  have "mCapacity (shm_writer (share (client_socket []) server_socket)) = mCapacity (shm_writer server_socket)" by (simp add: share_def)
  then show "unat (mCapacity (shm_writer (client_socket []))) = 16352" "unat (mCapacity (shm_writer server_socket)) = 16352"
    by (simp add: client_socket_eq ring_writer_def) (simp add: server_socket_eq ring_writer_def flip: \<open>mCapacity _ = _\<close>)
qed

end
