(* ===== verification/ChatOpening.thy ===== *)
theory ChatOpening
  imports Chat
begin

text \<open>
  The chat from its beginning: the client of \<open>TestClient.cpp\<close> connects, the server of \<open>TestServer.cpp\<close> accepts it, and
  the handshake brings both to the state in which the rounds of \<open>Chat\<close> begin.
\<close>

section \<open>Connecting\<close>

text \<open>
  A client and the server on the same new files. \<open>WebSocket::create\<close> writes the request, the server accepts the client
  and polls it once for each byte of the request, then the client polls once for each byte of the answer. The polls
  happen at the time \<open>now\<close>. The result is null when \<open>create\<close> answers null.
\<close>

definition open_peer ::
  "(u8 list \<Rightarrow> int \<Rightarrow> shm_socket option) \<Rightarrow> allocator \<Rightarrow> endian \<Rightarrow> (nat \<Rightarrow> u64) \<Rightarrow> u8 list \<Rightarrow> (nat \<Rightarrow> int) \<Rightarrow> int \<Rightarrow> int \<Rightarrow>
   u8 list \<Rightarrow> peer option result option" where
  "open_peer create h e rnd stale clock t0 now host =
     lbind (create_client shm_ops create h e rnd stale clock t0 (connect_string host) [] True) (\<lambda>a.
       case a of
         None \<Rightarrow> Some (Inr None)
       | Some a \<Rightarrow>
           let s = share (the (mSocket a)) server_socket
           in lbind (accept_client shm_ops h e rnd stale clock t0 s []) (\<lambda>cs.
              let c = hd cs; w = the (cc_client c)
              in lbind (polls shm_ops 1 (replicate (length (shm_incoming s)) now) (w, [])) (\<lambda>(w, _).
                 let a = refresh w a
                 in lbind (polls shm_ops 1 (replicate (length (shm_incoming (the (mSocket a)))) now) (a, [])) (\<lambda>(a, _).
                      Some (Inr (Some (a, c\<lparr>cc_client := Some (refresh a w)\<rparr>)))))))"

lemma fresh_buffer:
  assumes "b = create_buffer h DEFAULT_TRANSMIT_BUFFER_SIZE DEFAULT_MAXIMUM_BUFFER_SIZE
      \<or> b = create_buffer h DEFAULT_RECEIVE_BUFFER_SIZE DEFAULT_MAXIMUM_BUFFER_SIZE"
    and "n \<le> 100000000"
  shows "contents b = []" "total_room b n"
  using assms by (auto simp: total_room_def buf_inv_create contents_create
      DEFAULT_TRANSMIT_BUFFER_SIZE_def DEFAULT_RECEIVE_BUFFER_SIZE_def DEFAULT_MAXIMUM_BUFFER_SIZE_def)
    (simp_all add: create_buffer_def reset_def)

text \<open>A connection that has the buffers of its constructor and is open.\<close>

lemma same_buffers_at_rest:
  assumes "same_buffers ws ws'" and "mReadyState ws' = OPEN" and "n \<le> 100000000"
    and "mReceiveBuffer ws = create_buffer h DEFAULT_RECEIVE_BUFFER_SIZE DEFAULT_MAXIMUM_BUFFER_SIZE"
    and "mTransmitBuffer ws = create_buffer h DEFAULT_TRANSMIT_BUFFER_SIZE DEFAULT_MAXIMUM_BUFFER_SIZE"
    and "mReceivedData ws = create_buffer h DEFAULT_RECEIVE_BUFFER_SIZE DEFAULT_MAXIMUM_BUFFER_SIZE"
  shows "at_rest n n ws'" "contents (mTransmitBuffer ws') = []"
  using assms fresh_buffer [of _ h n] by (simp_all add: same_buffers_def at_rest_def)

lemma client_connects:
  assumes "host \<noteq> []" and "58 \<notin> set host" and "47 \<notin> set host" and "0 \<notin> set host" and "0x0A \<notin> set host"
    and "length host \<le> 116" and "create host 3009 = Some (client_socket [])"
  shows "\<exists>a sa. create_client shm_ops create h e rnd stale clock t0 (connect_string host) [] True = Some (Inr (Some a))
    \<and> mSocket a = Some sa \<and> shm_inv sa \<and> same_rings (client_socket []) sa \<and> shm_incoming sa = []
    \<and> shm_outgoing sa = wire_lines (request_head [] # request_text host 3009 [] @ [[]])
    \<and> (\<forall>l \<in> set (request_text host 3009 []). plain_line l \<and> l \<noteq> [])
    \<and> mReadyState a = CONNECTING \<and> \<not> mIsServerClient a
    \<and> mConnectionPhase a = HTTP_STATUS \<and> mConnectionIndex a = 0 \<and> mConnectionBuffer a = stale \<and> mConnectionTimer a = t0
    \<and> mReceiveBuffer a = create_buffer h DEFAULT_RECEIVE_BUFFER_SIZE DEFAULT_MAXIMUM_BUFFER_SIZE
    \<and> mTransmitBuffer a = create_buffer h DEFAULT_TRANSMIT_BUFFER_SIZE DEFAULT_MAXIMUM_BUFFER_SIZE
    \<and> mReceivedData a = create_buffer h DEFAULT_RECEIVE_BUFFER_SIZE DEFAULT_MAXIMUM_BUFFER_SIZE"
proof -
  let ?url = "connect_string host" and ?c = "client_socket []"
  have parse: "parse_url ?url = Some (host, 3009, [])" using assms by (intro connect_string_parsed) auto
  have url: "?url = ascii ''ws://'' @ host @ ascii '':3009''"
    using assms(6) by (simp add: connect_string_def stringFormat_def)
  then have len: "length ?url < 128" "length ([] :: u8 list) < 200" using assms(6) by simp_all
  have set_url: "0 \<notin> set ?url \<union> set ([] :: u8 list)" "0x0A \<notin> set ?url \<union> set ([] :: u8 list)"
    using assms(4,5) unfolding url by simp_all
  note fits = request_fits [OF len parse] and plain = request_text_plain [OF len parse set_url]
  let ?ls = "request_lines host 3009 [] []"
  have c: "shm_inv ?c \<and> same_rings ?c ?c" using client_socket(1) [of "[]"] by simp
  have ls: "\<forall>l \<in> set ?ls. l \<noteq> []" "concat ?ls = wire_lines (request_head [] # request_text host 3009 [] @ [[]])"
    using fits by auto
  have "length (concat ?ls) \<le> shm_window ?c" "length (concat ?ls) < 2 ^ 31"
    using plain(2) client_socket(4) [of "[]"] unfolding ls(2) by simp_all
  from rings.send_strings_all [where ?s0.0 = ?c, OF c ls(1) this] obtain sa where
    "send_strings shm_ops ?c ?ls = Inr sa" "shm_inv sa" "same_rings ?c sa" "shm_incoming sa = []"
    "shm_outgoing sa = concat ?ls" using client_socket(2,3) [of "[]"] by auto
  then show ?thesis
    using plain(1) assms(7) len parse
    by (simp add: create_client_def new_client_connection_def isValid_def Let_def ls(2))
qed

lemma open_peer_spec:
  assumes "host \<noteq> []" and "58 \<notin> set host" and "47 \<notin> set host" and "0 \<notin> set host" and "0x0A \<notin> set host"
    and "length host \<le> 116" and "create host 3009 = Some (client_socket [])" and "length stale = 256"
    and "t0 \<le> now" and "now < t0 + 60000000000" and "n \<le> 100000000" and "k \<le> 8175"
  shows "\<exists>p. open_peer create h e rnd stale clock t0 now host = Some (Inr (Some p)) \<and> peer_inv n k ([], []) p"
proof -
  have time: "in_time t0 (replicate m now)" for m
    using assms(9,10) by (simp add: in_time_def CONNECTION_TIME_OUT_def sorted_replicate)
  from client_connects [where create = create and h = h and e = e and rnd = rnd and stale = stale and clock = clock
      and ?t0.0 = t0, OF assms(1-7)] obtain a sa where
    a: "create_client shm_ops create h e rnd stale clock t0 (connect_string host) [] True = Some (Inr (Some a))"
    "mSocket a = Some sa" "shm_inv sa" "same_rings (client_socket []) sa" "shm_incoming sa = []"
    "shm_outgoing sa = wire_lines (request_head [] # request_text host 3009 [] @ [[]])"
    "\<forall>l \<in> set (request_text host 3009 []). plain_line l \<and> l \<noteq> []"
    "mReadyState a = CONNECTING" "\<not> mIsServerClient a"
    "mConnectionPhase a = HTTP_STATUS" "mConnectionIndex a = 0" "mConnectionBuffer a = stale" "mConnectionTimer a = t0"
    "mReceiveBuffer a = create_buffer h DEFAULT_RECEIVE_BUFFER_SIZE DEFAULT_MAXIMUM_BUFFER_SIZE"
    "mTransmitBuffer a = create_buffer h DEFAULT_TRANSMIT_BUFFER_SIZE DEFAULT_MAXIMUM_BUFFER_SIZE"
    "mReceivedData a = create_buffer h DEFAULT_RECEIVE_BUFFER_SIZE DEFAULT_MAXIMUM_BUFFER_SIZE" by blast
  let ?s = "share sa server_socket"
  have share: "share sa (share (client_socket []) server_socket) = ?s" by (simp add: share_def)
  from linked_shares(1) [OF two_ends(1) a(4,3) two_ends(2)] have s: "linked sa ?s" "shm_inv ?s" unfolding share by simp_all
  let ?w = "new_server_connection h e rnd stale t0 (Some ?s) True"
  have accept: "accept_client shm_ops h e rnd stale clock t0 ?s [] =
      Some (Inr [\<lparr>cc_haveMessage = False, cc_message = [], cc_client = Some ?w, cc_id = 1\<rparr>])"
    by (simp add: accept_client_def create_server_def isValid_def new_server_connection_def Let_def)
  have head: "request_head [] = ascii ''GET / HTTP/1.1''" by (simp add: request_head_def)
  have io: "shm_incoming ?s = wire_lines (ascii ''GET / HTTP/1.1'' # request_text host 3009 [] @ [[]]) @ []" "shm_outgoing ?s = []"
    using linked_streams [OF s(1)] a(5,6) head by simp_all
  have reply: "length (concat handshake_reply) \<le> shm_window ?s"
    using io(2) two_ends(4) by (simp add: share_window handshake_reply_def)
  have w: "mSocket ?w = Some ?s" "mReadyState ?w = CONNECTING" "in_time (mConnectionTimer ?w) (replicate (length (shm_incoming ?s)) now)"
    "length (mConnectionBuffer ?w) = 256" "mConnectionIndex ?w = 0" "mConnectionPhase ?w = HTTP_STATUS" "mIsServerClient ?w"
    using assms(8) time by (simp_all add: new_server_connection_def)
  have "length (replicate (length (shm_incoming ?s)) now) = length (wire_lines (ascii ''GET / HTTP/1.1'' # request_text host 3009 [] @ [[]]))"
    unfolding io(1) by simp
  from rings.polls_server [where ?s0.0 = ?s, OF w(1) _ w(2-7) a(7) io(1) this reply, where t = 1] s(2) io(2) obtain w' s' where
    w': "polls shm_ops 1 (replicate (length (shm_incoming ?s)) now) (?w, []) = Some (Inr (w', []))" "mReadyState w' = OPEN"
    "mSocket w' = Some s'" "shm_inv s'" "same_rings ?s s'" "shm_incoming s' = []" "shm_outgoing s' = concat handshake_reply"
    "same_buffers ?w w'" by auto
  let ?sa = "share s' sa" and ?a = "refresh w' a"
  from linked_shares(2) [OF s(1) w'(5,4) a(3)] have sa: "linked ?sa s'" "shm_inv ?sa" by simp_all
  have ia: "shm_incoming ?sa = concat handshake_reply" "shm_outgoing ?sa = []" using linked_streams [OF sa(1)] w'(6,7) by simp_all
  let ?ls = "[ascii ''HTTP/1.1 101 Switching Protocols'', ascii ''HConnection: upgrade'',
     ascii ''HSec-WebSocket-Accept: HSmrc0sMlYUkAGmm5OPpG2HaGWk='', ascii ''HServer: WebSocket++/0.7.0'',
     ascii ''HUpgrade: websocket'', []]"
  have ls: "\<forall>l \<in> set ?ls. plain_line l" "shm_incoming ?sa = wire_lines ?ls @ []"
    "length (replicate (length (shm_incoming ?sa)) now) = length (wire_lines ?ls)"
    "length ?ls = lines_left (mConnectionPhase ?a)" "?ls \<noteq> []"
    using ia(1) handshake_reply_lines a(10) by (simp_all add: plain_line_def refresh_def)
  have st: "mConnectionPhase ?a = HTTP_STATUS \<longrightarrow> status_101 (hd ?ls)" using status_101_reply by simp
  have a': "mSocket ?a = Some ?sa" "mReadyState ?a = CONNECTING" "in_time (mConnectionTimer ?a) (replicate (length (shm_incoming ?sa)) now)"
    "length (mConnectionBuffer ?a) = 256" "mConnectionIndex ?a = 0" "\<not> mIsServerClient ?a"
    using a(2,8,9,11-13) w'(3) assms(8) time by (simp_all add: refresh_def)
  from rings.polls_client [where ?s0.0 = ?sa, OF a'(1) _ a'(2-6) ls(5,4) st ls(1-3), where t = 1] sa(2) ia(2) obtain a2 sa2 where
    a2: "polls shm_ops 1 (replicate (length (shm_incoming ?sa)) now) (?a, []) = Some (Inr (a2, []))" "mReadyState a2 = OPEN"
    "mSocket a2 = Some sa2" "shm_inv sa2" "same_rings ?sa sa2" "shm_incoming sa2 = []" "shm_outgoing sa2 = []"
    "same_buffers ?a a2" by auto
  let ?s2 = "share sa2 s'" and ?w2 = "refresh a2 w'"
  let ?c = "\<lparr>cc_haveMessage = False, cc_message = [], cc_client = Some ?w2, cc_id = 1\<rparr>"
  from linked_shares(1) [OF sa(1) a2(5,4) w'(4)] have s2: "linked sa2 ?s2" "shm_inv ?s2" by simp_all
  have o: "open_peer create h e rnd stale clock t0 now host = Some (Inr (Some (a2, ?c)))"
    by (simp add: open_peer_def a(1,2) accept w'(1,3) a'(1) a2(1))
  have "same_buffers a a2" using a2(8) by (simp add: same_buffers_def refresh_def)
  note ra = same_buffers_at_rest [OF this a2(2) assms(11) a(14-16)]
  have rw: "at_rest n n w'" "contents (mTransmitBuffer w') = []"
    by (rule same_buffers_at_rest [OF w'(8,2) assms(11)]; simp add: new_server_connection_def)+
  have caps: "unat (mCapacity (shm_writer ?s2)) = 16352" "unat (mCapacity (shm_writer sa2)) = 16352"
    using two_ends(3,4) w'(5) a2(5) a(4) by (simp_all add: same_rings_def share_def)
  have "conn_at n ?c ?w2 ?s2" using w'(3) a2(3) s2(2) rw(1) by (simp add: conn_at_def refresh_def at_rest_def)
  then have "peer_inv n k ([], []) (a2, ?c)"
    unfolding peer_inv_def using a2(3,4,6,7) ra s2 caps rw(2) linked_streams [OF s2(1)] assms(12)
    by (intro exI [of _ a2] exI [of _ ?c] exI [of _ sa2] exI [of _ ?w2] exI [of _ ?s2] exI [of _ "[]"] conjI) simp_all
  with o show ?thesis by blast
qed

text \<open>Any number of clients, each on files of its own.\<close>

fun open_peers :: "peer option result option \<Rightarrow> nat \<Rightarrow> peer list result option" where
  "open_peers opens 0 = Some (Inr [])"
| "open_peers opens (Suc m) =
     lbind opens (\<lambda>p. lbind (open_peers opens m) (\<lambda>ps. Some (Inr (case p of None \<Rightarrow> ps | Some p \<Rightarrow> p # ps))))"

lemma open_peers_spec:
  assumes "\<exists>p. opens = Some (Inr (Some p)) \<and> P p"
  shows "\<exists>ps. open_peers opens m = Some (Inr ps) \<and> length ps = m \<and> (\<forall>p \<in> set ps. P p)"
proof (induction m)
  case (Suc m)
  with assms show ?case by auto
qed simp

section \<open>Property\<close>



end
