(* ===== verification/ObjectStore.thy ===== *)
theory ObjectStore
  imports Prelude "HOL-Library.Multiset"
begin

text \<open>
  \<open>new\<close>, \<open>delete\<close>, \<open>malloc\<close> and \<open>free\<close> over a store of objects, and which objects an object owns. An
  address is handed out once, so that a pointer to a deleted object stays invalid. An assertion
  is about the objects of one part of the store; \<open>apart\<close> takes several of them side by side. The
  locale \<open>owned_class\<close> is the contract of a class whose destructor frees exactly what it owns.
\<close>

section \<open>The store\<close>

type_synonym addr = nat

record 'c store =
  objects :: "addr \<Rightarrow> 'c option"
  next_addr :: addr

text \<open>No object is at an address that has not been handed out.\<close>

definition store_inv :: "'c store \<Rightarrow> bool" where
  "store_inv st \<longleftrightarrow> (\<forall>a. next_addr st \<le> a \<longrightarrow> objects st a = None)"

definition new_object :: "'c \<Rightarrow> 'c store \<Rightarrow> addr \<times> 'c store" where
  "new_object c st =
     (next_addr st, \<lparr>objects = (objects st)(next_addr st \<mapsto> c), next_addr = Suc (next_addr st)\<rparr>)"

definition deref :: "addr \<Rightarrow> 'c store \<Rightarrow> 'c result" where
  "deref p st = (case objects st p of None \<Rightarrow> Inl UseAfterFree | Some c \<Rightarrow> Inr c)"

definition set_object :: "addr \<Rightarrow> 'c \<Rightarrow> 'c store \<Rightarrow> 'c store" where
  "set_object p c st = st\<lparr>objects := (objects st)(p \<mapsto> c)\<rparr>"

definition delete_object :: "addr \<Rightarrow> 'c store \<Rightarrow> 'c store result" where
  "delete_object p st = ebind (deref p st) (\<lambda>_. Inr (st\<lparr>objects := (objects st)(p := None)\<rparr>))"

text \<open>A member that is released when it is not null.\<close>

fun release_member :: "('p \<Rightarrow> 'c store \<Rightarrow> 'c store result) \<Rightarrow> 'p option \<Rightarrow> 'c store \<Rightarrow> 'c store result" where
  "release_member f None st = Inr st"
| "release_member f (Some p) st = f p st"

fun release_all :: "('p \<Rightarrow> 'c store \<Rightarrow> 'c store result) \<Rightarrow> 'p list \<Rightarrow> 'c store \<Rightarrow> 'c store result" where
  "release_all f [] st = Inr st"
| "release_all f (p # ps) st = ebind (f p st) (release_all f ps)"

section \<open>Assertions\<close>

type_synonym 'c assertion = "'c store \<Rightarrow> addr set \<Rightarrow> bool"

definition forget :: "addr set \<Rightarrow> 'c store \<Rightarrow> 'c store" where
  "forget A st = st\<lparr>objects := (\<lambda>a. if a \<in> A then None else objects st a)\<rparr>"

fun apart :: "'c assertion list \<Rightarrow> 'c assertion" where
  "apart [] st A \<longleftrightarrow> A = {}"
| "apart (P # Ps) st A \<longleftrightarrow> (\<exists>B C. A = B \<union> C \<and> B \<inter> C = {} \<and> P st B \<and> apart Ps st C)"

declare apart.simps(2) [simp del]

definition here :: "addr \<Rightarrow> 'c \<Rightarrow> 'c assertion" where
  "here p c st A \<longleftrightarrow> A = {p} \<and> objects st p = Some c"

fun maybe :: "('p \<Rightarrow> 'c assertion) \<Rightarrow> 'p option \<Rightarrow> 'c assertion" where
  "maybe P None st A \<longleftrightarrow> A = {}"
| "maybe P (Some p) st A \<longleftrightarrow> P p st A"

text \<open>An assertion that depends on nothing but its part of the store, and an operation that frees that part.\<close>

definition confined :: "'c assertion \<Rightarrow> bool" where
  "confined P \<longleftrightarrow> (\<forall>st A. P st A \<longrightarrow> A \<subseteq> dom (objects st)
     \<and> (\<forall>st'. (\<forall>a \<in> A. objects st' a = objects st a) \<longrightarrow> P st' A))"

definition frees :: "'c assertion \<Rightarrow> ('c store \<Rightarrow> 'c store result) \<Rightarrow> bool" where
  "frees P f \<longleftrightarrow> (\<forall>st A. P st A \<longrightarrow> f st = Inr (forget A st))"

lemma objects_forget [simp]: "objects (forget A st) a = (if a \<in> A then None else objects st a)"
  by (simp add: forget_def)

lemma forget_simps [simp]:
  "next_addr (forget A st) = next_addr st" "forget {} st = st" "forget A (forget B st) = forget (A \<union> B) st"
  by (cases st; auto simp: forget_def)+

lemma store_inv_forget [simp]: "store_inv st \<Longrightarrow> store_inv (forget A st)"
  by (simp add: store_inv_def)

lemma delete_object_forget: "objects st p = Some c \<Longrightarrow> delete_object p st = Inr (forget {p} st)"
  by (auto simp: delete_object_def deref_def forget_def fun_upd_def intro!: ext)

lemma apartI: "P st B \<Longrightarrow> apart Ps st C \<Longrightarrow> B \<inter> C = {} \<Longrightarrow> A = B \<union> C \<Longrightarrow> apart (P # Ps) st A"
  by (auto simp: apart.simps(2))

lemma apartE:
  assumes "apart (P # Ps) st A"
  obtains B C where "A = B \<union> C" "B \<inter> C = {}" "P st B" "apart Ps st C"
  using assms by (auto simp: apart.simps(2))

lemma apart_append: "apart (Ps @ Qs) st A \<longleftrightarrow> (\<exists>B C. A = B \<union> C \<and> B \<inter> C = {} \<and> apart Ps st B \<and> apart Qs st C)"
proof (induction Ps arbitrary: A)
  case (Cons P Ps)
  show ?case
  proof
    assume "apart ((P # Ps) @ Qs) st A"
    then have "apart (P # Ps @ Qs) st A" by simp
    then obtain B E where b: "A = B \<union> E" "B \<inter> E = {}" "P st B" "apart (Ps @ Qs) st E" by (rule apartE)
    with Cons obtain C D where c: "E = C \<union> D" "C \<inter> D = {}" "apart Ps st C" "apart Qs st D" by auto
    have "apart (P # Ps) st (B \<union> C)" using b(2,3) c(1,3) by (intro apartI) auto
    with b(1,2) c(1,2,4) show "\<exists>B C. A = B \<union> C \<and> B \<inter> C = {} \<and> apart (P # Ps) st B \<and> apart Qs st C"
      by (intro exI [of _ "B \<union> C"] exI [of _ D]) (simp add: Un_assoc Int_Un_distrib Int_Un_distrib2)
  next
    assume "\<exists>B C. A = B \<union> C \<and> B \<inter> C = {} \<and> apart (P # Ps) st B \<and> apart Qs st C"
    then obtain B C D where b: "A = (B \<union> C) \<union> D" "(B \<union> C) \<inter> D = {}" "P st B" "B \<inter> C = {}" "apart Ps st C" "apart Qs st D"
      by (auto elim!: apartE)
    have "apart (Ps @ Qs) st (C \<union> D)" using Cons [of "C \<union> D"] b by blast
    with b show "apart ((P # Ps) @ Qs) st A" by (simp only: append_Cons) (rule apartI [of _ _ B _ "C \<union> D"], auto)
  qed
qed simp

lemma apart_swap: "apart (P # Q # Ps) st A \<longleftrightarrow> apart (Q # P # Ps) st A"
proof -
  have "apart (Q # P # Ps) st A" if "apart (P # Q # Ps) st A" for P Q
  proof -
    from that obtain B E where b: "A = B \<union> E" "B \<inter> E = {}" "P st B" "apart (Q # Ps) st E" by (rule apartE)
    from b(4) obtain C D where c: "E = C \<union> D" "C \<inter> D = {}" "Q st C" "apart Ps st D" by (rule apartE)
    have "apart (P # Ps) st (B \<union> D)" using b(2,3) c(1,4) by (intro apartI) auto
    with b c show ?thesis by (intro apartI [of Q _ C _ "B \<union> D"]) auto
  qed
  then show ?thesis by blast
qed

lemma apart_middle: "apart (Ps @ P # Qs) st A \<longleftrightarrow> apart (P # Ps @ Qs) st A"
proof (induction Ps arbitrary: A)
  case (Cons R Ps)
  have "apart ((R # Ps) @ P # Qs) st A \<longleftrightarrow> apart (R # P # Ps @ Qs) st A"
    using Cons by (simp add: apart.simps(2) [of R])
  also have "\<dots> \<longleftrightarrow> apart (P # R # Ps @ Qs) st A" by (rule apart_swap)
  finally show ?case by simp
qed simp

text \<open>Confined assertions.\<close>

lemma confinedD:
  "confined P \<Longrightarrow> P st A \<Longrightarrow> A \<subseteq> dom (objects st)"
  "confined P \<Longrightarrow> P st A \<Longrightarrow> (\<And>a. a \<in> A \<Longrightarrow> objects st' a = objects st a) \<Longrightarrow> P st' A"
  by (auto simp: confined_def)

lemma confined_here [intro, simp]: "confined (here p c)"
  by (auto simp: confined_def here_def)

lemma confined_maybe [intro]: "(\<And>p. confined (P p)) \<Longrightarrow> confined (maybe P m)"
  by (cases m) (auto simp: confined_def)

lemma confined_apart: "\<forall>P \<in> set Ps. confined P \<Longrightarrow> confined (apart Ps)"
proof (induction Ps)
  case (Cons P Ps)
  then have P: "confined P" and Ps: "confined (apart Ps)" by auto
  show ?case unfolding confined_def
  proof (intro allI impI conjI)
    fix st A assume "apart (P # Ps) st A"
    then obtain B C where b: "A = B \<union> C" "B \<inter> C = {}" "P st B" "apart Ps st C" by (rule apartE)
    then show "A \<subseteq> dom (objects st)" using confinedD(1) [OF P b(3)] confinedD(1) [OF Ps b(4)] by simp
    show "apart (P # Ps) st' A" if "\<forall>a \<in> A. objects st' a = objects st a" for st'
      using confinedD(2) [OF P b(3), of st'] confinedD(2) [OF Ps b(4), of st'] b(1,2) that by (intro apartI [of P _ B _ C]) auto
  qed
qed (simp add: confined_def)

lemma confinedI:
  "(\<And>st A. P st A \<Longrightarrow> A \<subseteq> dom (objects st)) \<Longrightarrow>
   (\<And>st A st'. P st A \<Longrightarrow> (\<And>a. a \<in> A \<Longrightarrow> objects st' a = objects st a) \<Longrightarrow> P st' A) \<Longrightarrow> confined P"
  by (simp add: confined_def)

lemma confined_exists:
  assumes "\<And>x. confined (P x)"
  shows "confined (\<lambda>st A. \<exists>x. P x st A)"
proof (rule confinedI)
  fix st A assume "\<exists>x. P x st A"
  then obtain x where "P x st A" ..
  then show "A \<subseteq> dom (objects st)" by (rule confinedD(1) [OF assms])
next
  fix st st' :: "_ store" and A assume "\<exists>x. P x st A" and same: "\<And>a. a \<in> A \<Longrightarrow> objects st' a = objects st a"
  then obtain x where "P x st A" by blast
  from confinedD(2) [where st' = st', OF assms this] same show "\<exists>x. P x st' A" by blast
qed

text \<open>Operations that free.\<close>

lemma freesD: "frees P f \<Longrightarrow> P st A \<Longrightarrow> f st = Inr (forget A st)"
  by (simp add: frees_def)

lemma frees_here: "frees (here p c) (delete_object p)"
  by (simp add: frees_def here_def delete_object_forget)

lemma frees_maybe: "(\<And>p. frees (P p) (f p)) \<Longrightarrow> frees (maybe P m) (release_member f m)"
  by (cases m) (simp_all add: frees_def)

lemma frees_apart:
  assumes "frees P f" and "frees (apart Ps) g" and "confined (apart Ps)"
  shows "frees (apart (P # Ps)) (\<lambda>st. ebind (f st) g)"
  unfolding frees_def
proof (intro allI impI)
  fix st A assume "apart (P # Ps) st A"
  then obtain B C where b: "A = B \<union> C" "B \<inter> C = {}" "P st B" "apart Ps st C" by (rule apartE)
  have "apart Ps (forget B st) C" using b(2) by (intro confinedD(2) [OF assms(3) b(4), of "forget B st"]) auto
  with assms(1,2) b(1,3) show "ebind (f st) g = Inr (forget A st)"
    by (simp add: frees_def Un_commute)
qed

lemma frees_Nil [simp]: "frees (apart []) Inr"
  by (simp add: frees_def)

lemma frees_single: "frees P f \<Longrightarrow> frees (apart [P]) f"
  by (auto simp: frees_def elim!: apartE)

lemma frees_exists: "(\<And>x. frees (P x) f) \<Longrightarrow> frees (\<lambda>st A. \<exists>x. P x st A) f"
  by (auto simp: frees_def)

lemma apart_member: "apart Ps st A \<Longrightarrow> P \<in> set Ps \<Longrightarrow> \<exists>B \<subseteq> A. P st B"
proof (induction Ps arbitrary: A)
  case (Cons Q Ps)
  from Cons.prems(1) obtain B C where "A = B \<union> C" "Q st B" "apart Ps st C" by (rule apartE)
  with Cons.IH [of C] Cons.prems(2) show ?case by auto
qed simp

lemma deref_here: "apart Ps st A \<Longrightarrow> here p c \<in> set Ps \<Longrightarrow> deref p st = Inr c \<and> p \<in> A"
  using apart_member [of Ps st A "here p c"] by (auto simp: here_def deref_def)

lemma frees_deref:
  assumes "frees (apart Ps) (f c)" and "here p c \<in> set Ps"
  shows "frees (apart Ps) (\<lambda>st. ebind (deref p st) (\<lambda>c. f c st))"
  using assms deref_here [of Ps _ _ p c] by (auto simp: frees_def)

text \<open>The object at \<open>p\<close> with its members, which depend on what it is.\<close>

definition owned :: "('c \<Rightarrow> 'c assertion list) \<Rightarrow> addr \<Rightarrow> 'c assertion" where
  "owned parts p st A \<longleftrightarrow> (\<exists>c. apart (parts c @ [here p c]) st A)"

lemma owned_eq: "owned parts p = (\<lambda>st A. \<exists>c. apart (parts c @ [here p c]) st A)"
  by (intro ext) (simp add: owned_def)

lemma confined_owned: "(\<And>c. \<forall>P \<in> set (parts c). confined P) \<Longrightarrow> confined (owned parts p)"
  unfolding owned_eq by (intro confined_exists confined_apart) auto

lemma frees_owned:
  assumes "\<And>c. frees (apart (parts c @ [here p c])) (f c)"
  shows "frees (owned parts p) (\<lambda>st. ebind (deref p st) (\<lambda>c. f c st))"
  unfolding owned_eq
proof (rule frees_exists)
  fix c show "frees (apart (parts c @ [here p c])) (\<lambda>st. ebind (deref p st) (\<lambda>c. f c st))"
    by (rule frees_deref [OF assms]) simp
qed

section \<open>A store that has grown\<close>

text \<open>The store \<open>st\<close> is \<open>st0\<close> with \<open>Ps\<close> beside it.\<close>

definition grown :: "'c assertion list \<Rightarrow> 'c store \<Rightarrow> 'c store \<Rightarrow> bool" where
  "grown Ps st0 st \<longleftrightarrow> store_inv st \<and> next_addr st0 \<le> next_addr st \<and> (\<forall>P \<in> set Ps. confined P)
     \<and> (\<exists>A. apart Ps st A \<and> objects (forget A st) = objects st0)"

lemma apart_perm:
  assumes "mset Ps = mset Qs"
  shows "apart Ps st A = apart Qs st A"
  using assms
proof (induction Ps arbitrary: Qs A)
  case (Cons P Ps)
  then obtain Q1 Q2 where q: "Qs = Q1 @ P # Q2" by (metis list.set_intros(1) set_mset_mset split_list)
  with Cons have "apart Ps st B = apart (Q1 @ Q2) st B" for B by simp
  then have "apart (P # Ps) st A = apart (P # Q1 @ Q2) st A" by (simp add: apart.simps(2) [of P])
  with q show ?case by (simp add: apart_middle)
qed simp

lemma grown_perm: "grown Ps st0 st \<Longrightarrow> mset Ps = mset Qs \<Longrightarrow> grown Qs st0 st"
  using mset_eq_setD [of Ps Qs] apart_perm [of Ps Qs st] unfolding grown_def by auto

lemma grown_start: "store_inv st \<Longrightarrow> grown [] st st"
  by (simp add: grown_def)

lemma grown_Nil: "grown [] st0 st \<Longrightarrow> objects st = objects st0"
  by (simp add: grown_def)

lemma grown_live: "grown Ps st0 st \<Longrightarrow> P \<in> set Ps \<Longrightarrow> \<exists>A. P st A \<and> (\<forall>a \<in> A. a < next_addr st \<and> objects st0 a = None)"
proof -
  assume g: "grown Ps st0 st" and P: "P \<in> set Ps"
  from g obtain A where A: "apart Ps st A" "objects (forget A st) = objects st0" "confined (apart Ps)" "store_inv st"
    by (auto simp: grown_def intro: confined_apart)
  from apart_member [OF A(1) P] obtain B where B: "B \<subseteq> A" "P st B" by blast
  have "a < next_addr st \<and> objects st0 a = None" if "a \<in> B" for a
  proof
    have "a \<in> A" using B(1) that ..
    then have "objects st a \<noteq> None" using confinedD(1) [OF A(3,1)] by auto
    then show "a < next_addr st" using A(4) by (meson store_inv_def not_less)
    show "objects st0 a = None" using \<open>a \<in> A\<close> fun_cong [OF A(2), of a] by simp
  qed
  with B(2) show ?thesis by blast
qed

lemma grown_deref: "grown Ps st0 st \<Longrightarrow> here p c \<in> set Ps \<Longrightarrow> deref p st = Inr c"
  using grown_live [of Ps st0 st "here p c"] by (auto simp: here_def deref_def)

lemma grown_new:
  assumes "grown Ps st0 st"
  shows "grown (here (next_addr st) c # Ps) st0 (snd (new_object c st))"
proof -
  let ?p = "next_addr st" and ?st = "snd (new_object c st)"
  from assms obtain A where A: "apart Ps st A" "objects (forget A st) = objects st0" "confined (apart Ps)" "store_inv st"
    by (auto simp: grown_def intro: confined_apart)
  have none: "objects st ?p = None" using A(4) by (simp add: store_inv_def)
  then have p: "?p \<notin> A" using confinedD(1) [OF A(3,1)] by auto
  have o: "objects ?st = (objects st)(?p \<mapsto> c)" by (simp add: new_object_def)
  have "apart Ps ?st A" using p by (intro confinedD(2) [OF A(3,1)]) (auto simp: o)
  then have "apart (here ?p c # Ps) ?st (insert ?p A)"
    using p by (intro apartI [of _ _ "{?p}" _ A]) (simp_all add: here_def o)
  moreover have "objects (forget (insert ?p A) ?st) = objects st0"
    using p none by (auto simp: fun_eq_iff o A(2) [symmetric])
  moreover have "store_inv ?st" using A(4) by (simp add: store_inv_def new_object_def)
  ultimately show ?thesis using assms by (auto simp: grown_def new_object_def)
qed

lemma grown_set:
  assumes "grown (here p c # Ps) st0 st"
  shows "grown (here p d # Ps) st0 (set_object p d st)"
proof -
  from assms obtain A where A: "apart (here p c # Ps) st A" "objects (forget A st) = objects st0" "confined (apart Ps)"
    "store_inv st" by (auto simp: grown_def intro: confined_apart)
  from A(1) obtain B C where "A = B \<union> C" "B \<inter> C = {}" "here p c st B" "apart Ps st C" by (rule apartE)
  then have b: "A = insert p C" "p \<notin> C" "objects st p = Some c" "apart Ps st C" by (auto simp: here_def)
  have "apart Ps (set_object p d st) C"
    using b(2) by (intro confinedD(2) [OF A(3) b(4)]) (auto simp: set_object_def)
  then have "apart (here p d # Ps) (set_object p d st) A"
    using b(1,2) by (intro apartI [of _ _ "{p}" _ C]) (simp_all add: here_def set_object_def)
  moreover have "objects (forget A (set_object p d st)) = objects st0"
    using b(1) by (auto simp: fun_eq_iff set_object_def A(2) [symmetric])
  moreover have "store_inv (set_object p d st)"
    using A(4) b(3) by (auto simp: store_inv_def set_object_def)
  ultimately show ?thesis using assms by (auto simp: grown_def set_object_def)
qed

lemma grown_frees:
  assumes "grown (P # Ps) st0 st" and "frees P f"
  shows "\<exists>B. f st = Inr (forget B st) \<and> P st B \<and> grown Ps st0 (forget B st)"
proof -
  from assms(1) obtain A where A: "apart (P # Ps) st A" "objects (forget A st) = objects st0" "confined (apart Ps)"
    "store_inv st" by (auto simp: grown_def intro: confined_apart)
  from A(1) obtain B C where b: "A = B \<union> C" "B \<inter> C = {}" "P st B" "apart Ps st C" by (rule apartE)
  have "apart Ps (forget B st) C" using b(2) by (intro confinedD(2) [OF A(3) b(4)]) auto
  moreover have "objects (forget C (forget B st)) = objects st0" using A(2) b(1) by (simp add: Un_commute)
  ultimately show ?thesis using assms b(3) by (auto simp: grown_def freesD)
qed

lemma grown_append: "grown (Ps @ Qs) st0 st \<Longrightarrow> grown (apart Ps # Qs) st0 st"
proof -
  assume g: "grown (Ps @ Qs) st0 st"
  then obtain A where A: "apart (Ps @ Qs) st A" "objects (forget A st) = objects st0" by (auto simp: grown_def)
  from A(1) have "apart (apart Ps # Qs) st A" unfolding apart_append apart.simps(2) .
  with g A(2) show ?thesis by (auto simp: grown_def intro: confined_apart)
qed

lemma grown_owned:
  "grown (parts c @ here p c # Ps) st0 st \<Longrightarrow> confined (owned parts p) \<Longrightarrow> grown (owned parts p # Ps) st0 st"
proof -
  assume g: "grown (parts c @ here p c # Ps) st0 st" and conf: "confined (owned parts p)"
  then obtain A where A: "apart ((parts c @ [here p c]) @ Ps) st A" "objects (forget A st) = objects st0"
    by (auto simp: grown_def)
  from A(1) obtain B C where b: "A = B \<union> C" "B \<inter> C = {}" "apart (parts c @ [here p c]) st B" "apart Ps st C"
    unfolding apart_append by blast
  then have "apart (owned parts p # Ps) st A" by (intro apartI [of _ _ B _ C]) (auto simp: owned_def)
  with g conf A(2) show ?thesis by (auto simp: grown_def)
qed

lemma grown_parts:
  assumes "grown (owned parts p # Ps) st0 st" and "\<And>c. \<forall>P \<in> set (parts c). confined P"
  shows "\<exists>c. grown (parts c @ here p c # Ps) st0 st"
proof -
  from assms(1) obtain A where A: "apart (owned parts p # Ps) st A" "objects (forget A st) = objects st0" by (auto simp: grown_def)
  from A(1) obtain B C where b: "A = B \<union> C" "B \<inter> C = {}" "owned parts p st B" "apart Ps st C" by (rule apartE)
  from b(3) obtain c where c: "apart (parts c @ [here p c]) st B" by (auto simp: owned_def)
  then have "apart ((parts c @ [here p c]) @ Ps) st A" unfolding apart_append using b(1,2,4) by blast
  with assms A(2) show ?thesis by (intro exI [of _ c]) (auto simp: grown_def)
qed

lemma grown_two:
  assumes "grown [here p c, here q d] st0 st"
  shows "objects st = (objects st0)(q \<mapsto> d, p \<mapsto> c)"
proof -
  from assms obtain A where A: "apart [here p c, here q d] st A" "objects (forget A st) = objects st0" by (auto simp: grown_def)
  from A(1) have "A = {p, q}" "objects st p = Some c" "objects st q = Some d" "p \<noteq> q"
    by (auto simp: here_def elim!: apartE)
  then show ?thesis by (auto simp: fun_eq_iff A(2) [symmetric])
qed

lemma grown_maybe [simp]:
  "grown (maybe P None # Ps) st0 st \<longleftrightarrow> grown Ps st0 st" "grown (maybe P (Some p) # Ps) st0 st \<longleftrightarrow> grown (P p # Ps) st0 st"
proof -
  have "confined (maybe P None :: 'a assertion)" by (simp add: confined_def)
  then show "grown (maybe P None # Ps) st0 st \<longleftrightarrow> grown Ps st0 st" by (simp add: grown_def apart.simps(2))
  have "maybe P (Some p) = P p" by (intro ext) simp
  then show "grown (maybe P (Some p) # Ps) st0 st \<longleftrightarrow> grown (P p # Ps) st0 st" by simp
qed

section \<open>The contract of a class\<close>

text \<open>What an object owns is a matter of its own part of the store, and its destructor frees that part and nothing else.\<close>

locale owned_class =
  fixes owns :: "addr \<Rightarrow> 'c assertion"
    and release :: "addr \<Rightarrow> 'c store \<Rightarrow> 'c store result"
  assumes owns_confined: "confined (owns p)"
    and release_frees: "frees (owns p) (release p)"
begin

lemma member_confined: "confined (maybe owns m)"
  using owns_confined by (rule confined_maybe)

lemma member_frees: "frees (maybe owns m) (release_member release m)"
  using release_frees by (rule frees_maybe)

lemma list_confined: "confined (apart (map owns ps))"
  using owns_confined by (intro confined_apart) auto

lemma list_frees: "frees (apart (map owns ps)) (release_all release ps)"
proof (induction ps)
  case (Cons p ps)
  have "release_all release (p # ps) = (\<lambda>st. ebind (release p st) (release_all release ps))" by (rule ext) simp
  with frees_apart [OF release_frees Cons list_confined] show ?case by simp
qed (simp add: frees_def)

text \<open>An object that has been released cannot be released again.\<close>

lemma released_is_gone: "owns p st A \<Longrightarrow> p \<in> A \<Longrightarrow> ebind (release p st) (deref p) = Inl UseAfterFree"
  using freesD [OF release_frees] by (simp add: deref_def)

end

end
