(* ===== verification/Ownership.thy ===== *)
theory Ownership
  imports ObjectStore WebSocketImpl
begin

text \<open>
  Which objects the classes of the library own, and what their constructors and destructors do to the
  store: \<open>SimpleBuffer.cpp\<close>, \<open>MemoryMap.cpp\<close>, the three kinds of \<open>Wsocket\<close>, \<open>WebSocketImpl\<close>, and
  \<open>ClientConnection\<close> of the chat server. Only pointers are modelled here, what the objects hold is the
  matter of the other theories: whether a socket was opened, a file mapped or a client waits is an argument.
\<close>

section \<open>The code\<close>

record ws_members =
  ws_socket :: "addr option"
  ws_receivedData :: "addr option"
  ws_receiveBuffer :: "addr option"
  ws_transmitBuffer :: "addr option"
  ws_logFile :: "addr option"

text \<open>
  The objects: a block of \<open>malloc\<close>, a \<open>FILE\<close>, a thread, and the classes with the members that are pointers. A shared
  socket has \<open>mFirst\<close>, \<open>mServerFile\<close> and \<open>mClientFile\<close>.
\<close>

datatype obj =
    Block_obj
  | File_obj
  | Thread_obj
  | Map_obj
  | Buffer_obj "addr option"
  | Os_socket_obj
  | Shared_socket_obj bool "addr option" "addr option"
  | Playback_obj "addr option"
  | Web_socket_obj ws_members
  | Connection_obj "addr option"
  | Input_line_obj "addr option"

type_synonym memory = "obj store"

subsection \<open>Buffers and maps\<close>

definition new_buffer :: "u32 \<Rightarrow> memory \<Rightarrow> addr \<times> memory" where
  "new_buffer defaultLen st =
     (let (p, st) = new_object (Buffer_obj None) st
      in if defaultLen = 0 then (p, st)
         else let (q, st) = new_object Block_obj st in (p, set_object p (Buffer_obj (Some q)) st))"

definition delete_buffer :: "addr \<Rightarrow> obj \<Rightarrow> memory \<Rightarrow> memory result" where
  "delete_buffer p c st =
     (case c of Buffer_obj b \<Rightarrow> ebind (release_member delete_object b st) (delete_object p) | _ \<Rightarrow> Inl UseAfterFree)"

definition release_buffer :: "addr \<Rightarrow> memory \<Rightarrow> memory result" where
  "release_buffer p st = ebind (deref p st) (\<lambda>c. delete_buffer p c st)"

text \<open>\<open>createMemoryMap\<close>: without an address the new object is released and the result is null.\<close>

definition create_map :: "bool \<Rightarrow> memory \<Rightarrow> (addr option \<times> memory) result" where
  "create_map mapped st =
     (let (p, st) = new_object Map_obj st
      in if mapped then Inr (Some p, st) else ebind (delete_object p st) (\<lambda>st. Inr (None, st)))"

subsection \<open>Sockets\<close>

text \<open>The three destructors, and the virtual \<open>release\<close>, which deletes the object.\<close>

definition delete_os :: "addr \<Rightarrow> memory \<Rightarrow> memory result" where
  "delete_os p st = delete_object p st"

definition delete_shared :: "addr \<Rightarrow> addr option \<Rightarrow> addr option \<Rightarrow> memory \<Rightarrow> memory result" where
  "delete_shared p serverFile clientFile st =
     ebind (release_member delete_object clientFile st) (\<lambda>st.
     ebind (release_member delete_object serverFile st) (delete_object p))"

definition delete_playback :: "addr \<Rightarrow> addr option \<Rightarrow> memory \<Rightarrow> memory result" where
  "delete_playback p playbackFile st = ebind (release_member delete_object playbackFile st) (delete_object p)"

definition delete_socket :: "addr \<Rightarrow> obj \<Rightarrow> memory \<Rightarrow> memory result" where
  "delete_socket p c st =
     (case c of
        Os_socket_obj \<Rightarrow> delete_os p st
      | Shared_socket_obj first serverFile clientFile \<Rightarrow> delete_shared p serverFile clientFile st
      | Playback_obj playbackFile \<Rightarrow> delete_playback p playbackFile st
      | _ \<Rightarrow> Inl UseAfterFree)"

lemmas delete_socket_defs = delete_socket_def delete_os_def delete_shared_def delete_playback_def

definition release_wsocket :: "addr \<Rightarrow> memory \<Rightarrow> memory result" where
  "release_wsocket p st = ebind (deref p st) (\<lambda>c. delete_socket p c st)"

definition valid_or_null :: "bool \<Rightarrow> addr \<Rightarrow> memory \<Rightarrow> (addr option \<times> memory) result" where
  "valid_or_null valid p st =
     (if valid then Inr (Some p, st) else ebind (release_wsocket p st) (\<lambda>st. Inr (None, st)))"

definition create_os :: "bool \<Rightarrow> memory \<Rightarrow> (addr option \<times> memory) result" where
  "create_os valid st = (let (p, st) = new_object Os_socket_obj st in valid_or_null valid p st)"

definition new_playback :: "bool \<Rightarrow> memory \<Rightarrow> addr \<times> addr option \<times> memory" where
  "new_playback opened st =
     (let (p, st) = new_object (Playback_obj None) st
      in if opened then let (f, st) = new_object File_obj st in (p, Some f, set_object p (Playback_obj (Some f)) st)
         else (p, None, st))"

definition isValid_playback :: "addr option \<Rightarrow> bool" where
  "isValid_playback playbackFile \<longleftrightarrow> playbackFile \<noteq> None"

definition create_playback_object :: "bool \<Rightarrow> memory \<Rightarrow> (addr option \<times> memory) result" where
  "create_playback_object opened st =
     (let (p, playbackFile, st) = new_playback opened st in valid_or_null (isValid_playback playbackFile) p st)"

definition isValid_shared :: "addr option \<Rightarrow> addr option \<Rightarrow> bool" where
  "isValid_shared serverFile clientFile \<longleftrightarrow> serverFile \<noteq> None \<and> clientFile \<noteq> None"

definition create_shared :: "bool \<Rightarrow> bool \<Rightarrow> memory \<Rightarrow> (addr option \<times> memory) result" where
  "create_shared mapped1 mapped2 st =
     (let (p, st) = new_object (Shared_socket_obj True None None) st
      in ebind (create_map mapped1 st) (\<lambda>(serverFile, st).
         ebind (create_map mapped2 st) (\<lambda>(clientFile, st).
           valid_or_null (isValid_shared serverFile clientFile) p
             (set_object p (Shared_socket_obj True serverFile clientFile) st))))"

text \<open>\<open>Wsocket::create\<close>: the host name chooses the class; the other form opens a recording.\<close>

datatype transport = Os_transport bool | Shared_transport bool bool | Playback_transport bool

fun open_socket :: "transport \<Rightarrow> memory \<Rightarrow> (addr option \<times> memory) result" where
  "open_socket (Os_transport valid) = create_os valid"
| "open_socket (Shared_transport mapped1 mapped2) = create_shared mapped1 mapped2"
| "open_socket (Playback_transport opened) = create_playback_object opened"

text \<open>\<open>pollServer\<close> when a client waits (\<open>found\<close>): a new socket, or over shared memory, once, the server's own.\<close>

definition poll_os :: "bool \<Rightarrow> memory \<Rightarrow> (addr option \<times> memory) result" where
  "poll_os found st =
     (if found then let (q, st) = new_object Os_socket_obj st in Inr (Some q, st) else Inr (None, st))"

definition poll_shared ::
  "addr \<Rightarrow> bool \<Rightarrow> addr option \<Rightarrow> addr option \<Rightarrow> bool \<Rightarrow> memory \<Rightarrow> (addr option \<times> memory) result" where
  "poll_shared p first serverFile clientFile found st =
     (if found \<and> first then Inr (Some p, set_object p (Shared_socket_obj False serverFile clientFile) st)
      else Inr (None, st))"

definition poll_playback :: "memory \<Rightarrow> (addr option \<times> memory) result" where
  "poll_playback st = Inr (None, st)"

definition poll_socket :: "addr \<Rightarrow> bool \<Rightarrow> memory \<Rightarrow> (addr option \<times> memory) result" where
  "poll_socket p found st =
     ebind (deref p st) (\<lambda>c.
       case c of
         Os_socket_obj \<Rightarrow> poll_os found st
       | Shared_socket_obj first serverFile clientFile \<Rightarrow> poll_shared p first serverFile clientFile found st
       | Playback_obj _ \<Rightarrow> poll_playback st
       | _ \<Rightarrow> Inl UseAfterFree)"

lemmas poll_socket_defs = poll_socket_def poll_os_def poll_shared_def poll_playback_def

subsection \<open>WebSocketImpl\<close>

text \<open>The destructor, from the release of the socket on.\<close>

definition delete_ws :: "addr \<Rightarrow> obj \<Rightarrow> memory \<Rightarrow> memory result" where
  "delete_ws p c st =
     (case c of
        Web_socket_obj m \<Rightarrow>
          ebind (release_member release_wsocket (ws_socket m) st) (\<lambda>st.
          ebind (release_member release_buffer (ws_receivedData m) st) (\<lambda>st.
          ebind (release_member release_buffer (ws_receiveBuffer m) st) (\<lambda>st.
          ebind (release_member release_buffer (ws_transmitBuffer m) st) (\<lambda>st.
          ebind (release_member delete_object (ws_logFile m) st) (delete_object p)))))
      | _ \<Rightarrow> Inl UseAfterFree)"

definition release_ws :: "addr \<Rightarrow> memory \<Rightarrow> memory result" where
  "release_ws p st = ebind (deref p st) (\<lambda>c. delete_ws p c st)"

text \<open>
  \<open>WebSocket::create\<close>: the object with its three buffers, then the socket, which \<open>connect\<close> answers: the one that was
  given to the server, or the one that \<open>Wsocket::create\<close> opens for the client. Without a socket the object is deleted.
\<close>

definition create_ws ::
  "(memory \<Rightarrow> (addr option \<times> memory) result) \<Rightarrow> memory \<Rightarrow> (addr option \<times> memory) result" where
  "create_ws connect st =
     (let (p, st) = new_object (Web_socket_obj \<lparr>ws_socket = None, ws_receivedData = None, ws_receiveBuffer = None,
            ws_transmitBuffer = None, ws_logFile = None\<rparr>) st;
          (transmitBuffer, st) = new_buffer DEFAULT_TRANSMIT_BUFFER_SIZE st;
          (receivedData, st) = new_buffer DEFAULT_RECEIVE_BUFFER_SIZE st;
          (receiveBuffer, st) = new_buffer DEFAULT_RECEIVE_BUFFER_SIZE st
      in ebind (connect st) (\<lambda>(socket, st).
           let st = set_object p (Web_socket_obj \<lparr>ws_socket = socket, ws_receivedData = Some receivedData,
                 ws_receiveBuffer = Some receiveBuffer, ws_transmitBuffer = Some transmitBuffer, ws_logFile = None\<rparr>) st
           in if socket \<noteq> None then Inr (Some p, st) else ebind (release_ws p st) (\<lambda>st. Inr (None, st))))"

text \<open>What \<open>processConnection\<close> does with the socket of a peer that does not complete the handshake.\<close>

definition drop_socket :: "addr \<Rightarrow> memory \<Rightarrow> memory result" where
  "drop_socket p st =
     ebind (deref p st) (\<lambda>c.
       case c of
         Web_socket_obj m \<Rightarrow>
           ebind (release_member release_wsocket (ws_socket m) st) (\<lambda>st.
             Inr (set_object p (Web_socket_obj (m\<lparr>ws_socket := None\<rparr>)) st))
       | _ \<Rightarrow> Inl UseAfterFree)"

text \<open>\<open>setLogFile\<close>, for a file that can be opened.\<close>

definition open_log :: "addr \<Rightarrow> memory \<Rightarrow> memory result" where
  "open_log p st =
     ebind (deref p st) (\<lambda>c.
       case c of
         Web_socket_obj m \<Rightarrow>
           Inr (if ws_logFile m = None
                then let (f, st) = new_object File_obj st in set_object p (Web_socket_obj (m\<lparr>ws_logFile := Some f\<rparr>)) st
                else st)
       | _ \<Rightarrow> Inl UseAfterFree)"

subsection \<open>ClientConnection and InputLine\<close>

definition create_connection :: "addr \<Rightarrow> memory \<Rightarrow> (addr \<times> memory) result" where
  "create_connection client st =
     (let (p, st) = new_object (Connection_obj None) st
      in ebind (create_ws (\<lambda>st. Inr (Some client, st)) st) (\<lambda>(ws, st). Inr (p, set_object p (Connection_obj ws) st)))"

definition delete_connection :: "addr \<Rightarrow> obj \<Rightarrow> memory \<Rightarrow> memory result" where
  "delete_connection p c st =
     (case c of Connection_obj ws \<Rightarrow> ebind (release_member release_ws ws st) (delete_object p) | _ \<Rightarrow> Inl UseAfterFree)"

definition release_connection :: "addr \<Rightarrow> memory \<Rightarrow> memory result" where
  "release_connection p st = ebind (deref p st) (\<lambda>c. delete_connection p c st)"

definition create_input :: "memory \<Rightarrow> addr \<times> memory" where
  "create_input st =
     (let (p, st) = new_object (Input_line_obj None) st;
          (t, st) = new_object Thread_obj st
      in (p, set_object p (Input_line_obj (Some t)) st))"

text \<open>The destructor detaches the thread and deletes the thread object; the thread itself goes on.\<close>

definition delete_input :: "addr \<Rightarrow> obj \<Rightarrow> memory \<Rightarrow> memory result" where
  "delete_input p c st =
     (case c of Input_line_obj t \<Rightarrow> ebind (release_member delete_object t st) (delete_object p) | _ \<Rightarrow> Inl UseAfterFree)"

definition release_input :: "addr \<Rightarrow> memory \<Rightarrow> memory result" where
  "release_input p st = ebind (deref p st) (\<lambda>c. delete_input p c st)"

section \<open>What each class owns\<close>

definition impossible :: "obj assertion" where "impossible st A \<longleftrightarrow> False"

fun buffer_parts :: "obj \<Rightarrow> obj assertion list" where
  "buffer_parts (Buffer_obj b) = [maybe (\<lambda>q. here q Block_obj) b]"
| "buffer_parts _ = [impossible]"

fun socket_parts :: "obj \<Rightarrow> obj assertion list" where
  "socket_parts Os_socket_obj = []"
| "socket_parts (Shared_socket_obj first sf cf) = [maybe (\<lambda>q. here q Map_obj) cf, maybe (\<lambda>q. here q Map_obj) sf]"
| "socket_parts (Playback_obj f) = [maybe (\<lambda>q. here q File_obj) f]"
| "socket_parts _ = [impossible]"

fun ws_parts :: "obj \<Rightarrow> obj assertion list" where
  "ws_parts (Web_socket_obj m) =
     [maybe (owned socket_parts) (ws_socket m), maybe (owned buffer_parts) (ws_receivedData m),
      maybe (owned buffer_parts) (ws_receiveBuffer m), maybe (owned buffer_parts) (ws_transmitBuffer m),
      maybe (\<lambda>q. here q File_obj) (ws_logFile m)]"
| "ws_parts _ = [impossible]"

fun connection_parts :: "obj \<Rightarrow> obj assertion list" where
  "connection_parts (Connection_obj ws) = [maybe (owned ws_parts) ws]"
| "connection_parts _ = [impossible]"

fun input_parts :: "obj \<Rightarrow> obj assertion list" where
  "input_parts (Input_line_obj t) = [maybe (\<lambda>q. here q Thread_obj) t]"
| "input_parts _ = [impossible]"

lemma confined_impossible [simp]: "confined impossible"
  by (simp add: confined_def impossible_def)

lemma frees_impossible [simp]: "frees (apart (impossible # Ps)) f"
  by (auto simp: frees_def impossible_def elim!: apartE)

lemma confined_pointer [simp]: "confined (maybe (\<lambda>q. here q c) m)"
  by (intro confined_maybe confined_here)

lemma frees_pointer: "frees (maybe (\<lambda>q. here q c) m) (release_member delete_object m)"
  by (intro frees_maybe frees_here)

text \<open>One member and the object itself.\<close>

lemma frees_one:
  assumes "frees P f"
  shows "frees (apart [P, here p c]) (\<lambda>st. ebind (f st) (delete_object p))"
  by (rule frees_apart [OF assms frees_single [OF frees_here]]) (simp add: confined_apart)

lemma buffer_confined: "\<forall>P \<in> set (buffer_parts c). confined P" by (cases c) simp_all

interpretation buffers: owned_class "owned buffer_parts" release_buffer
proof
  show "confined (owned buffer_parts p)" for p by (intro confined_owned buffer_confined)
  have "frees (apart (buffer_parts c @ [here p c])) (delete_buffer p c)" for p c
    by (cases c) (simp_all add: delete_buffer_def [abs_def] frees_one frees_pointer)
  then show "frees (owned buffer_parts p) (release_buffer p)" for p
    unfolding release_buffer_def [abs_def] by (rule frees_owned)
qed

lemma socket_confined: "\<forall>P \<in> set (socket_parts c). confined P" by (cases c) simp_all

interpretation sockets: owned_class "owned socket_parts" release_wsocket
proof
  show "confined (owned socket_parts p)" for p by (intro confined_owned socket_confined)
  have "frees (apart (socket_parts c @ [here p c])) (delete_socket p c)" for p c
  proof (cases c)
    case (Shared_socket_obj first sf cf)
    have "frees (apart [maybe (\<lambda>q. here q Map_obj) cf, maybe (\<lambda>q. here q Map_obj) sf, here p c])
        (\<lambda>st. ebind (release_member delete_object cf st) (\<lambda>st. ebind (release_member delete_object sf st) (delete_object p)))"
      by (rule frees_apart [OF frees_pointer frees_one [OF frees_pointer]]) (simp add: confined_apart)
    with Shared_socket_obj show ?thesis by (simp add: delete_socket_defs [abs_def])
  qed (simp_all add: delete_socket_defs [abs_def] frees_one frees_pointer frees_single frees_here)
  then show "frees (owned socket_parts p) (release_wsocket p)" for p
    unfolding release_wsocket_def [abs_def] by (rule frees_owned)
qed

lemma ws_confined: "\<forall>P \<in> set (ws_parts c). confined P"
  by (cases c) (simp_all add: buffers.member_confined sockets.member_confined)

interpretation web_sockets: owned_class "owned ws_parts" release_ws
proof
  show "confined (owned ws_parts p)" for p by (intro confined_owned ws_confined)
  have "frees (apart (ws_parts c @ [here p c])) (delete_ws p c)" for p c
  proof (cases c)
    case (Web_socket_obj m)
    have "frees (apart (ws_parts c @ [here p c])) (\<lambda>st.
          ebind (release_member release_wsocket (ws_socket m) st) (\<lambda>st.
          ebind (release_member release_buffer (ws_receivedData m) st) (\<lambda>st.
          ebind (release_member release_buffer (ws_receiveBuffer m) st) (\<lambda>st.
          ebind (release_member release_buffer (ws_transmitBuffer m) st) (\<lambda>st.
          ebind (release_member delete_object (ws_logFile m) st) (delete_object p))))))"
      unfolding Web_socket_obj ws_parts.simps append.simps
      by (intro frees_apart sockets.member_frees buffers.member_frees frees_one frees_pointer confined_apart)
        (simp_all add: buffers.member_confined sockets.member_confined)
    then show ?thesis unfolding delete_ws_def [abs_def] by (simp add: Web_socket_obj)
  qed (simp_all add: delete_ws_def [abs_def])
  then show "frees (owned ws_parts p) (release_ws p)" for p
    unfolding release_ws_def [abs_def] by (rule frees_owned)
qed

lemma connection_confined: "\<forall>P \<in> set (connection_parts c). confined P"
  by (cases c) (simp_all add: web_sockets.member_confined)

interpretation connections: owned_class "owned connection_parts" release_connection
proof
  show "confined (owned connection_parts p)" for p by (intro confined_owned connection_confined)
  have "frees (apart (connection_parts c @ [here p c])) (delete_connection p c)" for p c
    by (cases c) (simp_all add: delete_connection_def [abs_def] frees_one web_sockets.member_frees)
  then show "frees (owned connection_parts p) (release_connection p)" for p
    unfolding release_connection_def [abs_def] by (rule frees_owned)
qed

lemma input_confined: "\<forall>P \<in> set (input_parts c). confined P" by (cases c) simp_all

interpretation input_lines: owned_class "owned input_parts" release_input
proof
  show "confined (owned input_parts p)" for p by (intro confined_owned input_confined)
  have "frees (apart (input_parts c @ [here p c])) (delete_input p c)" for p c
    by (cases c) (simp_all add: delete_input_def [abs_def] frees_one frees_pointer)
  then show "frees (owned input_parts p) (release_input p)" for p
    unfolding release_input_def [abs_def] by (rule frees_owned)
qed

section \<open>What the constructors add\<close>

text \<open>
  Each constructor, run on a store that has grown by \<open>Ps\<close>, adds the object with all it owns, or nothing when it
  answers null.
\<close>

lemma grown_new_object:
  assumes "grown Ps st0 st" and "new_object c st = (p, st')"
  shows "grown (here p c # Ps) st0 st'"
  using grown_new [OF assms(1), of c] assms(2) by (auto simp: new_object_def)

text \<open>An object that waits for its members: other objects are made while it is in the store, and then it is set.\<close>

lemma grown_rotate: "grown (P # Ps @ Qs) st0 st \<longleftrightarrow> grown (Ps @ P # Qs) st0 st"
  by (auto elim!: grown_perm)

lemma grown_swap: "grown (P # Q # Ps) st0 st \<longleftrightarrow> grown (Q # P # Ps) st0 st"
  by (auto elim!: grown_perm)

lemma grown_set_owner:
  assumes "grown (parts d @ here p c # Ps) st0 st" and "confined (owned parts p)"
  shows "grown (owned parts p # Ps) st0 (set_object p d st)"
proof -
  from assms(1) have "grown (here p c # parts d @ Ps) st0 st" by (auto elim: grown_perm)
  then have "grown (here p d # parts d @ Ps) st0 (set_object p d st)" by (rule grown_set)
  then have "grown (parts d @ here p d # Ps) st0 (set_object p d st)" by (auto elim: grown_perm)
  then show ?thesis using assms(2) by (rule grown_owned)
qed

lemma new_buffer_spec:
  assumes "grown Ps st0 st"
  shows "\<exists>p st'. new_buffer n st = (p, st') \<and> grown (owned buffer_parts p # Ps) st0 st'"
proof -
  obtain p st1 where p: "new_object (Buffer_obj None) st = (p, st1)" by fastforce
  obtain q st2 where q: "new_object Block_obj st1 = (q, st2)" by fastforce
  have g1: "grown (here p (Buffer_obj None) # Ps) st0 st1" by (rule grown_new_object [OF assms p])
  have "grown (here q Block_obj # here p (Buffer_obj None) # Ps) st0 st2" by (rule grown_new_object [OF g1 q])
  then have "grown (owned buffer_parts p # Ps) st0 (set_object p (Buffer_obj (Some q)) st2)"
    by (intro grown_set_owner buffers.owns_confined) simp
  moreover have "grown (owned buffer_parts p # Ps) st0 st1"
    using grown_owned [of buffer_parts "Buffer_obj None" p] g1 buffers.owns_confined by simp
  ultimately show ?thesis by (simp add: new_buffer_def p q)
qed

lemma create_map_spec:
  assumes "grown Ps st0 st"
  shows "\<exists>m st'. create_map mapped st = Inr (m, st') \<and> (m \<noteq> None \<longleftrightarrow> mapped)
    \<and> grown (maybe (\<lambda>q. here q Map_obj) m # Ps) st0 st'"
proof -
  obtain p st1 where p: "new_object Map_obj st = (p, st1)" by fastforce
  have g: "grown (here p Map_obj # Ps) st0 st1" by (rule grown_new_object [OF assms p])
  from grown_frees [OF this frees_here] g show ?thesis by (cases mapped) (auto simp: create_map_def p)
qed

lemma valid_or_null_spec:
  assumes "grown (owned socket_parts p # Ps) st0 st"
  shows "\<exists>s st'. valid_or_null valid p st = Inr (s, st') \<and> (s = (if valid then Some p else None))
    \<and> grown (maybe (owned socket_parts) s # Ps) st0 st'"
  using grown_frees [OF assms sockets.release_frees] assms by (auto simp: valid_or_null_def)

lemma create_os_spec:
  assumes "grown Ps st0 st"
  shows "\<exists>s st'. create_os valid st = Inr (s, st') \<and> grown (maybe (owned socket_parts) s # Ps) st0 st'"
proof -
  obtain p st1 where p: "new_object Os_socket_obj st = (p, st1)" by fastforce
  from grown_new_object [OF assms p] have "grown (owned socket_parts p # Ps) st0 st1"
    using grown_owned [of socket_parts Os_socket_obj p] sockets.owns_confined by simp
  from valid_or_null_spec [OF this, of valid] show ?thesis by (auto simp: create_os_def p)
qed

lemma create_playback_object_spec:
  assumes "grown Ps st0 st"
  shows "\<exists>s st'. create_playback_object opened st = Inr (s, st') \<and> grown (maybe (owned socket_parts) s # Ps) st0 st'"
proof -
  obtain p st1 where p: "new_object (Playback_obj None) st = (p, st1)" by fastforce
  obtain f st2 where f: "new_object File_obj st1 = (f, st2)" by fastforce
  have g1: "grown (here p (Playback_obj None) # Ps) st0 st1" by (rule grown_new_object [OF assms p])
  have "grown (here f File_obj # here p (Playback_obj None) # Ps) st0 st2" by (rule grown_new_object [OF g1 f])
  then have g2: "grown (owned socket_parts p # Ps) st0 (set_object p (Playback_obj (Some f)) st2)"
    by (intro grown_set_owner sockets.owns_confined) simp
  have g3: "grown (owned socket_parts p # Ps) st0 st1"
    using grown_owned [of socket_parts "Playback_obj None" p] g1 sockets.owns_confined by simp
  from valid_or_null_spec [OF g2, of True] valid_or_null_spec [OF g3, of False] show ?thesis
    by (cases opened) (auto simp: create_playback_object_def new_playback_def isValid_playback_def p f)
qed

lemma create_shared_spec:
  assumes "grown Ps st0 st"
  shows "\<exists>s st'. create_shared m1 m2 st = Inr (s, st') \<and> grown (maybe (owned socket_parts) s # Ps) st0 st'
    \<and> (m1 \<and> m2 \<longrightarrow> (\<exists>p sf cf. s = Some p \<and> objects st' p = Some (Shared_socket_obj True sf cf)))"
proof -
  let ?c = "Shared_socket_obj True None None"
  obtain p st1 where p: "new_object ?c st = (p, st1)" by fastforce
  have "grown (here p ?c # Ps) st0 st1" by (rule grown_new_object [OF assms p])
  from create_map_spec [OF this, of m1] obtain sf st2 where sf: "create_map m1 st1 = Inr (sf, st2)" "sf \<noteq> None \<longleftrightarrow> m1"
    "grown (maybe (\<lambda>q. here q Map_obj) sf # here p ?c # Ps) st0 st2" by blast
  from create_map_spec [OF this(3), of m2] obtain cf st3 where cf: "create_map m2 st2 = Inr (cf, st3)" "cf \<noteq> None \<longleftrightarrow> m2"
    "grown (maybe (\<lambda>q. here q Map_obj) cf # maybe (\<lambda>q. here q Map_obj) sf # here p ?c # Ps) st0 st3" by blast
  let ?d = "Shared_socket_obj True sf cf"
  have "grown (owned socket_parts p # Ps) st0 (set_object p ?d st3)"
    using grown_set_owner [of socket_parts ?d p ?c Ps st0 st3] cf(3) sockets.owns_confined by simp
  from valid_or_null_spec [OF this, of "sf \<noteq> None \<and> cf \<noteq> None"] sf(1,2) cf(1,2) show ?thesis
    by (fastforce simp: create_shared_def isValid_shared_def p valid_or_null_def set_object_def)
qed

text \<open>
  \<open>WebSocket::create\<close>, where \<open>connect\<close> turns \<open>Ps\<close> into the socket that it answers and \<open>Qs\<close>.
\<close>

definition connects :: "obj assertion list \<Rightarrow> (memory \<Rightarrow> (addr option \<times> memory) result) \<Rightarrow> obj assertion list \<Rightarrow> bool" where
  "connects Ps connect Qs \<longleftrightarrow> (\<forall>Rs st0 st. grown (Rs @ Ps) st0 st \<longrightarrow>
     (\<exists>s st'. connect st = Inr (s, st') \<and> grown (maybe (owned socket_parts) s # Rs @ Qs) st0 st'))"

lemma connects_given: "connects (owned socket_parts s # Ps) (\<lambda>st. Inr (Some s, st)) Ps"
  by (auto simp: connects_def grown_rotate [symmetric])

lemma open_socket_spec:
  assumes "grown Ps st0 st"
  shows "\<exists>s st'. open_socket k st = Inr (s, st') \<and> grown (maybe (owned socket_parts) s # Ps) st0 st'"
proof (cases k)
  case (Shared_transport m1 m2)
  with create_shared_spec [OF assms, of m1 m2] show ?thesis unfolding Shared_transport open_socket.simps by blast
qed (simp_all add: create_os_spec [OF assms] create_playback_object_spec [OF assms])

lemma connects_open: "connects Ps (open_socket k) Ps"
  using open_socket_spec by (auto simp: connects_def)

lemma create_ws_spec:
  assumes "grown Ps st0 st" and "connects Ps connect Qs"
  shows "\<exists>w st'. create_ws connect st = Inr (w, st') \<and> grown (maybe (owned ws_parts) w # Qs) st0 st'"
proof -
  let ?m = "\<lparr>ws_socket = None, ws_receivedData = None, ws_receiveBuffer = None, ws_transmitBuffer = None, ws_logFile = None\<rparr>"
  let ?b = "owned buffer_parts"
  obtain p st1 where p: "new_object (Web_socket_obj ?m) st = (p, st1)" by fastforce
  have "grown (here p (Web_socket_obj ?m) # Ps) st0 st1" by (rule grown_new_object [OF assms(1) p])
  from new_buffer_spec [OF this, of DEFAULT_TRANSMIT_BUFFER_SIZE] obtain t st2 where t: "new_buffer DEFAULT_TRANSMIT_BUFFER_SIZE st1 = (t, st2)"
    "grown (?b t # here p (Web_socket_obj ?m) # Ps) st0 st2" by blast
  from new_buffer_spec [OF this(2), of DEFAULT_RECEIVE_BUFFER_SIZE] obtain d st3 where d: "new_buffer DEFAULT_RECEIVE_BUFFER_SIZE st2 = (d, st3)"
    "grown (?b d # ?b t # here p (Web_socket_obj ?m) # Ps) st0 st3" by blast
  from new_buffer_spec [OF this(2), of DEFAULT_RECEIVE_BUFFER_SIZE] obtain r st4 where r: "new_buffer DEFAULT_RECEIVE_BUFFER_SIZE st3 = (r, st4)"
    "grown ([?b r, ?b d, ?b t, here p (Web_socket_obj ?m)] @ Ps) st0 st4" by auto
  from assms(2) r(2) obtain s st5 where s: "connect st4 = Inr (s, st5)"
    "grown (maybe (owned socket_parts) s # [?b r, ?b d, ?b t, here p (Web_socket_obj ?m)] @ Qs) st0 st5"
    unfolding connects_def by blast
  let ?w = "Web_socket_obj \<lparr>ws_socket = s, ws_receivedData = Some d, ws_receiveBuffer = Some r, ws_transmitBuffer = Some t,
      ws_logFile = None\<rparr>"
  have maybes: "maybe ?b (Some x) = ?b x" for x by (intro ext) simp
  have "grown (maybe (\<lambda>q. here q File_obj) None # maybe (owned socket_parts) s # ?b d # ?b r # ?b t # here p (Web_socket_obj ?m) # Qs) st0 st5"
    using s(2) by (simp, elim grown_perm) simp
  then have "grown (ws_parts ?w @ here p (Web_socket_obj ?m) # Qs) st0 st5"
    by (elim grown_perm) (simp add: maybes)
  from grown_set_owner [OF this web_sockets.owns_confined] have g: "grown (owned ws_parts p # Qs) st0 (set_object p ?w st5)" .
  from grown_frees [OF this web_sockets.release_frees] g show ?thesis
    by (cases s) (auto simp: create_ws_def p t(1) d(1) r(1) s(1) Let_def)
qed

lemma create_connection_spec:
  assumes "grown (owned socket_parts s # Ps) st0 st"
  shows "\<exists>p st'. create_connection s st = Inr (p, st') \<and> grown (owned connection_parts p # Ps) st0 st'"
proof -
  obtain p st1 where p: "new_object (Connection_obj None) st = (p, st1)" by fastforce
  have "grown (owned socket_parts s # here p (Connection_obj None) # Ps) st0 st1"
    using grown_new_object [OF assms p] by (simp add: grown_swap)
  from create_ws_spec [OF this connects_given] obtain w st2 where w: "create_ws (\<lambda>st. Inr (Some s, st)) st1 = Inr (w, st2)"
    "grown (maybe (owned ws_parts) w # here p (Connection_obj None) # Ps) st0 st2" by blast
  then have "grown (owned connection_parts p # Ps) st0 (set_object p (Connection_obj w) st2)"
    by (intro grown_set_owner connections.owns_confined) simp
  with w(1) show ?thesis by (simp add: create_connection_def p)
qed

lemma create_input_objects:
  assumes "grown Ps st0 st"
  shows "\<exists>p t st'. create_input st = (p, st')
    \<and> grown (here t Thread_obj # here p (Input_line_obj (Some t)) # Ps) st0 st'"
proof -
  obtain p st1 where p: "new_object (Input_line_obj None) st = (p, st1)" by fastforce
  obtain t st2 where t: "new_object Thread_obj st1 = (t, st2)" by fastforce
  have "grown (here t Thread_obj # here p (Input_line_obj None) # Ps) st0 st2"
    by (rule grown_new_object [OF grown_new_object [OF assms p] t])
  then have "grown (here p (Input_line_obj None) # here t Thread_obj # Ps) st0 st2" by (simp only: grown_swap)
  from grown_set [OF this, of "Input_line_obj (Some t)"]
  have "grown (here t Thread_obj # here p (Input_line_obj (Some t)) # Ps) st0 (set_object p (Input_line_obj (Some t)) st2)"
    by (simp only: grown_swap)
  moreover have "create_input st = (p, set_object p (Input_line_obj (Some t)) st2)" by (simp add: create_input_def p t)
  ultimately show ?thesis by blast
qed

lemma create_input_spec:
  assumes "grown Ps st0 st"
  shows "\<exists>p st'. create_input st = (p, st') \<and> grown (owned input_parts p # Ps) st0 st'"
proof -
  have one: "maybe (\<lambda>q. here q Thread_obj) (Some t) = here t Thread_obj" for t by (intro ext) simp
  from create_input_objects [OF assms] obtain p t st' where "create_input st = (p, st')"
    "grown (input_parts (Input_line_obj (Some t)) @ here p (Input_line_obj (Some t)) # Ps) st0 st'" by (auto simp: one)
  with grown_owned [OF this(2) input_lines.owns_confined] show ?thesis by simp
qed

text \<open>What a connection does while it lives.\<close>

lemma drop_socket_spec:
  assumes "grown (owned ws_parts p # Ps) st0 st"
  shows "\<exists>B m st'. drop_socket p st = Inr st' \<and> st' = set_object p (Web_socket_obj m) (forget B st)
    \<and> grown (owned ws_parts p # Ps) st0 st' \<and> (\<exists>m'. objects st p = Some (Web_socket_obj m')) \<and> ws_socket m = None"
proof -
  from grown_parts [OF assms ws_confined] obtain c where g: "grown (ws_parts c @ here p c # Ps) st0 st" by blast
  then obtain m where c: "c = Web_socket_obj m"
    using grown_live [OF g, of impossible] by (cases c) (auto simp: impossible_def)
  have "deref p st = Inr c" by (rule grown_deref [OF g]) simp
  moreover obtain B where B: "release_member release_wsocket (ws_socket m) st = Inr (forget B st)"
    "grown (tl (ws_parts c) @ here p c # Ps) st0 (forget B st)"
    using grown_frees [OF _ sockets.member_frees, of "ws_socket m" "tl (ws_parts c) @ here p c # Ps" st0 st] g c by auto
  let ?d = "Web_socket_obj (m\<lparr>ws_socket := None\<rparr>)"
  have "ws_parts ?d = maybe (owned socket_parts) None # tl (ws_parts c)" by (simp add: c)
  then have "grown (ws_parts ?d @ here p c # Ps) st0 (forget B st)" using B(2) by (simp del: ws_parts.simps)
  from grown_set_owner [OF this web_sockets.owns_confined]
  have "grown (owned ws_parts p # Ps) st0 (set_object p ?d (forget B st))" .
  moreover from calculation(1) have "drop_socket p st = Inr (set_object p ?d (forget B st))" "objects st p = Some c"
    using B(1) c by (auto simp: drop_socket_def deref_def split: option.splits)
  ultimately show ?thesis
    using c by (intro exI [of _ B] exI [of _ "m\<lparr>ws_socket := None\<rparr>"] exI [of _ "set_object p ?d (forget B st)"]) simp
qed

lemma open_log_spec:
  assumes "grown (owned ws_parts p # Ps) st0 st"
  shows "\<exists>st'. open_log p st = Inr st' \<and> grown (owned ws_parts p # Ps) st0 st'"
proof -
  from grown_parts [OF assms ws_confined] obtain c where g: "grown (ws_parts c @ here p c # Ps) st0 st" by blast
  then obtain m where c: "c = Web_socket_obj m"
    using grown_live [OF g, of impossible] by (cases c) (auto simp: impossible_def)
  have d: "deref p st = Inr c" by (rule grown_deref [OF g]) simp
  obtain f st1 where f: "new_object File_obj st = (f, st1)" by fastforce
  let ?d = "Web_socket_obj (m\<lparr>ws_logFile := Some f\<rparr>)"
  have "grown (here f File_obj # ws_parts c @ here p c # Ps) st0 st1" by (rule grown_new_object [OF g f])
  moreover have one: "maybe (\<lambda>q. here q File_obj) (Some f) = here f File_obj" by (intro ext) simp
  moreover have "ws_parts ?d = butlast (ws_parts c) @ [maybe (\<lambda>q. here q File_obj) (Some f)]" by (simp add: c)
  moreover have "ws_parts c = butlast (ws_parts c) @ [maybe (\<lambda>q. here q File_obj) (ws_logFile m)]" by (simp add: c)
  ultimately have "ws_logFile m = None \<Longrightarrow>
      grown (maybe (\<lambda>q. here q File_obj) None # ws_parts ?d @ here p c # Ps) st0 st1"
    by (elim grown_perm) (auto simp: c one)
  then have "ws_logFile m = None \<Longrightarrow> grown (owned ws_parts p # Ps) st0 (set_object p ?d st1)"
    using grown_set_owner [OF _ web_sockets.owns_confined, of ?d p c] by (simp del: ws_parts.simps)
  with assms d c show ?thesis by (auto simp: open_log_def f)
qed

end
