(* ===== verification/ServerObjects.thy ===== *)
theory ServerObjects
  imports Ownership
begin

text \<open>
  The lives of the objects of the programs: \<open>SimpleServer\<close> of \<open>TestServer.cpp\<close> from its constructor
  to its destructor, with clients that come and go in any order, \<open>main\<close> of \<open>TestClient.cpp\<close>, and
  \<open>TestSharedMemory.cpp\<close>. What
  the passes do with the messages is the matter of \<open>TestServer\<close> and \<open>TestClient\<close>.
\<close>

section \<open>The code\<close>

record simple_server =
  sv_socket :: "addr option"
  sv_input :: "addr option"
  sv_clients :: "addr list"

definition new_server ::
  "(memory \<Rightarrow> (addr option \<times> memory) result) \<Rightarrow> memory \<Rightarrow> (simple_server \<times> memory) result" where
  "new_server create st =
     ebind (create st) (\<lambda>(serverSocket, st).
       let (inputLine, st) = create_input st
       in Inr (\<lparr>sv_socket = serverSocket, sv_input = Some inputLine, sv_clients = []\<rparr>, st))"

definition delete_server :: "simple_server \<Rightarrow> memory \<Rightarrow> memory result" where
  "delete_server sv st =
     ebind (release_member release_input (sv_input sv) st) (\<lambda>st.
     ebind (release_all release_connection (sv_clients sv) st) (\<lambda>st.
       release_member release_wsocket (sv_socket sv) st))"

text \<open>
  What can happen to the objects while the server runs: the server polls its socket, and a client waits or not; the
  connection of a client is found closed and erased; or \<open>processConnection\<close> drops the socket of a client.
\<close>

datatype server_event = Poll bool | Drop nat | Give_up nat

definition serve_poll :: "bool \<Rightarrow> simple_server \<times> memory \<Rightarrow> (simple_server \<times> memory) result" where
  "serve_poll found sst =
     (let (sv, st) = sst
      in case sv_socket sv of
           None \<Rightarrow> Inr (sv, st)
         | Some s \<Rightarrow>
             ebind (poll_socket s found st) (\<lambda>(clientSocket, st).
               case clientSocket of
                 None \<Rightarrow> Inr (sv, st)
               | Some s \<Rightarrow> ebind (create_connection s st) (\<lambda>(cc, st). Inr (sv\<lparr>sv_clients := sv_clients sv @ [cc]\<rparr>, st))))"

definition serve_drop :: "nat \<Rightarrow> simple_server \<times> memory \<Rightarrow> (simple_server \<times> memory) result" where
  "serve_drop i sst =
     (let (sv, st) = sst; cs = sv_clients sv
      in if i < length cs
         then ebind (release_connection (cs ! i) st) (\<lambda>st. Inr (sv\<lparr>sv_clients := take i cs @ drop (Suc i) cs\<rparr>, st))
         else Inr (sv, st))"

definition connection_give_up :: "addr \<Rightarrow> memory \<Rightarrow> memory result" where
  "connection_give_up p st =
     ebind (deref p st) (\<lambda>c. case c of Connection_obj ws \<Rightarrow> release_member drop_socket ws st | _ \<Rightarrow> Inl UseAfterFree)"

definition serve_give_up :: "nat \<Rightarrow> simple_server \<times> memory \<Rightarrow> (simple_server \<times> memory) result" where
  "serve_give_up i sst =
     (let (sv, st) = sst
      in if i < length (sv_clients sv) then ebind (connection_give_up (sv_clients sv ! i) st) (\<lambda>st. Inr (sv, st))
         else Inr (sv, st))"

fun serve :: "server_event \<Rightarrow> simple_server \<times> memory \<Rightarrow> (simple_server \<times> memory) result" where
  "serve (Poll found) = serve_poll found"
| "serve (Drop i) = serve_drop i"
| "serve (Give_up i) = serve_give_up i"

fun serve_all :: "server_event list \<Rightarrow> simple_server \<times> memory \<Rightarrow> (simple_server \<times> memory) result" where
  "serve_all [] sst = Inr sst"
| "serve_all (e # es) sst = ebind (serve e sst) (serve_all es)"

definition server_life ::
  "(memory \<Rightarrow> (addr option \<times> memory) result) \<Rightarrow> server_event list \<Rightarrow> memory \<Rightarrow> (simple_server \<times> memory) result" where
  "server_life create es st =
     ebind (new_server create st) (\<lambda>sst. ebind (serve_all es sst) (\<lambda>(sv, st).
       ebind (delete_server sv st) (\<lambda>st. Inr (sv, st))))"

text \<open>
  \<open>main\<close> of the client; its socket may be dropped while it runs. The input line is never released.
\<close>

definition client_life ::
  "(memory \<Rightarrow> (addr option \<times> memory) result) \<Rightarrow> bool \<Rightarrow> memory \<Rightarrow> (addr option \<times> memory) result" where
  "client_life connect gives_up st =
     ebind (create_ws connect st) (\<lambda>(ws, st).
       case ws of
         None \<Rightarrow> Inr (None, st)
       | Some w \<Rightarrow>
           let (inputLine, st) = create_input st
           in ebind (if gives_up then drop_socket w st else Inr st) (\<lambda>st.
              ebind (release_ws w st) (\<lambda>st. Inr (Some inputLine, st))))"

text \<open>
  The object of \<open>testSharedMemory\<close>: its map and its thread, which is joined before it is deleted.
\<close>

definition new_test :: "bool \<Rightarrow> memory \<Rightarrow> (addr option \<times> addr option \<times> memory) result" where
  "new_test mapped st =
     ebind (create_map mapped st) (\<lambda>(memoryMap, st).
       if memoryMap \<noteq> None then let (thread, st) = new_object Thread_obj st in Inr (memoryMap, Some thread, st)
       else Inr (memoryMap, None, st))"

definition delete_test :: "addr option \<Rightarrow> addr option \<Rightarrow> memory \<Rightarrow> memory result" where
  "delete_test memoryMap thread st =
     ebind (release_member delete_object thread st) (\<lambda>st. release_member delete_object memoryMap st)"

lemma test_objects_given_back:
  assumes "store_inv st0"
  shows "\<exists>m t st st'. new_test mapped st0 = Inr (m, t, st) \<and> delete_test m t st = Inr st' \<and> objects st' = objects st0
    \<and> (m \<noteq> None \<longleftrightarrow> mapped) \<and> (t \<noteq> None \<longleftrightarrow> mapped)"
proof -
  from create_map_spec [OF grown_start [OF assms], of mapped] obtain m st1 where
    m: "create_map mapped st0 = Inr (m, st1)" "m \<noteq> None \<longleftrightarrow> mapped" "grown [maybe (\<lambda>q. here q Map_obj) m] st0 st1" by blast
  obtain t st2 where t: "new_object Thread_obj st1 = (t, st2)" by fastforce
  let ?t = "if mapped then Some t else None" and ?st = "if mapped then st2 else st1"
  have "grown [maybe (\<lambda>q. here q Thread_obj) ?t, maybe (\<lambda>q. here q Map_obj) m] st0 ?st"
    using grown_new_object [OF m(3) t] m(3) by simp
  from grown_frees [OF this frees_pointer] obtain B where B: "release_member delete_object ?t ?st = Inr (forget B ?st)"
    "grown [maybe (\<lambda>q. here q Map_obj) m] st0 (forget B ?st)" by blast
  from grown_frees [OF B(2) frees_pointer] obtain C where
    "release_member delete_object m (forget B ?st) = Inr (forget C (forget B ?st))" "grown [] st0 (forget C (forget B ?st))" by blast
  moreover have "new_test mapped st0 = Inr (m, ?t, ?st)" using m(1,2) t by (auto simp: new_test_def)
  ultimately show ?thesis using B(1) m(2) grown_Nil by (fastforce simp: delete_test_def)
qed

section \<open>The events\<close>

text \<open>What the server owns beside its socket, and \<open>Ts\<close>.\<close>

definition server_owns :: "obj assertion list \<Rightarrow> simple_server \<Rightarrow> obj assertion list" where
  "server_owns Ts sv = maybe (owned input_parts) (sv_input sv) # map (owned connection_parts) (sv_clients sv) @ Ts"

text \<open>An event that changes nothing but connections and what they own.\<close>

definition only_frees :: "memory \<Rightarrow> memory \<Rightarrow> bool" where
  "only_frees st st' \<longleftrightarrow> next_addr st' = next_addr st
     \<and> (\<forall>a. objects st' a = objects st a \<or> objects st' a = None
          \<or> (\<exists>m m'. objects st a = Some (Web_socket_obj m) \<and> objects st' a = Some (Web_socket_obj m')))"

lemma server_owns_split:
  assumes "i < length (sv_clients sv)"
  shows "mset (server_owns Ts sv) = mset (owned connection_parts (sv_clients sv ! i)
      # server_owns Ts (sv\<lparr>sv_clients := take i (sv_clients sv) @ drop (Suc i) (sv_clients sv)\<rparr>))"
proof -
  have "mset (map (owned connection_parts) (sv_clients sv))
      = mset (map (owned connection_parts) (take i (sv_clients sv) @ sv_clients sv ! i # drop (Suc i) (sv_clients sv)))"
    using id_take_nth_drop [OF assms] by simp
  then show ?thesis by (simp add: server_owns_def)
qed

lemma serve_drop_spec:
  assumes "grown (server_owns Ts sv) st0 st"
  shows "\<exists>sv' st'. serve_drop i (sv, st) = Inr (sv', st') \<and> grown (server_owns Ts sv') st0 st'
    \<and> sv_socket sv' = sv_socket sv \<and> sv_input sv' = sv_input sv \<and> only_frees st st'"
proof (cases "i < length (sv_clients sv)")
  case True
  from grown_frees [OF grown_perm [OF assms server_owns_split [OF True]] connections.release_frees] obtain B where
    "release_connection (sv_clients sv ! i) st = Inr (forget B st)"
    "grown (server_owns Ts (sv\<lparr>sv_clients := take i (sv_clients sv) @ drop (Suc i) (sv_clients sv)\<rparr>)) st0 (forget B st)"
    by blast
  with True show ?thesis by (simp add: serve_drop_def only_frees_def Let_def)
qed (use assms in \<open>simp add: serve_drop_def only_frees_def\<close>)

lemma connection_give_up_spec:
  assumes "grown (owned connection_parts p # Ps) st0 st"
  shows "\<exists>st'. connection_give_up p st = Inr st' \<and> grown (owned connection_parts p # Ps) st0 st' \<and> only_frees st st'"
proof -
  from grown_parts [OF assms connection_confined] obtain c where g: "grown (connection_parts c @ here p c # Ps) st0 st" by blast
  then obtain w where c: "c = Connection_obj w"
    using grown_live [OF g, of impossible] by (cases c) (auto simp: impossible_def)
  have d: "deref p st = Inr c" by (rule grown_deref [OF g]) simp
  show ?thesis
  proof (cases w)
    case None
    with assms d c show ?thesis by (simp add: connection_give_up_def only_frees_def)
  next
    case (Some w')
    with g c have "grown (owned ws_parts w' # here p c # Ps) st0 st" by simp
    from drop_socket_spec [OF this] obtain B m m' st' where st': "drop_socket w' st = Inr st'"
      "st' = set_object w' (Web_socket_obj m) (forget B st)" "grown (owned ws_parts w' # here p c # Ps) st0 st'"
      "objects st w' = Some (Web_socket_obj m')" by blast
    have "grown (connection_parts c @ here p c # Ps) st0 st'" using st'(3) c Some by simp
    from grown_owned [OF this connections.owns_confined] have "grown (owned connection_parts p # Ps) st0 st'" .
    moreover have "only_frees st st'" using st'(4) by (auto simp: st'(2) only_frees_def set_object_def)
    ultimately show ?thesis using st'(1) d c Some by (simp add: connection_give_up_def)
  qed
qed

lemma serve_give_up_spec:
  assumes "grown (server_owns Ts sv) st0 st"
  shows "\<exists>st'. serve_give_up i (sv, st) = Inr (sv, st') \<and> grown (server_owns Ts sv) st0 st' \<and> only_frees st st'"
proof (cases "i < length (sv_clients sv)")
  case True
  from connection_give_up_spec [OF grown_perm [OF assms server_owns_split [OF True]]] obtain st' where
    st': "connection_give_up (sv_clients sv ! i) st = Inr st'" "only_frees st st'" and
    g: "grown (owned connection_parts (sv_clients sv ! i)
      # server_owns Ts (sv\<lparr>sv_clients := take i (sv_clients sv) @ drop (Suc i) (sv_clients sv)\<rparr>)) st0 st'" by blast
  from grown_perm [OF g server_owns_split [OF True, symmetric]] st' True show ?thesis by (simp add: serve_give_up_def)
qed (use assms in \<open>simp add: serve_give_up_def only_frees_def\<close>)

lemma accept_spec:
  assumes "grown (owned socket_parts s # server_owns Ts sv) st0 st"
  shows "\<exists>cc st'. create_connection s st = Inr (cc, st') \<and> grown (server_owns Ts (sv\<lparr>sv_clients := sv_clients sv @ [cc]\<rparr>)) st0 st'"
proof -
  from create_connection_spec [OF assms] obtain cc st' where cc: "create_connection s st = Inr (cc, st')"
    "grown (owned connection_parts cc # server_owns Ts sv) st0 st'" by blast
  have "mset (owned connection_parts cc # server_owns Ts sv) = mset (server_owns Ts (sv\<lparr>sv_clients := sv_clients sv @ [cc]\<rparr>))"
    by (simp add: server_owns_def)
  with cc show ?thesis using grown_perm by blast
qed

text \<open>The destructor, up to the release of the server's socket.\<close>

lemma server_owns_frees:
  "frees (apart (server_owns [] sv)) (\<lambda>st. ebind (release_member release_input (sv_input sv) st)
     (release_all release_connection (sv_clients sv)))"
  unfolding server_owns_def append_Nil2
  by (intro frees_apart input_lines.member_frees connections.list_frees connections.list_confined)

text \<open>The constructor of a connection changes no object that was there before.\<close>

lemma new_buffer_keeps:
  "\<exists>p st'. new_buffer n st = (p, st') \<and> next_addr st \<le> next_addr st'
     \<and> (\<forall>a < next_addr st. objects st' a = objects st a)"
  by (simp add: new_buffer_def new_object_def set_object_def)

lemma create_connection_keeps:
  assumes "create_connection s st = Inr (p, st')" and "a < next_addr st"
  shows "objects st' a = objects st a"
proof -
  let ?w = "Web_socket_obj \<lparr>ws_socket = None, ws_receivedData = None, ws_receiveBuffer = None, ws_transmitBuffer = None,
      ws_logFile = None\<rparr>"
  obtain c st1 where 1: "new_object (Connection_obj None) st = (c, st1)" "c = next_addr st" "next_addr st1 = Suc (next_addr st)"
    "\<forall>b < next_addr st. objects st1 b = objects st b" by (simp add: new_object_def)
  obtain w st2 where 2: "new_object ?w st1 = (w, st2)" "w = next_addr st1" "next_addr st2 = Suc (next_addr st1)"
    "\<forall>b < next_addr st1. objects st2 b = objects st1 b" by (simp add: new_object_def)
  from new_buffer_keeps [of DEFAULT_TRANSMIT_BUFFER_SIZE st2] obtain t st3 where
    3: "new_buffer DEFAULT_TRANSMIT_BUFFER_SIZE st2 = (t, st3)" "next_addr st2 \<le> next_addr st3"
    "\<forall>b < next_addr st2. objects st3 b = objects st2 b" by blast
  from new_buffer_keeps [of DEFAULT_RECEIVE_BUFFER_SIZE st3] obtain d st4 where
    4: "new_buffer DEFAULT_RECEIVE_BUFFER_SIZE st3 = (d, st4)" "next_addr st3 \<le> next_addr st4"
    "\<forall>b < next_addr st3. objects st4 b = objects st3 b" by blast
  from new_buffer_keeps [of DEFAULT_RECEIVE_BUFFER_SIZE st4] obtain r st5 where
    5: "new_buffer DEFAULT_RECEIVE_BUFFER_SIZE st4 = (r, st5)" "\<forall>b < next_addr st4. objects st5 b = objects st4 b" by blast
  have "objects st5 a = objects st a" using 1(3,4) 2(3,4) 3(2,3) 4(2,3) 5(2) assms(2) by simp
  then show ?thesis
    using assms 1(2,3) 2(2) by (auto simp: create_connection_def create_ws_def 1(1) 2(1) 3(1) 4(1) 5(1) set_object_def)
qed

section \<open>A server on a socket of the operating system\<close>

definition os_server :: "memory \<Rightarrow> simple_server \<times> memory \<Rightarrow> bool" where
  "os_server st0 sst \<longleftrightarrow>
     (let (sv, st) = sst in grown (server_owns [maybe (\<lambda>s. here s Os_socket_obj) (sv_socket sv)] sv) st0 st)"

lemma serve_os:
  assumes "os_server st0 (sv, st)"
  shows "\<exists>sv' st'. serve e (sv, st) = Inr (sv', st') \<and> os_server st0 (sv', st') \<and> sv_input sv' = sv_input sv"
proof (cases e)
  case (Poll found)
  show ?thesis
  proof (cases "sv_socket sv")
    case None
    with Poll assms show ?thesis by (simp add: serve_poll_def)
  next
    case (Some s)
    have one: "maybe (\<lambda>s. here s Os_socket_obj) (Some s) = here s Os_socket_obj" by (intro ext) simp
    have "deref s st = Inr Os_socket_obj"
      using assms Some by (auto simp: os_server_def server_owns_def one intro!: grown_deref)
    then have p: "poll_socket s found st = Inr (if found then (Some (next_addr st), snd (new_object Os_socket_obj st)) else (None, st))"
      by (simp add: poll_socket_defs new_object_def)
    let ?Ts = "[maybe (\<lambda>s. here s Os_socket_obj) (sv_socket sv)]"
    have "grown (here (next_addr st) Os_socket_obj # server_owns ?Ts sv) st0 (snd (new_object Os_socket_obj st))"
      using assms by (intro grown_new) (simp add: os_server_def)
    then have "grown (owned socket_parts (next_addr st) # server_owns ?Ts sv) st0 (snd (new_object Os_socket_obj st))"
      using grown_owned [of socket_parts Os_socket_obj] sockets.owns_confined by simp
    from accept_spec [OF this] obtain cc st' where "create_connection (next_addr st) (snd (new_object Os_socket_obj st)) = Inr (cc, st')"
      "grown (server_owns ?Ts (sv\<lparr>sv_clients := sv_clients sv @ [cc]\<rparr>)) st0 st'" by blast
    with Poll Some p assms show ?thesis by (cases found) (simp_all add: serve_poll_def os_server_def)
  qed
next
  case (Drop i)
  with serve_drop_spec [of _ sv st0 st i] assms show ?thesis by (fastforce simp: os_server_def)
next
  case (Give_up i)
  with serve_give_up_spec [of _ sv st0 st i] assms show ?thesis by (fastforce simp: os_server_def)
qed

lemma serve_all_os:
  "os_server st0 (sv, st) \<Longrightarrow>
   \<exists>sv' st'. serve_all es (sv, st) = Inr (sv', st') \<and> os_server st0 (sv', st') \<and> sv_input sv' = sv_input sv"
proof (induction es arbitrary: sv st)
  case (Cons e es)
  from serve_os [OF Cons.prems, of e] obtain sv1 st1 where s: "serve e (sv, st) = Inr (sv1, st1)" "os_server st0 (sv1, st1)"
    "sv_input sv1 = sv_input sv" by blast
  from Cons.IH [OF s(2)] s(1,3) show ?case by auto
qed simp

lemma new_server_os:
  assumes "store_inv st0"
  shows "\<exists>sv st. new_server (create_os valid) st0 = Inr (sv, st) \<and> os_server st0 (sv, st)
    \<and> (\<exists>i. sv_input sv = Some i \<and> objects st0 i = None)"
proof -
  obtain p st1 where p: "new_object Os_socket_obj st0 = (p, st1)" by fastforce
  have g1: "grown [here p Os_socket_obj] st0 st1" by (rule grown_new_object [OF grown_start [OF assms] p])
  then have "release_wsocket p st1 = Inr (forget {p} st1) \<and> grown [] st0 (forget {p} st1)"
    using grown_frees [OF g1 frees_here] grown_deref [OF g1, of p Os_socket_obj]
    by (auto simp: release_wsocket_def delete_socket_defs delete_object_def deref_def here_def split: option.splits)
  then have "\<exists>s st. create_os valid st0 = Inr (s, st) \<and> grown [maybe (\<lambda>s. here s Os_socket_obj) s] st0 st"
    using g1 by (cases valid) (simp_all add: create_os_def valid_or_null_def p)
  then obtain s st where s: "create_os valid st0 = Inr (s, st)" "grown [maybe (\<lambda>s. here s Os_socket_obj) s] st0 st" by blast
  from create_input_spec [OF s(2)] obtain i st' where i: "create_input st = (i, st')"
    "grown (owned input_parts i # [maybe (\<lambda>s. here s Os_socket_obj) s]) st0 st'" by blast
  from grown_live [OF i(2), of "owned input_parts i"] obtain A where A: "owned input_parts i st' A" "\<forall>a \<in> A. objects st0 a = None"
    by auto
  have "i \<in> A" using A(1) deref_here by (fastforce simp: owned_def)
  with A(2) s(1) i show ?thesis by (auto simp: new_server_def os_server_def server_owns_def)
qed

lemma delete_os:
  assumes "os_server st0 (sv, st)"
  shows "\<exists>st'. delete_server sv st = Inr st' \<and> objects st' = objects st0"
proof -
  let ?P = "maybe (\<lambda>s. here s Os_socket_obj) (sv_socket sv)"
  have "grown (server_owns [] sv @ [?P]) st0 st" using assms by (simp add: os_server_def server_owns_def)
  from grown_frees [OF grown_append [OF this] server_owns_frees] obtain B where B:
    "ebind (release_member release_input (sv_input sv) st) (release_all release_connection (sv_clients sv)) = Inr (forget B st)"
    "grown [?P] st0 (forget B st)" by blast
  have "frees (here s Os_socket_obj) (release_wsocket s)" for s
    by (auto simp: frees_def here_def release_wsocket_def delete_socket_defs deref_def delete_object_forget)
  from grown_frees [OF B(2) frees_maybe [OF this]] obtain C where
    "release_member release_wsocket (sv_socket sv) (forget B st) = Inr (forget C (forget B st))"
    "grown [] st0 (forget C (forget B st))" by blast
  with B(1) show ?thesis by (auto simp: delete_server_def ebind_assoc [symmetric] dest: grown_Nil)
qed

section \<open>A server on shared memory\<close>

text \<open>Before its first client the server alone owns the socket.\<close>

definition fresh_shared :: "addr \<Rightarrow> obj assertion" where
  "fresh_shared s st A \<longleftrightarrow> (\<exists>sf cf. apart (socket_parts (Shared_socket_obj True sf cf) @ [here s (Shared_socket_obj True sf cf)]) st A)"

lemma fresh_shared_eq:
  "fresh_shared s = (\<lambda>st A. \<exists>sf cf. apart (socket_parts (Shared_socket_obj True sf cf) @ [here s (Shared_socket_obj True sf cf)]) st A)"
  by (intro ext) (simp add: fresh_shared_def)

lemma fresh_shared_confined: "confined (fresh_shared s)"
  unfolding fresh_shared_eq by (intro confined_exists confined_apart) simp

lemma fresh_shared_owned: "fresh_shared s st A \<Longrightarrow> owned socket_parts s st A"
  unfolding fresh_shared_def owned_def by blast

lemma fresh_shared_frees: "frees (fresh_shared s) (release_wsocket s)"
  using freesD [OF sockets.release_frees fresh_shared_owned] by (simp add: frees_def)

definition shared_server :: "memory \<Rightarrow> simple_server \<times> memory \<Rightarrow> bool" where
  "shared_server st0 sst \<longleftrightarrow>
     (let (sv, st) = sst in \<exists>s. sv_socket sv = Some s \<and> grown (server_owns [fresh_shared s] sv) st0 st)"

text \<open>After it, a client owns the socket as well, until it is released; the server's pointer is the same all the time.\<close>

definition stale_server :: "memory \<Rightarrow> simple_server \<times> memory \<Rightarrow> bool" where
  "stale_server st0 sst \<longleftrightarrow>
     (let (sv, st) = sst in \<exists>s. sv_socket sv = Some s \<and> grown (server_owns [] sv) st0 st
        \<and> objects st0 s = None \<and> (objects st s = None \<or> (\<exists>sf cf. objects st s = Some (Shared_socket_obj False sf cf))))"

lemma grown_weaken:
  assumes "grown (P # Ps) st0 st" and "\<And>st A. P st A \<Longrightarrow> Q st A" and "confined Q"
  shows "grown (Q # Ps) st0 st"
  using assms by (auto simp: grown_def apart.simps(2)) blast

lemma serve_shared:
  assumes "shared_server st0 (sv, st)"
  shows "\<exists>sv' st'. serve e (sv, st) = Inr (sv', st') \<and>
    (if e = Poll True then stale_server st0 (sv', st') else shared_server st0 (sv', st'))"
proof -
  from assms obtain s where s: "sv_socket sv = Some s" and g: "grown (server_owns [fresh_shared s] sv) st0 st"
    by (auto simp: shared_server_def)
  have m: "mset (server_owns [P] sv) = mset (P # server_owns [] sv)" for P by (simp add: server_owns_def)
  show ?thesis
  proof (cases e)
    case (Poll found)
    from g obtain A where A: "fresh_shared s st A" "\<forall>a \<in> A. objects st0 a = None"
      using grown_live [OF g, of "fresh_shared s"] by (auto simp: server_owns_def)
    then obtain sf cf where o: "objects st s = Some (Shared_socket_obj True sf cf)" "objects st0 s = None"
      using deref_here [of _ st A s] by (fastforce simp: fresh_shared_def deref_def split: option.splits)
    show ?thesis
    proof (cases found)
      case False
      with Poll s o assms show ?thesis by (simp add: serve_poll_def poll_socket_defs deref_def)
    next
      case True
      let ?c = "Shared_socket_obj True sf cf" and ?d = "Shared_socket_obj False sf cf" and ?Ps = "server_owns [] sv"
      let ?st = "set_object s ?d st"
      from grown_perm [OF g m] obtain A where A: "apart (fresh_shared s # ?Ps) st A" "objects (forget A st) = objects st0"
        by (auto simp: grown_def)
      have "grown (owned socket_parts s # ?Ps) st0 st"
        by (rule grown_weaken [OF grown_perm [OF g m] fresh_shared_owned sockets.owns_confined])
      from grown_parts [OF this socket_confined] obtain c where c: "grown (socket_parts c @ here s c # ?Ps) st0 st" by blast
      then have "c = ?c" using grown_deref [OF c, of s c] o(1) by (simp add: deref_def)
      with c have "grown (socket_parts ?d @ here s c # ?Ps) st0 st" by simp
      from grown_set_owner [OF this sockets.owns_confined] have "grown (owned socket_parts s # ?Ps) st0 ?st" .
      from accept_spec [OF this] obtain cc st' where cc: "create_connection s ?st = Inr (cc, st')"
        "grown (server_owns [] (sv\<lparr>sv_clients := sv_clients sv @ [cc]\<rparr>)) st0 st'" by blast
      have "s < next_addr ?st" using o(1) g by (auto simp: grown_def store_inv_def set_object_def not_le [symmetric])
      with cc(1) have "objects st' s = Some ?d"
        using create_connection_keeps [of s ?st cc st' s] by (simp add: set_object_def)
      with cc o s Poll True show ?thesis
        by (simp add: serve_poll_def poll_socket_defs deref_def stale_server_def)
    qed
  next
    case (Drop i)
    with serve_drop_spec [OF g, of i] s show ?thesis by (auto simp: shared_server_def)
  next
    case (Give_up i)
    with serve_give_up_spec [OF g, of i] s show ?thesis by (auto simp: shared_server_def)
  qed
qed

lemma serve_stale:
  assumes "stale_server st0 (sv, st)"
  shows "case serve e (sv, st) of Inl f \<Rightarrow> f = UseAfterFree | Inr sst \<Rightarrow> stale_server st0 sst"
proof -
  from assms obtain s where s: "sv_socket sv = Some s" "objects st0 s = None" and g: "grown (server_owns [] sv) st0 st"
    and o: "objects st s = None \<or> (\<exists>sf cf. objects st s = Some (Shared_socket_obj False sf cf))"
    by (auto simp: stale_server_def)
  have keeps: "objects st' s = None \<or> (\<exists>sf cf. objects st' s = Some (Shared_socket_obj False sf cf))" if "only_frees st st'" for st'
    using that o by (auto simp: only_frees_def) (metis obj.distinct option.distinct(1) option.inject)+
  show ?thesis
  proof (cases e)
    case (Poll found)
    with s o assms show ?thesis by (auto simp: serve_poll_def poll_socket_defs deref_def)
  next
    case (Drop i)
    from serve_drop_spec [OF g, of i] obtain sv' st' where "serve_drop i (sv, st) = Inr (sv', st')"
      "grown (server_owns [] sv') st0 st'" "sv_socket sv' = sv_socket sv" "only_frees st st'" by blast
    with Drop s keeps show ?thesis by (simp add: stale_server_def)
  next
    case (Give_up i)
    from serve_give_up_spec [OF g, of i] obtain st' where "serve_give_up i (sv, st) = Inr (sv, st')"
      "grown (server_owns [] sv) st0 st'" "only_frees st st'" by blast
    with Give_up s keeps show ?thesis by (simp add: stale_server_def)
  qed
qed

lemma serve_all_stale:
  "stale_server st0 (sv, st) \<Longrightarrow>
   case serve_all es (sv, st) of Inl f \<Rightarrow> f = UseAfterFree | Inr sst \<Rightarrow> stale_server st0 sst"
proof (induction es arbitrary: sv st)
  case (Cons e es)
  from serve_stale [OF Cons.prems, of e] show ?case
  proof (cases "serve e (sv, st)")
    case (Inr sst)
    with serve_stale [OF Cons.prems, of e] Cons.IH [of "fst sst" "snd sst"] show ?thesis by simp
  qed simp
qed simp

lemma serve_all_shared:
  "shared_server st0 (sv, st) \<Longrightarrow>
   case serve_all es (sv, st) of
     Inl f \<Rightarrow> f = UseAfterFree \<and> Poll True \<in> set es
   | Inr sst \<Rightarrow> if Poll True \<in> set es then stale_server st0 sst else shared_server st0 sst"
proof (induction es arbitrary: sv st)
  case (Cons e es)
  from serve_shared [OF Cons.prems, of e] obtain sv' st' where s: "serve e (sv, st) = Inr (sv', st')"
    "if e = Poll True then stale_server st0 (sv', st') else shared_server st0 (sv', st')" by blast
  show ?case
  proof (cases "e = Poll True")
    case True
    with s serve_all_stale [of st0 sv' st' es] show ?thesis by (auto split: sum.splits)
  next
    case False
    with s Cons.IH [of sv' st'] show ?thesis by (auto split: sum.splits if_splits)
  qed
qed simp

lemma delete_shared:
  assumes "shared_server st0 (sv, st)"
  shows "\<exists>st'. delete_server sv st = Inr st' \<and> objects st' = objects st0"
proof -
  from assms obtain s where s: "sv_socket sv = Some s" and g: "grown (server_owns [] sv @ [fresh_shared s]) st0 st"
    by (auto simp: shared_server_def server_owns_def)
  from grown_frees [OF grown_append [OF g] server_owns_frees] obtain B where B:
    "ebind (release_member release_input (sv_input sv) st) (release_all release_connection (sv_clients sv)) = Inr (forget B st)"
    "grown [fresh_shared s] st0 (forget B st)" by blast
  from grown_frees [OF B(2) fresh_shared_frees] obtain C where "release_wsocket s (forget B st) = Inr (forget C (forget B st))"
    "grown [] st0 (forget C (forget B st))" by blast
  with B(1) s show ?thesis by (auto simp: delete_server_def ebind_assoc [symmetric] dest: grown_Nil)
qed

lemma delete_stale:
  assumes "stale_server st0 (sv, st)"
  shows "delete_server sv st = Inl UseAfterFree"
proof -
  from assms obtain s where s: "sv_socket sv = Some s" "objects st0 s = None" and g: "grown (server_owns [] sv @ []) st0 st"
    by (auto simp: stale_server_def)
  from grown_frees [OF grown_append [OF g] server_owns_frees] obtain B where B:
    "ebind (release_member release_input (sv_input sv) st) (release_all release_connection (sv_clients sv)) = Inr (forget B st)"
    "grown [] st0 (forget B st)" by blast
  have "deref s (forget B st) = Inl UseAfterFree"
    using grown_Nil [OF B(2)] s(2) by (simp add: deref_def del: objects_forget)
  with B(1) s(1) show ?thesis by (simp add: delete_server_def ebind_assoc [symmetric] release_wsocket_def)
qed

lemma new_server_shared:
  assumes "store_inv st0"
  shows "\<exists>sv st. new_server (create_shared True True) st0 = Inr (sv, st) \<and> shared_server st0 (sv, st)"
proof -
  from create_shared_spec [OF grown_start [OF assms], of True True] obtain p sf cf st where
    c: "create_shared True True st0 = Inr (Some p, st)" "grown [owned socket_parts p] st0 st"
    "objects st p = Some (Shared_socket_obj True sf cf)" by auto
  from grown_parts [OF c(2) socket_confined] obtain d where d: "grown (socket_parts d @ [here p d]) st0 st" by blast
  have "d = Shared_socket_obj True sf cf" using grown_deref [OF d, of p d] c(3) by (simp add: deref_def)
  with d have "grown (apart (socket_parts d @ [here p d]) # []) st0 st" by (intro grown_append) simp
  then have "grown [fresh_shared p] st0 st"
    by (rule grown_weaken) (use \<open>d = _\<close> fresh_shared_confined in \<open>auto simp: fresh_shared_def\<close>)
  from create_input_spec [OF this] obtain i st' where "create_input st = (i, st')"
    "grown (owned input_parts i # [fresh_shared p]) st0 st'" by blast
  with c(1) show ?thesis by (simp add: new_server_def shared_server_def server_owns_def)
qed

section \<open>Properties\<close>

text \<open>C22. The chat server gives back everything it has allocated, whatever clients come, give up and go, and in which
  order: its destructor releases each object once, and nothing is used after it has been released. All that is left is
  the worker thread of the input line, which is detached and reads \<open>mExit\<close> from an object that is gone.\<close>
theorem server_gives_back:
  assumes "store_inv st0"
  shows "\<exists>sv st i. server_life (create_os valid) es st0 = Inr (sv, st) \<and> objects st = objects st0
    \<and> sv_input sv = Some i \<and> deref i st = Inl UseAfterFree"
proof -
  from new_server_os [OF assms, of valid] obtain sv0 st1 i where n: "new_server (create_os valid) st0 = Inr (sv0, st1)"
    "os_server st0 (sv0, st1)" "sv_input sv0 = Some i" "objects st0 i = None" by blast
  from serve_all_os [OF n(2), of es] obtain sv st where s: "serve_all es (sv0, st1) = Inr (sv, st)" "os_server st0 (sv, st)"
    "sv_input sv = Some i" using n(3) by auto
  from delete_os [OF s(2)] obtain st' where "delete_server sv st = Inr st'" "objects st' = objects st0" by blast
  with n s show ?thesis by (simp add: server_life_def deref_def)
qed

definition no_objects :: memory where
  "no_objects = \<lparr>objects = (\<lambda>_. None), next_addr = 0\<rparr>"

lemma server_gives_back_witness:
  "\<exists>sv st i. server_life (create_os True) [Poll True, Poll False, Poll True, Give_up 1, Drop 0] no_objects = Inr (sv, st)
    \<and> objects st = (\<lambda>_. None) \<and> sv_input sv = Some i \<and> deref i st = Inl UseAfterFree"
  using server_gives_back [of no_objects True "[Poll True, Poll False, Poll True, Give_up 1, Drop 0]"]
  by (simp add: store_inv_def no_objects_def)

text \<open>C24. The same server on a shared-memory socket works only as long as no client comes: then the server's socket belongs
  to the client as well, which releases it when it is deleted, and the server uses it once more, to poll it or to
  release it. Without a client everything is given back.\<close>
theorem shared_server_released_twice:
  assumes "store_inv st0"
  shows "if Poll True \<in> set es then server_life (create_shared True True) es st0 = Inl UseAfterFree
    else \<exists>sv st. server_life (create_shared True True) es st0 = Inr (sv, st) \<and> objects st = objects st0"
proof -
  from new_server_shared [OF assms] obtain sv0 st1 where n: "new_server (create_shared True True) st0 = Inr (sv0, st1)"
    "shared_server st0 (sv0, st1)" by blast
  from serve_all_shared [OF n(2), of es] delete_shared delete_stale n(1) show ?thesis
    by (cases "serve_all es (sv0, st1)") (fastforce simp: server_life_def split: if_splits)+
qed

lemma shared_server_released_twice_witness:
  "server_life (create_shared True True) [Poll False, Poll True, Poll True] no_objects = Inl UseAfterFree
    \<and> (\<exists>sv st. server_life (create_shared True True) [Poll False] no_objects = Inr (sv, st) \<and> objects st = (\<lambda>_. None))"
  using shared_server_released_twice [of no_objects "[Poll False, Poll True, Poll True]"]
    shared_server_released_twice [of no_objects "[Poll False]"]
  by (simp add: store_inv_def no_objects_def)



end
