(* ===== verification/ServerRun.thy ===== *)
theory ServerRun
  imports ServerObjects TestServer
begin

text \<open>
  The passes of the server (\<open>TestServer\<close>) and the lives of its objects (\<open>ServerObjects\<close>) are two views of the same
  code. \<open>run_events\<close> reads off a run of \<open>TestServer\<close> what it does to the objects: one poll of the listening socket
  in each pass, the release of every closed connection, and the release of the socket of every client whose own
  \<open>poll\<close> released it. Played to the objects, these events lead to the same clients, and a client has a socket in the
  one view when it has one in the other.
\<close>

section \<open>The two views\<close>

text \<open>Whether a connection has a \<open>WebSocket\<close>, and whether that has a socket.\<close>

definition shape :: "'s client_connection \<Rightarrow> bool option" where
  "shape c = map_option (\<lambda>ws. mSocket ws \<noteq> None) (cc_client c)"

definition shape_at :: "memory \<Rightarrow> addr \<Rightarrow> bool option option" where
  "shape_at st p =
     (case objects st p of
        Some (Connection_obj None) \<Rightarrow> Some None
      | Some (Connection_obj (Some w)) \<Rightarrow>
          (case objects st w of Some (Web_socket_obj m) \<Rightarrow> Some (Some (ws_socket m \<noteq> None)) | _ \<Rightarrow> None)
      | _ \<Rightarrow> None)"

definition same_server :: "memory \<Rightarrow> 's client_connection list \<Rightarrow> simple_server \<times> memory \<Rightarrow> bool" where
  "same_server st0 clients sst \<longleftrightarrow>
     os_server st0 sst \<and> sv_socket (fst sst) \<noteq> None
     \<and> map (shape_at (snd sst)) (sv_clients (fst sst)) = map (\<lambda>c. Some (shape c)) clients"

text \<open>What a pass does to the objects. A connection that is released is found at the position that is left when the
  closed ones before it are gone.\<close>

fun drops :: "nat \<Rightarrow> bool list \<Rightarrow> server_event list" where
  "drops k [] = []"
| "drops k (connected # bs) = (if connected then drops (Suc k) bs else Drop k # drops k bs)"

definition give_ups :: "nat list \<Rightarrow> bool option list \<Rightarrow> bool option list \<Rightarrow> server_event list" where
  "give_ups is before after = map Give_up (filter (\<lambda>i. before ! i \<noteq> after ! i) is)"

definition pass_events ::
  "bool \<Rightarrow> 's client_connection list \<Rightarrow> 's client_connection list \<Rightarrow> server_event list" where
  "pass_events found clients clients' =
     [Poll found] @ drops 0 (map isConnected clients)
     @ give_ups [0..<length clients'] (map shape (filter isConnected clients) @ (if found then [Some True] else []))
         (map shape clients')"

fun run_events ::
  "'s wsocket_ops \<Rightarrow> allocator \<Rightarrow> endian \<Rightarrow> 's pass_input list \<Rightarrow> 's client_connection list \<Rightarrow> server_event list" where
  "run_events ops h e [] clients = []"
| "run_events ops h e (i # is) clients =
     (case run_pass ops h e (in_random i) (in_stale i) (in_clock i) (in_now i) (in_socket i) (in_line i) clients of
        Some (Inr (exit, clients')) \<Rightarrow>
          pass_events (in_socket i \<noteq> None) clients clients' @ (if exit then [] else run_events ops h e is clients')
      | _ \<Rightarrow> [])"

text \<open>The events lead from one pair of views to another.\<close>

definition follows ::
  "memory \<Rightarrow> simple_server \<times> memory \<Rightarrow> server_event list \<Rightarrow> 's client_connection list \<Rightarrow> simple_server \<times> memory \<Rightarrow> bool" where
  "follows st0 sst es clients sst' \<longleftrightarrow> serve_all es sst = Inr sst' \<and> same_server st0 clients sst'"

lemma serve_all_append: "serve_all (es @ es') sst = ebind (serve_all es sst) (serve_all es')"
proof (induction es arbitrary: sst)
  case (Cons e es)
  then show ?case by (simp add: ebind_assoc) (cases "serve e sst", simp_all)
qed simp

lemma follows_refl: "same_server st0 clients sst \<Longrightarrow> follows st0 sst [] clients sst"
  by (simp add: follows_def)

lemma follows_trans: "follows st0 a es clients b \<Longrightarrow> follows st0 b es' clients' c \<Longrightarrow> follows st0 a (es @ es') clients' c"
  by (simp add: follows_def serve_all_append)

lemma follows_event: "serve e sst = Inr sst' \<Longrightarrow> same_server st0 clients sst' \<Longrightarrow> follows st0 sst [e] clients sst'"
  by (simp add: follows_def)

lemma follows_same: "follows st0 a es clients b \<Longrightarrow> same_server st0 clients b"
  by (simp add: follows_def)

section \<open>One event\<close>

text \<open>The shape of a connection is a matter of what it owns.\<close>

lemma connection_here:
  assumes "owned connection_parts p st A"
  shows "\<exists>w. objects st p = Some (Connection_obj w) \<and> p \<in> A \<and> (\<forall>w'. w = Some w' \<longrightarrow> w' \<in> A)"
proof -
  from assms obtain c where c: "apart (connection_parts c @ [here p c]) st A" by (auto simp: owned_def)
  then have "deref p st = Inr c \<and> p \<in> A" by (rule deref_here) simp
  moreover obtain w where w: "c = Connection_obj w"
    using apart_member [OF c, of impossible] by (cases c) (auto simp: impossible_def)
  moreover have "w' \<in> A" if "w = Some w'" for w'
  proof -
    from apart_member [OF c, of "maybe (owned ws_parts) w"] w that obtain B where B: "B \<subseteq> A" "owned ws_parts w' st B" by auto
    from B(2) obtain d where "apart (ws_parts d @ [here w' d]) st B" by (auto simp: owned_def)
    then have "w' \<in> B" using deref_here by fastforce
    with B(1) show ?thesis by blast
  qed
  ultimately show ?thesis by (auto simp: deref_def split: option.splits)
qed

lemma shape_local:
  assumes "owned connection_parts p st A" and "\<And>a. a \<in> A \<Longrightarrow> objects st' a = objects st a"
  shows "shape_at st' p = shape_at st p"
proof -
  from connection_here [OF assms(1)] obtain w where "objects st p = Some (Connection_obj w)" "p \<in> A" "\<forall>w'. w = Some w' \<longrightarrow> w' \<in> A"
    by blast
  with assms(2) show ?thesis by (cases w) (simp_all add: shape_at_def)
qed

text \<open>What is left after a release has kept its shape.\<close>

lemma shape_forget:
  assumes "grown Ps st0 (forget B st)" and "owned connection_parts p \<in> set Ps"
  shows "shape_at (forget B st) p = shape_at st p"
proof -
  from grown_live [OF assms] obtain A where A: "owned connection_parts p (forget B st) A" by blast
  have "a \<notin> B" if "a \<in> A" for a
    using confinedD(1) [OF connections.owns_confined A] that by (auto split: if_splits)
  then have "shape_at st p = shape_at (forget B st) p" by (intro shape_local [OF A]) simp
  then show ?thesis by simp
qed

lemma drop_same_server:
  assumes "same_server st0 (cs @ c # ds) (sv, st)"
  shows "\<exists>sst. follows st0 (sv, st) [Drop (length cs)] (cs @ ds) sst"
proof -
  let ?i = "length cs"
  let ?Ts = "[maybe (\<lambda>s. here s Os_socket_obj) (sv_socket sv)]"
  note same = assms [unfolded same_server_def fst_conv snd_conv]
  have len: "length (sv_clients sv) = length (cs @ c # ds)" using arg_cong [OF conjunct2 [OF conjunct2 [OF same]], of length] by simp
  then have i: "?i < length (sv_clients sv)" by simp
  let ?sv = "sv\<lparr>sv_clients := take ?i (sv_clients sv) @ drop (Suc ?i) (sv_clients sv)\<rparr>"
  have "grown (server_owns ?Ts sv) st0 st" using same by (simp add: os_server_def)
  from grown_frees [OF grown_perm [OF this server_owns_split [OF i]] connections.release_frees] obtain B where
    B: "release_connection (sv_clients sv ! ?i) st = Inr (forget B st)" "grown (server_owns ?Ts ?sv) st0 (forget B st)" by blast
  have "serve (Drop ?i) (sv, st) = Inr (?sv, forget B st)" using B(1) i by (simp add: serve_drop_def Let_def)
  moreover have "same_server st0 (cs @ ds) (?sv, forget B st)"
  proof -
    have "shape_at (forget B st) p = shape_at st p" if "p \<in> set (sv_clients ?sv)" for p
      using that by (intro shape_forget [OF B(2)]) (auto simp: server_owns_def)
    then have "map (shape_at (forget B st)) (sv_clients ?sv) = map (shape_at st) (sv_clients ?sv)" by (intro map_cong refl) 
    also have "\<dots> = take ?i (map (shape_at st) (sv_clients sv)) @ drop (Suc ?i) (map (shape_at st) (sv_clients sv))"
      by (simp add: take_map drop_map)
    also have "\<dots> = map (\<lambda>c. Some (shape c)) (cs @ ds)" using same by simp
    finally show ?thesis using same B(2) by (simp add: same_server_def os_server_def)
  qed
  ultimately show ?thesis using follows_event by blast
qed

lemma give_up_shape:
  assumes g: "grown (owned connection_parts p # Ps) st0 st" and s: "shape_at st p = Some (Some True)"
  shows "\<exists>st'. connection_give_up p st = Inr st' \<and> grown (owned connection_parts p # Ps) st0 st'
    \<and> shape_at st' p = Some (Some False)
    \<and> (\<forall>q. owned connection_parts q \<in> set Ps \<longrightarrow> shape_at st' q = shape_at st q)"
proof -
  from grown_parts [OF g connection_confined] obtain c where g1: "grown (connection_parts c @ here p c # Ps) st0 st" by blast
  have p: "objects st p = Some c" using grown_deref [OF g1, of p c] by (auto simp: deref_def split: option.splits)
  with s obtain w where c: "c = Connection_obj (Some w)"
    by (auto simp: shape_at_def split: obj.splits option.splits)
  then have g2: "grown (owned ws_parts w # here p c # Ps) st0 st" using g1 by simp
  from drop_socket_spec [OF g2] obtain B m m' st' where st': "drop_socket w st = Inr st'"
    "st' = set_object w (Web_socket_obj m) (forget B st)" "grown (owned ws_parts w # here p c # Ps) st0 st'"
    "objects st w = Some (Web_socket_obj m')" "ws_socket m = None" by blast
  have g3: "grown (owned connection_parts p # Ps) st0 st'"
    using grown_owned [OF _ connections.owns_confined, of c p Ps st0 st'] st'(3) c by simp
  have up: "connection_give_up p st = Inr st'" using p c st'(1) by (simp add: connection_give_up_def deref_def)
  have "deref p st' = Inr c" by (rule grown_deref [OF st'(3)]) simp
  then have "objects st' p = Some c" by (auto simp: deref_def split: option.splits)
  then have own: "shape_at st' p = Some (Some False)"
    using c st'(2,5) by (simp add: shape_at_def set_object_def)
  have "shape_at st' q = shape_at st q" if q: "owned connection_parts q \<in> set Ps" for q
  proof -
    from g3 obtain A where "apart (owned connection_parts p # Ps) st' A" by (auto simp: grown_def)
    then obtain A1 A2 where a: "A1 \<inter> A2 = {}" "owned connection_parts p st' A1" "apart Ps st' A2" by (rule apartE)
    from apart_member [OF a(3) q] obtain A' where A': "A' \<subseteq> A2" "owned connection_parts q st' A'" by blast
    have "w \<in> A1" using connection_here [OF a(2)] \<open>objects st' p = Some c\<close> c by auto
    then have w: "w \<notin> A'" using a(1) A'(1) by blast
    have "objects st a = objects st' a" if "a \<in> A'" for a
      using confinedD(1) [OF connections.owns_confined A'(2)] that w by (auto simp: st'(2) set_object_def split: if_splits)
    then have "shape_at st q = shape_at st' q" by (intro shape_local [OF A'(2)])
    then show ?thesis by simp
  qed
  with up g3 own show ?thesis by blast
qed

lemma map_update_at: "i < length xs \<Longrightarrow> map f xs = ys \<Longrightarrow> (\<And>j. j < length xs \<Longrightarrow> j \<noteq> i \<Longrightarrow> g (xs ! j) = f (xs ! j)) \<Longrightarrow>
    g (xs ! i) = y \<Longrightarrow> map g xs = ys[i := y]"
  by (intro nth_equalityI) (auto simp: nth_list_update)

lemma give_up_same_server:
  assumes "same_server st0 cs (sv, st)" and i: "i < length cs" and s: "shape (cs ! i) = Some True" "shape c = Some False"
  shows "\<exists>sst. follows st0 (sv, st) [Give_up i] (cs[i := c]) sst"
proof -
  let ?Ts = "[maybe (\<lambda>s. here s Os_socket_obj) (sv_socket sv)]" and ?p = "sv_clients sv ! i"
  let ?sv = "sv\<lparr>sv_clients := take i (sv_clients sv) @ drop (Suc i) (sv_clients sv)\<rparr>"
  note same = assms(1) [unfolded same_server_def fst_conv snd_conv]
  have len: "length (sv_clients sv) = length cs" using arg_cong [OF conjunct2 [OF conjunct2 [OF same]], of length] by simp
  with i have i': "i < length (sv_clients sv)" by simp
  have "map (shape_at st) (sv_clients sv) ! i = Some (shape (cs ! i))" using same i by simp
  then have p: "shape_at st ?p = Some (Some True)" using i' s(1) by simp
  have "grown (server_owns ?Ts sv) st0 st" using same by (simp add: os_server_def)
  from give_up_shape [OF grown_perm [OF this server_owns_split [OF i']] p] obtain st' where st':
    "connection_give_up ?p st = Inr st'" "grown (owned connection_parts ?p # server_owns ?Ts ?sv) st0 st'"
    "shape_at st' ?p = Some (Some False)"
    "\<And>q. owned connection_parts q \<in> set (server_owns ?Ts ?sv) \<Longrightarrow> shape_at st' q = shape_at st q" by blast
  have "serve (Give_up i) (sv, st) = Inr (sv, st')" using st'(1) i' by (simp add: serve_give_up_def)
  moreover have "same_server st0 (cs[i := c]) (sv, st')"
  proof -
    have "shape_at st' (sv_clients sv ! j) = shape_at st (sv_clients sv ! j)" if j: "j < length (sv_clients sv)" "j \<noteq> i" for j
    proof -
      have "sv_clients sv ! j \<in> set (take i (sv_clients sv)) \<or> sv_clients sv ! j \<in> set (drop (Suc i) (sv_clients sv))"
        using j in_set_conv_nth [of "sv_clients sv ! j" "take i (sv_clients sv)"]
          in_set_conv_nth [of "sv_clients sv ! j" "drop (Suc i) (sv_clients sv)"]
        by (cases "j < i") (auto intro: exI [of _ j] exI [of _ "j - Suc i"])
      then show ?thesis by (intro st'(4)) (auto simp: server_owns_def)
    qed
    then have "map (shape_at st') (sv_clients sv) = (map (\<lambda>c. Some (shape c)) cs)[i := Some (Some False)]"
      using map_update_at [OF i', of "shape_at st" _ "shape_at st'"] same st'(3) by blast
    then show ?thesis
      using same s(2) grown_perm [OF st'(2) server_owns_split [OF i', symmetric]]
      by (simp add: same_server_def os_server_def map_update)
  qed
  ultimately show ?thesis using follows_event by blast
qed

text \<open>A connection that has been made has a socket.\<close>

lemma create_connection_shape:
  assumes "create_connection s st = Inr (p, st')"
  shows "shape_at st' p = Some (Some True)"
proof -
  let ?w = "Web_socket_obj \<lparr>ws_socket = None, ws_receivedData = None, ws_receiveBuffer = None, ws_transmitBuffer = None,
      ws_logFile = None\<rparr>"
  obtain c st1 where 1: "new_object (Connection_obj None) st = (c, st1)" "c = next_addr st" "next_addr st1 = Suc (next_addr st)"
    by (simp add: new_object_def)
  obtain w st2 where 2: "new_object ?w st1 = (w, st2)" "w = next_addr st1" by (simp add: new_object_def)
  obtain t st3 where 3: "new_buffer DEFAULT_TRANSMIT_BUFFER_SIZE st2 = (t, st3)" by fastforce
  obtain d st4 where 4: "new_buffer DEFAULT_RECEIVE_BUFFER_SIZE st3 = (d, st4)" by fastforce
  obtain r st5 where 5: "new_buffer DEFAULT_RECEIVE_BUFFER_SIZE st4 = (r, st5)" by fastforce
  show ?thesis
    using assms 1(2,3) 2(2) by (auto simp: create_connection_def create_ws_def 1(1) 2(1) 3 4 5 set_object_def shape_at_def)
qed

lemma accept_same_server:
  assumes "same_server st0 cs (sv, st)" and "shape c = Some True"
  shows "\<exists>sst. follows st0 (sv, st) [Poll True] (cs @ [c]) sst"
proof -
  note same = assms(1) [unfolded same_server_def fst_conv snd_conv]
  let ?Ts = "[maybe (\<lambda>s. here s Os_socket_obj) (sv_socket sv)]"
  from same obtain s where s: "sv_socket sv = Some s" by auto
  have g: "grown (server_owns ?Ts sv) st0 st" using same by (simp add: os_server_def)
  have one: "maybe (\<lambda>s. here s Os_socket_obj) (Some s) = here s Os_socket_obj" by (intro ext) simp
  have d: "deref s st = Inr Os_socket_obj" using g s by (auto simp: server_owns_def one intro!: grown_deref)
  let ?n = "next_addr st" and ?st = "snd (new_object Os_socket_obj st)"
  have p: "poll_socket s True st = Inr (Some ?n, ?st)" by (simp add: poll_socket_defs d new_object_def)
  from grown_new [OF g] have "grown (owned socket_parts ?n # server_owns ?Ts sv) st0 ?st"
    using grown_owned [of socket_parts Os_socket_obj] sockets.owns_confined by simp
  from accept_spec [OF this] obtain cc st' where cc: "create_connection ?n ?st = Inr (cc, st')"
    "grown (server_owns ?Ts (sv\<lparr>sv_clients := sv_clients sv @ [cc]\<rparr>)) st0 st'" by blast
  have "serve (Poll True) (sv, st) = Inr (sv\<lparr>sv_clients := sv_clients sv @ [cc]\<rparr>, st')"
    using s p cc(1) by (simp add: serve_poll_def)
  moreover have "same_server st0 (cs @ [c]) (sv\<lparr>sv_clients := sv_clients sv @ [cc]\<rparr>, st')"
  proof -
    have "shape_at st' q = shape_at st q" if "q \<in> set (sv_clients sv)" for q
    proof -
      have "owned connection_parts q \<in> set (server_owns ?Ts sv)" using that by (simp add: server_owns_def)
      from grown_live [OF g this] obtain A where A: "owned connection_parts q st A" "\<forall>a \<in> A. a < next_addr st" by blast
      then show ?thesis
        using create_connection_keeps [OF cc(1)] by (intro shape_local [OF A(1)]) (auto simp: new_object_def)
    qed
    then have "map (shape_at st') (sv_clients sv) = map (shape_at st) (sv_clients sv)" by (intro map_cong refl)
    then show ?thesis using same cc(2) create_connection_shape [OF cc(1)] assms(2) by (simp add: same_server_def os_server_def)
  qed
  ultimately show ?thesis using follows_event by blast
qed

text \<open>A poll that finds nobody leaves everything as it is.\<close>

lemma poll_same_server:
  assumes "same_server st0 cs (sv, st)"
  shows "follows st0 (sv, st) [Poll False] cs (sv, st)"
proof -
  note same = assms [unfolded same_server_def fst_conv snd_conv]
  from same obtain s where s: "sv_socket sv = Some s" by auto
  have one: "maybe (\<lambda>s. here s Os_socket_obj) (Some s) = here s Os_socket_obj" by (intro ext) simp
  have "grown (server_owns [maybe (\<lambda>s. here s Os_socket_obj) (sv_socket sv)] sv) st0 st" using same by (simp add: os_server_def)
  then have "deref s st = Inr Os_socket_obj" using s by (auto simp: server_owns_def one intro!: grown_deref)
  then have "serve (Poll False) (sv, st) = Inr (sv, st)" using s by (simp add: serve_poll_def poll_socket_defs)
  from follows_event [OF this assms] show ?thesis .
qed

section \<open>A pass of the server\<close>

text \<open>Sending a text touches neither the two pointers nor the state.\<close>

definition view :: "'s client_connection \<Rightarrow> bool option \<times> bool" where
  "view c = (shape c, isConnected c)"

lemma sendText_view: "sendText ws str = Inr ws' \<Longrightarrow> mSocket ws' = mSocket ws \<and> mReadyState ws' = mReadyState ws"
  by (auto simp: sendText_def sendData_def logSend_def getMaskingKey_def Let_def ebind_Inr_iff split: if_splits option.splits)

lemma cc_sendText_view: "cc_sendText str c = Inr c' \<Longrightarrow> view c' = view c"
  by (auto simp: cc_sendText_def view_def shape_def isConnected_def getReadyState_def ebind_Inr_iff sendText_view split: option.splits)

lemma broadcast_views: "broadcast str cs = Inr cs' \<Longrightarrow> map view cs' = map view cs"
  by (induction cs arbitrary: cs') (auto simp: ebind_Inr_iff cc_sendText_view)

lemma views_shapes: "map view xs = map view ys \<Longrightarrow> map shape xs = map shape ys"
  by (drule arg_cong [of _ _ "map fst"]) (simp add: comp_def view_def)

lemma views_connected: "map view xs = map view ys \<Longrightarrow> map isConnected xs = map isConnected ys"
  by (drule arg_cong [of _ _ "map snd"]) (simp add: comp_def view_def)

lemma filter_views: "map fst (filter snd (map view xs)) = map shape (filter isConnected xs)"
  by (induction xs) (simp_all add: view_def)

lemma views_filter: "map view xs = map view ys \<Longrightarrow> map shape (filter isConnected xs) = map shape (filter isConnected ys)"
  by (metis filter_views)

lemma same_server_shapes: "same_server st0 cs sst \<Longrightarrow> map shape cs' = map shape cs \<Longrightarrow> same_server st0 cs' sst"
  unfolding same_server_def by (drule arg_cong [of _ _ "map Some"]) (simp add: comp_def)

text \<open>A poll may release the socket of a client, and does nothing else to the two pointers.\<close>

lemma poll_without_socket: "mSocket ws = None \<Longrightarrow> poll ops now cb t (ws, msgs) = Some (Inr (ws, msgs))"
  by (simp add: poll_def)

lemma getMessage_shape:
  assumes "getMessage ops now c = Some (Inr (m, c'))"
  shows "shape c' = shape c \<or> shape c = Some True \<and> shape c' = Some False"
proof (cases "cc_client c")
  case None
  with assms show ?thesis by (auto simp: getMessage_def shape_def)
next
  case (Some ws)
  with assms obtain ws' msgs where p: "poll ops now True 1 (ws, []) = Some (Inr (ws', msgs))" "cc_client c' = Some ws'"
    by (auto simp: getMessage_def lbind_Some_Inr_iff Let_def fold_receiveMessage [THEN conjunct1])
  show ?thesis
  proof (cases "mSocket ws")
    case None
    with p Some show ?thesis by (simp add: poll_without_socket shape_def)
  next
    case (Some s)
    with p \<open>cc_client c = Some ws\<close> show ?thesis by (cases "mSocket ws'") (simp_all add: shape_def)
  qed
qed

lemma getMessage_same_server:
  assumes "same_server st0 cs sst" and "i < length cs" and "getMessage ops now (cs ! i) = Some (Inr (m, c))"
  shows "\<exists>sst'. follows st0 sst (if shape (cs ! i) = shape c then [] else [Give_up i]) (cs[i := c]) sst'"
proof (cases "shape (cs ! i) = shape c")
  case True
  then have "map shape (cs[i := c]) = map shape cs" by (metis list_update_id map_update)
  from follows_refl [OF same_server_shapes [OF assms(1) this]] True show ?thesis by (intro exI [of _ sst]) simp
next
  case False
  with getMessage_shape [OF assms(3)] have "shape (cs ! i) = Some True" "shape c = Some False" by auto
  with give_up_same_server [of st0 cs "fst sst" "snd sst" i c] assms(1,2) False show ?thesis by simp
qed

text \<open>One turn of the loop over the clients, and what it leaves of the others.\<close>

lemma echo_turn:
  assumes "echo_from ops now (i # is) cs = Some (Inr cs')"
  obtains m :: "u8 list option" and c cs1 where "getMessage ops now (cs ! i) = Some (Inr (m, c))" and "echo_from ops now is cs1 = Some (Inr cs')"
    and "map shape cs1 = map shape (cs[i := c])"
proof -
  from assms obtain m c where g: "getMessage ops now (cs ! i) = Some (Inr (m, c))" by (auto simp: lbind_Some_Inr_iff)
  show ?thesis
  proof (cases m)
    case None
    with assms g that [of m c "cs[i := c]"] show ?thesis by simp
  next
    case (Some str)
    with assms g obtain cs1 where "broadcast str (cs[i := c]) = Inr cs1" "echo_from ops now is cs1 = Some (Inr cs')"
      by (auto simp: lbind_Some_Inr_iff Let_def)
    with that [OF g] views_shapes [OF broadcast_views] show ?thesis by blast
  qed
qed

lemma echo_length: "echo_from ops now is cs = Some (Inr cs') \<Longrightarrow> length cs' = length cs"
proof (induction "is" arbitrary: cs)
  case (Cons i "is")
  from Cons.prems obtain m c cs1 where e: "echo_from ops now is cs1 = Some (Inr cs')" "map shape cs1 = map shape (cs[i := c])"
    by (rule echo_turn)
  from Cons.IH [OF e(1)] arg_cong [OF e(2), of length] show ?case by simp
qed simp

lemma echo_elsewhere:
  "echo_from ops now is cs = Some (Inr cs') \<Longrightarrow> j \<notin> set is \<Longrightarrow> j < length cs \<Longrightarrow> shape (cs' ! j) = shape (cs ! j)"
proof (induction "is" arbitrary: cs)
  case (Cons i "is")
  from Cons.prems(1) obtain m c cs1 where e: "echo_from ops now is cs1 = Some (Inr cs')" "map shape cs1 = map shape (cs[i := c])"
    by (rule echo_turn)
  have len: "length cs1 = length cs" using arg_cong [OF e(2), of length] by simp
  have "shape (cs1 ! j) = shape (cs[i := c] ! j)" using arg_cong [OF e(2), of "\<lambda>xs. xs ! j"] Cons.prems(3) len by simp
  with Cons.IH [OF e(1)] Cons.prems len show ?case by simp
qed simp

lemma give_ups_cong: "(\<And>i. i \<in> set is \<Longrightarrow> a ! i = b ! i) \<Longrightarrow> give_ups is a c = give_ups is b c"
  unfolding give_ups_def by (intro arg_cong [of _ _ "map Give_up"] filter_cong) simp_all

lemma give_ups_Cons: "give_ups (i # is) a b = (if a ! i = b ! i then [] else [Give_up i]) @ give_ups is a b"
  by (simp add: give_ups_def)

lemma echo_same_server:
  assumes "echo_from ops now is cs = Some (Inr cs')" and "\<forall>i \<in> set is. i < length cs" and "distinct is" and "same_server st0 cs sst"
  shows "\<exists>sst'. follows st0 sst (give_ups is (map shape cs) (map shape cs')) cs' sst'"
  using assms
proof (induction "is" arbitrary: cs sst)
  case Nil
  then have "cs = cs'" by simp
  with follows_refl [OF Nil.prems(4)] show ?case by (intro exI [of _ sst]) (simp add: give_ups_def)
next
  case (Cons i "is")
  have i: "i < length cs" using Cons.prems(2) by simp
  from Cons.prems(1) obtain m c cs1 where e: "getMessage ops now (cs ! i) = Some (Inr (m, c))"
    "echo_from ops now is cs1 = Some (Inr cs')" "map shape cs1 = map shape (cs[i := c])" by (rule echo_turn)
  have len: "length cs1 = length cs" using arg_cong [OF e(3), of length] by simp
  have at: "shape (cs1 ! j) = shape (cs[i := c] ! j)" if "j < length cs" for j
    using arg_cong [OF e(3), of "\<lambda>xs. xs ! j"] that len by simp
  from getMessage_same_server [OF Cons.prems(4) i e(1)] obtain sst1 where
    1: "follows st0 sst (if shape (cs ! i) = shape c then [] else [Give_up i]) (cs[i := c]) sst1" by blast
  from Cons.IH [OF e(2) _ _ same_server_shapes [OF follows_same [OF 1] e(3)]] Cons.prems(2,3) len obtain sst2 where
    2: "follows st0 sst1 (give_ups is (map shape cs1) (map shape cs')) cs' sst2" by auto
  have "shape (cs' ! i) = shape c" using echo_elsewhere [OF e(2), of i] Cons.prems(3) at [OF i] i len by simp
  moreover have "give_ups is (map shape cs1) (map shape cs') = give_ups is (map shape cs) (map shape cs')"
  proof (rule give_ups_cong)
    fix j
    assume "j \<in> set is"
    with Cons.prems(2,3) at [of j] len show "map shape cs1 ! j = map shape cs ! j" by (cases "j = i") simp_all
  qed
  ultimately have "give_ups (i # is) (map shape cs) (map shape cs') =
      (if shape (cs ! i) = shape c then [] else [Give_up i]) @ give_ups is (map shape cs1) (map shape cs')"
    using i echo_length [OF Cons.prems(1)] by (simp add: give_ups_Cons)
  with follows_trans [OF 1 2] show ?case by (intro exI [of _ sst2]) simp
qed

lemma filter_same_server:
  "same_server st0 (cs @ ds) sst \<Longrightarrow> \<exists>sst'. follows st0 sst (drops (length cs) (map isConnected ds)) (cs @ filter isConnected ds) sst'"
proof (induction ds arbitrary: cs sst)
  case Nil
  from follows_refl [OF Nil.prems] show ?case by (intro exI [of _ sst]) simp
next
  case (Cons d ds)
  show ?case
  proof (cases "isConnected d")
    case True
    with Cons.IH [of "cs @ [d]" sst] Cons.prems show ?thesis by simp
  next
    case False
    from drop_same_server [of st0 cs d ds "fst sst" "snd sst"] Cons.prems obtain sst1 where
      1: "follows st0 sst [Drop (length cs)] (cs @ ds) sst1" by auto
    from Cons.IH [OF follows_same [OF 1]] obtain sst2 where
      "follows st0 sst1 (drops (length cs) (map isConnected ds)) (cs @ filter isConnected ds) sst2" by blast
    from follows_trans [OF 1 this] False show ?thesis by (intro exI [of _ sst2]) simp
  qed
qed

lemma drops_last: "drops k (bs @ [True]) = drops k bs"
  by (induction bs arbitrary: k) simp_all

text \<open>The client that a pass accepts.\<close>

lemma accept_pass:
  assumes "(case s of None \<Rightarrow> Some (Inr cs) | Some s \<Rightarrow> accept_client ops h e rnd stale clock now s cs) = Some (Inr c1)"
  shows "\<exists>new. c1 = cs @ new \<and> map view new = (if s \<noteq> None then [(Some True, True)] else [])"
proof (cases s)
  case (Some s')
  let ?new = "[\<lparr>cc_haveMessage = False, cc_message = [], cc_client = Some (new_server_connection h e rnd stale now (Some s') True),
      cc_id = word_of_nat (length cs) + 1\<rparr>]"
  have "c1 = cs @ ?new" using assms Some by (simp add: accept_client_def create_server_def isValid_def new_server_connection_def)
  with Some show ?thesis
    by (intro exI [of _ ?new]) (simp add: view_def shape_def isConnected_def getReadyState_def new_server_connection_def)
qed (use assms in simp)

lemma pass_same_server:
  assumes "run_pass ops h e rnd stale clock now s line cs = Some (Inr (q, cs'))" and same: "same_server st0 cs sst"
  shows "\<exists>sst'. follows st0 sst (pass_events (s \<noteq> None) cs cs') cs' sst'"
proof -
  let ?new = "if s \<noteq> None then [(Some True, True)] else []"
  from assms(1) obtain c1 c2 c3 where
    1: "(case s of None \<Rightarrow> Some (Inr cs) | Some s \<Rightarrow> accept_client ops h e rnd stale clock now s cs) = Some (Inr c1)" and
    2: "console_line line c1 = Inr (q, c2)" and 3: "remove_dead ops clock c2 = Some (Inr c3)" and
    4: "echo_from ops now [0..<length c3] c3 = Some (Inr cs')"
    by (auto simp: run_pass_def lbind_Some_Inr_iff)
  from accept_pass [OF 1] obtain new where new: "c1 = cs @ new" "map view new = ?new" by blast
  have "\<exists>sst1. follows st0 sst [Poll (s \<noteq> None)] c1 sst1"
  proof (cases s)
    case None
    with new poll_same_server [of st0 cs "fst sst" "snd sst"] same show ?thesis by (intro exI [of _ sst]) simp
  next
    case (Some s')
    with new obtain c where "c1 = cs @ [c]" "shape c = Some True" by (auto simp: view_def)
    with accept_same_server [of st0 cs "fst sst" "snd sst" c] same Some show ?thesis by simp
  qed
  then obtain sst1 where f1: "follows st0 sst [Poll (s \<noteq> None)] c1 sst1" ..
  have v: "map view c2 = map view c1"
    using 2 broadcast_views by (fastforce simp: console_line_def ebind_Inr_iff split: option.splits if_splits)
  have s2: "same_server st0 ([] @ c2) sst1" using same_server_shapes [OF follows_same [OF f1] views_shapes [OF v]] by simp
  have c3: "c3 = filter isConnected c2" using 3 by (simp add: remove_dead_filter)
  from filter_same_server [OF s2] c3 obtain sst2 where f2: "follows st0 sst1 (drops 0 (map isConnected c2)) c3 sst2" by auto
  from echo_same_server [OF 4 _ _ follows_same [OF f2]] obtain sst3 where
    f3: "follows st0 sst2 (give_ups [0..<length c3] (map shape c3) (map shape cs')) cs' sst3" by auto
  have "map isConnected new = map snd ?new" using arg_cong [OF new(2), of "map snd"] by (simp add: comp_def view_def)
  then have "drops 0 (map isConnected c2) = drops 0 (map isConnected cs)"
    using views_connected [OF v] new(1) by (simp add: drops_last)
  moreover have "map shape (filter isConnected new) = map fst (filter snd ?new)" using filter_views [of new] new(2) by simp
  then have "map shape c3 = map shape (filter isConnected cs) @ (if s \<noteq> None then [Some True] else [])"
    using views_filter [OF v] new(1) c3 by simp
  ultimately have "pass_events (s \<noteq> None) cs cs' =
      [Poll (s \<noteq> None)] @ drops 0 (map isConnected c2) @ give_ups [0..<length c3] (map shape c3) (map shape cs')"
    unfolding pass_events_def echo_length [OF 4] by simp
  with follows_trans [OF f1 follows_trans [OF f2 f3]] show ?thesis by (intro exI [of _ sst3]) simp
qed

lemma run_same_server:
  "run_server ops h e is cs = Some (Inr (q, cs')) \<Longrightarrow> same_server st0 cs sst \<Longrightarrow>
   \<exists>sst'. follows st0 sst (run_events ops h e is cs) cs' sst'"
proof (induction "is" arbitrary: cs sst)
  case Nil
  then have "cs = cs'" by simp
  with follows_refl [OF Nil.prems(2)] show ?case by (intro exI [of _ sst]) simp
next
  case (Cons i "is")
  from Cons.prems(1) obtain ex c1 where
    p: "run_pass ops h e (in_random i) (in_stale i) (in_clock i) (in_now i) (in_socket i) (in_line i) cs = Some (Inr (ex, c1))"
    "(if ex then Some (Inr (True, c1)) else run_server ops h e is c1) = Some (Inr (q, cs'))"
    by (auto simp: lbind_Some_Inr_iff)
  from pass_same_server [OF p(1) Cons.prems(2)] obtain sst1 where
    1: "follows st0 sst (pass_events (in_socket i \<noteq> None) cs c1) c1 sst1" by blast
  show ?case
  proof (cases ex)
    case True
    with p 1 show ?thesis by (intro exI [of _ sst1]) simp
  next
    case False
    with p(2) Cons.IH [OF _ follows_same [OF 1]] obtain sst2 where "follows st0 sst1 (run_events ops h e is c1) cs' sst2" by auto
    from follows_trans [OF 1 this] p(1) False show ?thesis by (intro exI [of _ sst2]) simp
  qed
qed

text \<open>A client that connects and never says a word: the pass after its time is up releases its socket.\<close>

definition silent_inputs :: "'s \<Rightarrow> 's pass_input list" where
  "silent_inputs s =
     [\<lparr>in_random = (\<lambda>k. word_of_nat k), in_stale = replicate 256 0, in_clock = int, in_now = 0, in_socket = Some s, in_line = None\<rparr>,
      \<lparr>in_random = (\<lambda>k. word_of_nat k), in_stale = replicate 256 0, in_clock = int, in_now = 60000000000, in_socket = None,
        in_line = None\<rparr>]"

lemma silent_client_server:
  assumes "shm_inv s" and "shm_incoming s = []"
  shows "\<exists>c. run_server shm_ops zero_heap LittleEndian (silent_inputs s) [] = Some (Inr (False, [c])) \<and> shape c = Some False"
    and "run_events shm_ops zero_heap LittleEndian (silent_inputs s) [] = [Poll True, Poll False, Give_up 0]"
proof -
  from shm_receive_spec [OF assms(1), of 1] assms(2) obtain s' where s': "shm_receive s 1 = Inr (-1, [], s')" by auto
  note run = silent_inputs_def run_pass_def accept_client_def create_server_def isValid_def new_server_connection_def Let_def
    console_line_def remove_dead.simps isConnected_def getReadyState_def getMessage_def poll_def processConnection_def
    CONNECTION_TIME_OUT_def shm_ops_def s' store_bytes_def release_socket_def shape_def
  show "\<exists>c. run_server shm_ops zero_heap LittleEndian (silent_inputs s) [] = Some (Inr (False, [c])) \<and> shape c = Some False"
    by (simp add: run)
  show "run_events shm_ops zero_heap LittleEndian (silent_inputs s) [] = [Poll True, Poll False, Give_up 0]"
    by (simp add: run pass_events_def give_ups_def)
qed

section \<open>Property\<close>

text \<open>C23. The passes of the server are events of its objects: whenever \<open>run\<close> returns, over whatever sockets, after
  whatever was typed and received, one poll of the listening socket in each pass, the release of each closed connection
  and of each socket that a client gave up lead the server that was just constructed, without using or releasing
  anything twice, to objects of the same shape, client by client; from there the destructor gives everything back.\<close>
theorem run_server_is_events:
  assumes "store_inv st0" and "run_server ops h e is [] = Some (Inr (q, clients))"
  shows "\<exists>sv st st'. ebind (new_server (create_os True) st0) (serve_all (run_events ops h e is [])) = Inr (sv, st)
    \<and> map (shape_at st) (sv_clients sv) = map (\<lambda>c. Some (shape c)) clients
    \<and> delete_server sv st = Inr st' \<and> objects st' = objects st0"
proof -
  from new_server_os [OF assms(1), of True] obtain sv0 st1 where n: "new_server (create_os True) st0 = Inr (sv0, st1)"
    "os_server st0 (sv0, st1)" by blast
  then have "sv_socket sv0 \<noteq> None" "sv_clients sv0 = []"
    by (auto simp: new_server_def create_os_def valid_or_null_def Let_def split: prod.splits)
  with n(2) have "same_server st0 ([] :: 'a client_connection list) (sv0, st1)" by (simp add: same_server_def)
  from run_same_server [OF assms(2) this] obtain sv st where
    f: "follows st0 (sv0, st1) (run_events ops h e is []) clients (sv, st)" by (metis surj_pair)
  have s: "os_server st0 (sv, st)" "map (shape_at st) (sv_clients sv) = map (\<lambda>c. Some (shape c)) clients"
    using follows_same [OF f] by (simp_all add: same_server_def)
  from delete_os [OF s(1)] obtain st' where "delete_server sv st = Inr st'" "objects st' = objects st0" by blast
  with n(1) f s(2) show ?thesis by (intro exI [of _ sv] exI [of _ st] exI [of _ st']) (simp add: follows_def)
qed

lemma run_server_is_events_witness:
  "\<exists>clients sv st st'.
      run_server shm_ops zero_heap LittleEndian (silent_inputs (client_socket [])) [] = Some (Inr (False, clients))
    \<and> ebind (new_server (create_os True) no_objects) (serve_all [Poll True, Poll False, Give_up 0]) = Inr (sv, st)
    \<and> map (shape_at st) (sv_clients sv) = [Some (Some False)]
    \<and> delete_server sv st = Inr st' \<and> objects st' = Map.empty"
proof -
  have "store_inv no_objects" by (simp add: no_objects_def store_inv_def)
  moreover have "shm_inv (client_socket [])" "shm_incoming (client_socket []) = []" using client_socket [of "[]"] by simp_all
  note silent = silent_client_server [OF this]
  from silent(1) obtain c where
    c: "run_server shm_ops zero_heap LittleEndian (silent_inputs (client_socket [])) [] = Some (Inr (False, [c]))"
    "shape c = Some False" by blast
  ultimately show ?thesis
    using run_server_is_events [OF _ c(1), of no_objects] by (auto simp: no_objects_def c(2) silent(2))
qed

end
